(* ===== verification/Prelude.thy ===== *)
theory Prelude
  imports Main "HOL-Library.Word" "HOL-Library.List_Lexorder" "HOL-Library.Multiset"
begin

text \<open>
  The shared vocabulary of the development: machine integer and byte types, the collections of
  rewrite rules the component proofs draw on, and the generic facts on lists, maps and words that
  more than one component needs. Nothing here models code of its own.
\<close>

unbundle bit_operations_syntax

type_synonym u8 = "8 word"
type_synonym u16 = "16 word"
type_synonym u32 = "32 word"
type_synonym u64 = "64 word"
type_synonym bytes = "u8 list"

named_theorems codec_simps "rewriting of encoders and decoders on buffers"
named_theorems io_simps "rewriting of file system operations that meet no fault"

section \<open>Buffers: overwriting a slice\<close>

text \<open>
  A sequence of stores \<open>buffer[off] = x0; buffer[off + 1] = x1; ...\<close> overwrites a slice. All
  encoders of the program are such sequences, so they are reasoned about as overwritten slices.
\<close>

definition overwrite :: "'a list \<Rightarrow> nat \<Rightarrow> 'a list \<Rightarrow> 'a list" where
  "overwrite b off xs = take off b @ xs @ drop (off + length xs) b"

lemma length_overwrite [simp]:
  "off + length xs \<le> length b \<Longrightarrow> length (overwrite b off xs) = length b"
  by (simp add: overwrite_def)

lemma overwrite_Nil [simp]: "overwrite b off [] = b"
  by (simp add: overwrite_def)

lemma overwrite_twice [simp]:
  "off + length xs + length ys \<le> length b \<Longrightarrow>
   overwrite (overwrite b off xs) (off + length xs) ys = overwrite b off (xs @ ys)"
  by (cases xs) (auto simp: overwrite_def min_def ac_simps)

lemma overwrite_twice':
  "off' = off + length xs \<Longrightarrow> off' + length ys \<le> length b \<Longrightarrow>
   overwrite (overwrite b off xs) off' ys = overwrite b off (xs @ ys)"
  by simp

lemma overwrite_all: "length xs = length b \<Longrightarrow> overwrite b 0 xs = xs"
  by (simp add: overwrite_def)

lemma overwrite_at_end: "off = length b \<Longrightarrow> overwrite (b @ replicate (length xs) x) off xs = b @ xs"
  by (simp add: overwrite_def)

lemma overwrite_prefix:
  "length xs = length ys \<Longrightarrow> overwrite (xs @ zs) 0 ys = ys @ zs"
  by (simp add: overwrite_def)

lemma overwrite_update:
  "off < length b \<Longrightarrow> b[off := x] = overwrite b off [x]"
  by (simp add: overwrite_def upd_conv_take_nth_drop)

section \<open>Words\<close>

lemma xor_right_cancel [simp]: "a XOR c = b XOR c \<longleftrightarrow> a = b" for a b c :: "'a::len word"
  by (metis xor.assoc xor.right_neutral xor_self_eq)

lemma xor_left_cancel [simp]: "c XOR a = c XOR b \<longleftrightarrow> a = b" for a b c :: "'a::len word"
  by (metis xor.commute xor_right_cancel)

lemma bit_wordD: "bit w n \<Longrightarrow> n < LENGTH('a)" for w :: "'a::len word"
  by (rule bit_imp_le_length)

lemma unat_word_of_nat_eq: "n < 2 ^ LENGTH('a) \<Longrightarrow> unat (word_of_nat n :: 'a::len word) = n"
  by (simp add: unat_of_nat take_bit_nat_eq_self)

section \<open>Lists\<close>

lemma take_drop_append_mid [simp]:
  "length xs = n \<Longrightarrow> length ys = m \<Longrightarrow> take m (drop n (xs @ ys @ zs)) = ys"
  by auto

lemma nth_drop_take: "i < n \<Longrightarrow> off + n \<le> length b \<Longrightarrow> take n (drop off b) ! i = b ! (off + i)"
  by simp

lemma sorted_wrt_less_map_of_None:
  fixes k :: "'a::linorder"
  assumes "sorted_wrt (<) (map fst xs)" and "xs \<noteq> []" and "k < fst (hd xs)"
  shows "map_of xs k = None"
  using assms by (cases xs) (auto simp: map_of_eq_None_iff)

end
