(* ===== verification/Errors.thy ===== *)
theory Errors
  imports Prelude
begin

text \<open>
  Errors and results: error.h, result.h and base.h. A \<open>Result<T>\<close> of the source is a sum whose
  left side is the failure. A failure is either an \<open>Error\<close> value of the source (\<open>Err\<close>), which
  callers inspect and pass on, or the end of the defined behaviour of the process (\<open>Abort\<close>):
  an assertion, an uncaught C++ exception, a read outside a buffer. Callers never see an \<open>Abort\<close>,
  so it passes through every handler.
\<close>

datatype ErrorCode =
    NONE | UNEXPECTED_ERR | FILE_DESCRIPTOR_ERR | FSYNC_ERR | CLOSE_ERR | BAD_CONFIG | WRITE_ERR
  | READ_ERR | READ_OUT_OF_RANGE | ERR_EOF | FSTAT_ERR | BAD_MAGIC | BAD_FILE | STRUCTURE_EMPTY
  | STALE_VERSION

record Error =
  code :: ErrorCode
  message :: string

datatype failure = Err Error | Abort string

type_synonym 'a result = "failure + 'a"

definition err :: "ErrorCode \<Rightarrow> string \<Rightarrow> 'a result" where
  "err c m = Inl (Err \<lparr>code = c, message = m\<rparr>)"

definition abort :: "string \<Rightarrow> 'a result" where
  "abort what = Inl (Abort what)"

definition ok :: "'a \<Rightarrow> 'a result" where
  "ok x = Inr x"

definition has_value :: "'a result \<Rightarrow> bool" where
  "has_value r \<longleftrightarrow> (case r of Inl _ \<Rightarrow> False | Inr _ \<Rightarrow> True)"

text \<open>The numeric values the macro table gives to the error codes.\<close>

fun error_value :: "ErrorCode \<Rightarrow> int" where
  "error_value NONE = -1"
| "error_value UNEXPECTED_ERR = 0"
| "error_value FILE_DESCRIPTOR_ERR = 1"
| "error_value FSYNC_ERR = 2"
| "error_value CLOSE_ERR = 3"
| "error_value BAD_CONFIG = 4"
| "error_value WRITE_ERR = 5"
| "error_value READ_ERR = 6"
| "error_value READ_OUT_OF_RANGE = 7"
| "error_value ERR_EOF = 8"
| "error_value FSTAT_ERR = 9"
| "error_value BAD_MAGIC = 10"
| "error_value BAD_FILE = 11"
| "error_value STRUCTURE_EMPTY = 12"
| "error_value STALE_VERSION = 1001"

text \<open>
  The idiom \<open>auto r = f(); if (!r.has_value()) return err(r.error());\<close> on computations that also
  change a state: the first failure ends the computation, with the state it left.
\<close>

definition attempt :: "'a result \<times> 's \<Rightarrow> ('a \<Rightarrow> 's \<Rightarrow> 'b result \<times> 's) \<Rightarrow> 'b result \<times> 's" where
  "attempt r k = (case r of (Inl e, s) \<Rightarrow> (Inl e, s) | (Inr x, s) \<Rightarrow> k x s)"

lemma attempt_Inl [simp]: "attempt (Inl e, s) k = (Inl e, s)"
  by (simp add: attempt_def)

lemma attempt_Inr [simp]: "attempt (Inr x, s) k = k x s"
  by (simp add: attempt_def)

lemma attempt_err [simp]: "attempt (err c m, s) k = (err c m, s)"
  by (simp add: attempt_def err_def)

lemma attempt_ok [simp]: "attempt (ok x, s) k = k x s"
  by (simp add: attempt_def ok_def)

lemma attempt_assoc: "attempt (attempt r f) g = attempt r (\<lambda>x s. attempt (f x s) g)"
  by (auto simp: attempt_def split: prod.splits sum.splits)

lemma attempt_eq_InrE:
  assumes "attempt r k = (Inr y, s')"
  obtains x s where "r = (Inr x, s)" and "k x s = (Inr y, s')"
  using assms by (auto simp: attempt_def split: prod.splits sum.splits)

lemma ok_eq_iff [simp]: "(ok x = Inr y) = (x = y)" "(ok x = ok y) = (x = y)" "ok x \<noteq> Inl e"
  by (auto simp: ok_def)

lemma err_neq_ok [simp]: "err c m \<noteq> ok x" "err c m \<noteq> Inr x" "abort w \<noteq> ok x" "abort w \<noteq> Inr x"
  by (auto simp: err_def ok_def abort_def)

lemma ok_neq_err [simp]: "ok x \<noteq> err c m" "ok x \<noteq> abort w" "Inr x \<noteq> err c m" "Inr x \<noteq> abort w"
  by (auto simp: err_def ok_def abort_def)

lemma has_value_simps [simp]:
  "has_value (Inr x)" "\<not> has_value (Inl e)" "has_value (ok x)" "\<not> has_value (err c m)"
  "\<not> has_value (abort w)"
  by (auto simp: has_value_def ok_def err_def abort_def)

lemma error_value_inj: "error_value a = error_value b \<Longrightarrow> a = b"
  by (cases a; cases b) simp_all

end
