(* ===== verification/Storage_Types.thy ===== *)
theory Storage_Types
  imports Errors
begin

text \<open>
  The value types of the storage layer: key.h, value.h, key_range.h, internal_value.h and the
  identifiers of sstable_common.h. Keys compare as \<open>std::vector<uint8_t>\<close> does, lexicographically
  by unsigned bytes; table ids compare by number. Both orders are total and are made available to
  the library as \<open>linorder\<close> instances.
\<close>

datatype Key = Key (key_bytes: bytes)

instantiation Key :: linorder
begin

definition less_Key :: "Key \<Rightarrow> Key \<Rightarrow> bool" where
  "less_Key a b \<longleftrightarrow> key_bytes a < key_bytes b"

definition less_eq_Key :: "Key \<Rightarrow> Key \<Rightarrow> bool" where
  "less_eq_Key a b \<longleftrightarrow> key_bytes a \<le> key_bytes b"

instance
  by standard (auto simp: less_Key_def less_eq_Key_def Key.expand)

end

definition key_size :: "Key \<Rightarrow> nat" where
  "key_size k = length (key_bytes k)"

record Value =
  value_data :: bytes

record InternalValue =
  data :: bytes
  is_tombstone :: bool
  sequence :: u64

record KeyRange =
  range_start :: "Key option"
  range_end :: "Key option"
  start_inclusive :: bool
  end_inclusive :: bool

datatype SSTableId = SSTableId (id_value: u64)

instantiation SSTableId :: linorder
begin

definition less_SSTableId :: "SSTableId \<Rightarrow> SSTableId \<Rightarrow> bool" where
  "less_SSTableId a b \<longleftrightarrow> id_value a < id_value b"

definition less_eq_SSTableId :: "SSTableId \<Rightarrow> SSTableId \<Rightarrow> bool" where
  "less_eq_SSTableId a b \<longleftrightarrow> id_value a \<le> id_value b"

instance
  by standard (auto simp: less_SSTableId_def less_eq_SSTableId_def SSTableId.expand)

end

record SSTableMeta =
  meta_id :: SSTableId
  size_bytes :: u64
  entry_count :: u64
  max_sequence :: u64

type_synonym entry = "Key \<times> InternalValue"

lemma Key_less [simp]: "Key a < Key b \<longleftrightarrow> a < b"
  by (simp add: less_Key_def)

lemma Key_less_eq [simp]: "Key a \<le> Key b \<longleftrightarrow> a \<le> b"
  by (simp add: less_eq_Key_def)

lemma SSTableId_less [simp]: "SSTableId a < SSTableId b \<longleftrightarrow> a < b"
  by (simp add: less_SSTableId_def)

lemma SSTableId_less_eq [simp]: "SSTableId a \<le> SSTableId b \<longleftrightarrow> a \<le> b"
  by (simp add: less_eq_SSTableId_def)

end
