(* ===== verification/Key_Encoding.thy ===== *)
theory Key_Encoding
  imports Storage_Types
begin

text \<open>
  catalog/key_encoding.cpp: the encoding of a composite key (partition key, clustering key, column
  name) as one byte string. A zero byte of a field is written as 00 FF and a field ends with 00 01,
  so that the byte order of encoded keys is the lexicographic order of the composite keys.
\<close>

record CompositeKey =
  partition_key :: bytes
  clustering_key :: bytes
  column_name :: bytes

fun push_escaped :: "bytes \<Rightarrow> bytes \<Rightarrow> bytes" where
  "push_escaped out [] = out"
| "push_escaped out (byte # bs) =
     push_escaped (if byte = 0x00 then (out @ [byte]) @ [0xFF] else out @ [byte]) bs"

definition encode_composite_key :: "bytes \<Rightarrow> bytes \<Rightarrow> bytes \<Rightarrow> bytes" where
  "encode_composite_key pk ck col =
     (let out = [];
          out = push_escaped out pk;
          out = (out @ [0x00]) @ [0x01];
          out = push_escaped out ck;
          out = (out @ [0x00]) @ [0x01];
          out = push_escaped out col;
          out = (out @ [0x00]) @ [0x01]
      in out)"

text \<open>
  The lambda \<open>decode_field\<close> reads from the shared iterator, here the bytes still ahead of it, and
  appends to its target; it returns its verdict, the target and where the iterator stands.
\<close>

fun decode_field :: "bytes \<Rightarrow> bytes \<Rightarrow> bool \<times> bytes \<times> bytes" where
  "decode_field [] target = (False, target, [])"
| "decode_field (b # it) target =
     (if b = 0x00 then
        (case it of
           [] \<Rightarrow> (False, target, [])
         | next # it' \<Rightarrow>
             if next = 0xFF then decode_field it' (target @ [0x00])
             else if next = 0x01 then (True, target, it')
             else (False, target, it'))
      else decode_field it (target @ [b]))"

definition decode_composite_key :: "bytes \<Rightarrow> CompositeKey result" where
  "decode_composite_key encoded =
     (case decode_field encoded [] of
        (False, _, _) \<Rightarrow> err READ_ERR ''Malformed partition key''
      | (True, pk, it) \<Rightarrow>
          (case decode_field it [] of
             (False, _, _) \<Rightarrow> err READ_ERR ''Malformed clustering key''
           | (True, ck, it) \<Rightarrow>
               (case decode_field it [] of
                  (False, _, _) \<Rightarrow> err READ_ERR ''Malformed column name''
                | (True, col, _) \<Rightarrow>
                    ok \<lparr>partition_key = pk, clustering_key = ck, column_name = col\<rparr>)))"

section \<open>One field\<close>

fun escape :: "bytes \<Rightarrow> bytes" where
  "escape [] = []"
| "escape (b # bs) = (if b = 0 then 0 # 0xFF # escape bs else b # escape bs)"

lemma push_escaped_eq: "push_escaped out bs = out @ escape bs"
  by (induction out bs rule: push_escaped.induct) auto

lemma encode_composite_key_eq:
  "encode_composite_key pk ck col = escape pk @ [0, 1] @ escape ck @ [0, 1] @ escape col @ [0, 1]"
  by (simp add: encode_composite_key_def push_escaped_eq)

lemma decode_field_escape:
  "decode_field (escape bs @ [0, 1] @ rest) target = (True, target @ bs, rest)"
  by (induction bs arbitrary: target) auto

lemma decode_field_sound:
  "decode_field it target = (True, out, rest) \<Longrightarrow>
   \<exists>bs. out = target @ bs \<and> it = escape bs @ [0, 1] @ rest"
proof (induction it target arbitrary: out rest rule: decode_field.induct)
  case (2 b it target)
  show ?case
  proof (cases "b = 0")
    case False
    with 2 obtain bs where "out = (target @ [b]) @ bs" "it = escape bs @ [0, 1] @ rest" by auto
    with False show ?thesis by (intro exI [of _ "b # bs"]) simp
  next
    case True
    with "2.prems" obtain n it' where it: "it = n # it'" by (cases it) auto
    show ?thesis
    proof (cases "n = 0xFF")
      case n: True
      with "2.prems" True it have "decode_field it' (target @ [0]) = (True, out, rest)" by simp
      with "2.IH"(1) [OF True it n]
      obtain bs where "out = (target @ [0]) @ bs" "it' = escape bs @ [0, 1] @ rest" by blast
      with True it n show ?thesis by (intro exI [of _ "0 # bs"]) simp
    next
      case n: False
      with "2.prems" True it show ?thesis by (intro exI [of _ "[]"]) (auto split: if_splits)
    qed
  qed
qed simp

lemma escape_less_iff:
  "escape a @ [0, 1] @ r < escape b @ [0, 1] @ s \<longleftrightarrow> a < b \<or> a = b \<and> r < s"
proof (induction a arbitrary: b)
  case Nil
  then show ?case by (cases b) (auto simp: word_gt_0)
next
  case (Cons x xs)
  then show ?case by (cases b) (auto simp: word_gt_0)
qed

lemma decode_composite_key_append:
  "decode_composite_key (encode_composite_key pk ck col @ rest)
   = ok \<lparr>partition_key = pk, clustering_key = ck, column_name = col\<rparr>"
  using decode_field_escape [of pk "escape ck @ [0, 1] @ escape col @ [0, 1] @ rest" "[]"]
    decode_field_escape [of ck "escape col @ [0, 1] @ rest" "[]"]
    decode_field_escape [of col rest "[]"]
  by (simp add: decode_composite_key_def encode_composite_key_eq)

section \<open>Properties\<close>

text \<open>
  Decoding an encoded composite key gives its three fields back.
\<close>

theorem composite_key_roundtrip:
  "decode_composite_key (encode_composite_key pk ck col)
   = ok \<lparr>partition_key = pk, clustering_key = ck, column_name = col\<rparr>"
  using decode_composite_key_append [of pk ck col "[]"] by simp

text \<open>
  C18. Decoding succeeds with a composite key exactly when the input starts with the encoding of
  that key; bytes after it are ignored.
\<close>

theorem composite_key_decode_iff:
  "decode_composite_key encoded = ok k \<longleftrightarrow>
   (\<exists>rest. encoded = encode_composite_key (partition_key k) (clustering_key k) (column_name k) @ rest)"
proof
  assume "decode_composite_key encoded = ok k"
  then obtain pk it ck it' col it'' where
      f: "decode_field encoded [] = (True, pk, it)" "decode_field it [] = (True, ck, it')"
        "decode_field it' [] = (True, col, it'')"
    and k: "k = \<lparr>partition_key = pk, clustering_key = ck, column_name = col\<rparr>"
    by (auto simp: decode_composite_key_def split: prod.splits bool.splits)
  then have "encoded = encode_composite_key pk ck col @ it''"
    by (auto simp: encode_composite_key_eq dest!: decode_field_sound)
  with k show "\<exists>rest. encoded
      = encode_composite_key (partition_key k) (clustering_key k) (column_name k) @ rest" by simp
qed (auto simp: decode_composite_key_append)

text \<open>
  C17. Encoded composite keys compare, as byte strings, exactly as the composite keys compare
  lexicographically by partition key, clustering key and column name.
\<close>

theorem composite_key_order:
  "Key (encode_composite_key pk ck col) < Key (encode_composite_key pk' ck' col') \<longleftrightarrow>
   pk < pk' \<or> pk = pk' \<and> (ck < ck' \<or> ck = ck' \<and> col < col')"
  using escape_less_iff [of col "[]" col' "[]"]
  by (simp add: encode_composite_key_eq escape_less_iff [simplified])

end
