(* ===== verification/Encoding.thy ===== *)
theory Encoding
  imports Errors
begin

text \<open>
  encoding.cpp: big-endian stores and loads of unsigned integers at an offset of a byte buffer.
  Every encoder returns the buffer it wrote and the offset behind the written bytes.
\<close>

definition encode_uint8 :: "u8 \<Rightarrow> bytes \<Rightarrow> nat \<Rightarrow> bytes \<times> nat" where
  "encode_uint8 value buffer offset = (buffer[offset := value], offset + 1)"

definition decode_uint8 :: "bytes \<Rightarrow> nat \<Rightarrow> u8" where
  "decode_uint8 buffer offset = buffer ! offset"

definition encode_uint16 :: "u16 \<Rightarrow> bytes \<Rightarrow> nat \<Rightarrow> bytes \<times> nat" where
  "encode_uint16 value buffer offset =
     (fold (\<lambda>i b. b[offset + i := ucast (drop_bit ((1 - i) * 8) value)]) [0..<2] buffer, offset + 2)"

definition decode_uint16 :: "bytes \<Rightarrow> nat \<Rightarrow> u16" where
  "decode_uint16 buffer offset =
     push_bit 8 (ucast (buffer ! offset)) OR ucast (buffer ! (offset + 1))"

definition encode_uint32 :: "u32 \<Rightarrow> bytes \<Rightarrow> nat \<Rightarrow> bytes \<times> nat" where
  "encode_uint32 value buffer offset =
     (fold (\<lambda>i b. b[offset + i := ucast (drop_bit ((3 - i) * 8) value)]) [0..<4] buffer, offset + 4)"

definition decode_uint32 :: "bytes \<Rightarrow> nat \<Rightarrow> u32" where
  "decode_uint32 buffer offset =
     fold (\<lambda>i total. total OR push_bit ((3 - i) * 8) (ucast (buffer ! (offset + i)))) [0..<4] 0"

definition encode_uint64 :: "u64 \<Rightarrow> bytes \<Rightarrow> nat \<Rightarrow> bytes \<times> nat" where
  "encode_uint64 value buffer offset =
     (fold (\<lambda>i b. b[offset + i := ucast (drop_bit ((7 - i) * 8) value)]) [0..<8] buffer, offset + 8)"

definition decode_uint64 :: "bytes \<Rightarrow> nat \<Rightarrow> u64" where
  "decode_uint64 buffer offset =
     fold (\<lambda>i total. total OR push_bit ((7 - i) * 8) (ucast (buffer ! (offset + i)))) [0..<8] 0"

definition encode_bytes :: "bytes \<Rightarrow> nat \<Rightarrow> bytes \<Rightarrow> nat \<Rightarrow> bytes \<times> nat" where
  "encode_bytes data len buffer offset =
     (if len > 0 then overwrite buffer offset (take len data) else buffer, offset + len)"

section \<open>Encoders overwrite slices\<close>

text \<open>The big-endian image of a word: the byte string the encoders store.\<close>

definition be :: "nat \<Rightarrow> 'a::len word \<Rightarrow> bytes" where
  "be n w = map (\<lambda>i. ucast (drop_bit ((n - 1 - i) * 8) w)) [0..<n]"

lemma length_be [simp]: "length (be n w) = n"
  by (simp add: be_def)

lemma fold_store:
  "off + n \<le> length b \<Longrightarrow>
   fold (\<lambda>i b. b[off + i := f i]) [0..<n] b = overwrite b off (map f [0..<n])"
proof (induction n)
  case (Suc n)
  then have "fold (\<lambda>i b. b[off + i := f i]) [0..<Suc n] b
      = (overwrite b off (map f [0..<n]))[off + n := f n]" by simp
  also have "\<dots> = overwrite (overwrite b off (map f [0..<n])) (off + length (map f [0..<n])) [f n]"
    using Suc.prems by (subst overwrite_update) simp_all
  also have "\<dots> = overwrite b off (map f [0..<n] @ [f n])"
    using Suc.prems by (subst overwrite_twice) simp_all
  finally show ?case by simp
qed simp

lemma encode_uint8_overwrite [codec_simps]:
  "offset + 1 \<le> length buffer \<Longrightarrow>
   encode_uint8 v buffer offset = (overwrite buffer offset [v], offset + 1)"
  by (simp add: encode_uint8_def overwrite_update)

lemma encode_uint16_overwrite [codec_simps]:
  "offset + 2 \<le> length buffer \<Longrightarrow>
   encode_uint16 v buffer offset = (overwrite buffer offset (be 2 v), offset + 2)"
  unfolding encode_uint16_def be_def by (subst fold_store) simp_all

lemma encode_uint32_overwrite [codec_simps]:
  "offset + 4 \<le> length buffer \<Longrightarrow>
   encode_uint32 v buffer offset = (overwrite buffer offset (be 4 v), offset + 4)"
  unfolding encode_uint32_def be_def by (subst fold_store) simp_all

lemma encode_uint64_overwrite [codec_simps]:
  "offset + 8 \<le> length buffer \<Longrightarrow>
   encode_uint64 v buffer offset = (overwrite buffer offset (be 8 v), offset + 8)"
  unfolding encode_uint64_def be_def by (subst fold_store) simp_all

lemma encode_bytes_overwrite [codec_simps]:
  "n = length data \<Longrightarrow> encode_bytes data n buffer offset = (overwrite buffer offset data, offset + n)"
  by (simp add: encode_bytes_def)

section \<open>Decoders read slices\<close>

lemma bit_fold_or:
  "bit (fold (\<lambda>i t. t OR f i) xs t0) k \<longleftrightarrow> bit t0 k \<or> (\<exists>i\<in>set xs. bit (f i) k)"
  for t0 :: "'a::len word"
  by (induction xs arbitrary: t0) (auto simp: bit_or_iff)

lemma byte_index_iff: "m * 8 \<le> k \<and> k - m * 8 < 8 \<longleftrightarrow> m = k div (8::nat)"
proof
  assume "m * 8 \<le> k \<and> k - m * 8 < 8"
  then have "8 * m \<le> k" and "k < 8 * Suc m" by auto
  then show "m = k div 8" by (simp add: div_nat_eqI)
qed linarith

lemma fold_or_be:
  fixes v :: "'a::len word"
  assumes "LENGTH('a) = 8 * n"
  shows "fold (\<lambda>i t. t OR push_bit ((n - 1 - i) * 8) (ucast (be n v ! i))) [0..<n] 0 = v"
proof (rule bit_word_eqI)
  fix k assume k: "k < LENGTH('a)"
  let ?t = "\<lambda>i. push_bit ((n - 1 - i) * 8) (ucast (be n v ! i)) :: 'a word"
  have t: "bit (?t i) k \<longleftrightarrow> i = n - 1 - k div 8 \<and> bit v k" if i: "i < n" for i
  proof -
    have "bit (?t i) k \<longleftrightarrow> (n - 1 - i) * 8 \<le> k \<and> k - (n - 1 - i) * 8 < 8 \<and> bit v k"
      using i k assms by (auto simp: be_def bit_simps)
    then show ?thesis
      using i k assms byte_index_iff [of "n - 1 - i" k] by auto
  qed
  have "n - 1 - k div 8 < n" using k assms by (cases n) auto
  then show "bit (fold (\<lambda>i t. t OR ?t i) [0..<n] 0) k = bit v k"
    using t by (auto simp: bit_fold_or)
qed

lemma nth_slice_be:
  "take n (drop off b) = be n v \<Longrightarrow> off + n \<le> length b \<Longrightarrow> i < n \<Longrightarrow> b ! (off + i) = be n v ! i"
  by (metis nth_drop_take)

lemma fold_or_slice:
  fixes v :: "'a::len word"
  assumes "take n (drop off b) = be n v" and "off + n \<le> length b" and "LENGTH('a) = 8 * n"
  shows "fold (\<lambda>i t. t OR push_bit ((n - 1 - i) * 8) (ucast (b ! (off + i)))) [0..<n] 0 = v"
proof -
  have "fold (\<lambda>i t. t OR push_bit ((n - 1 - i) * 8) (ucast (b ! (off + i)))) [0..<n] 0
      = fold (\<lambda>i t. t OR push_bit ((n - 1 - i) * 8) (ucast (be n v ! i))) [0..<n] 0"
    by (rule fold_cong) (simp_all add: nth_slice_be [OF assms(1,2)])
  also have "\<dots> = v" by (rule fold_or_be [OF assms(3)])
  finally show ?thesis .
qed

lemma decode_uint8_slice [codec_simps]:
  "take 1 (drop off b) = [v] \<Longrightarrow> off + 1 \<le> length b \<Longrightarrow> decode_uint8 b off = v"
  using nth_drop_take [of 0 1 off b] by (simp add: decode_uint8_def)

lemma decode_uint16_be [codec_simps]:
  "take 2 (drop off b) = be 2 v \<Longrightarrow> off + 2 \<le> length b \<Longrightarrow> decode_uint16 b off = v"
  using fold_or_slice [of 2 off b v] by (simp add: decode_uint16_def upt_rec)

lemma decode_uint32_be [codec_simps]:
  "take 4 (drop off b) = be 4 v \<Longrightarrow> off + 4 \<le> length b \<Longrightarrow> decode_uint32 b off = v"
  using fold_or_slice [of 4 off b v] by (simp add: decode_uint32_def)

lemma decode_uint64_be [codec_simps]:
  "take 8 (drop off b) = be 8 v \<Longrightarrow> off + 8 \<le> length b \<Longrightarrow> decode_uint64 b off = v"
  using fold_or_slice [of 8 off b v] by (simp add: decode_uint64_def)

end
