(* ===== verification/Sstable_Common.thy ===== *)
theory Sstable_Common
  imports Storage_Types Encoding
begin

text \<open>
  sstable_common.h, the file name helpers of dazzle_engine.cpp and trim_string of utils.h: the
  constants and records of the SSTable format, and the printing and parsing of file names.
  \<open>std::stoll\<close> and \<open>std::from_chars\<close> are written out as the library defines them.
\<close>

definition FOOTER_SIZE :: nat where "FOOTER_SIZE = 64"
definition MAGIC_BYTES_OFFSET :: nat where "MAGIC_BYTES_OFFSET = 50"
definition FOOTER_CHECKSUM_OFFSET :: nat where "FOOTER_CHECKSUM_OFFSET = 46"
definition MAX_PAGING_SIZE_BYTES :: nat where "MAX_PAGING_SIZE_BYTES = 4096"
definition SSTABLE_FORMAT_VERSION :: nat where "SSTABLE_FORMAT_VERSION = 4"
definition MAGIC_SIZE :: nat where "MAGIC_SIZE = 8"

definition MAGIC :: bytes where
  "MAGIC = map (\<lambda>c. word_of_nat (of_char c)) ''ENIGSSTB''"

record IndexEntry =
  first_key :: Key
  block_offset :: nat
  block_size :: nat

record SSTFooter =
  index_block_offset :: u64
  index_block_size :: u32
  filter_block_offset :: u64
  filter_block_size :: u32
  footer_entry_count :: u32
  format_version :: u16
  highest_sequence :: u64
  footer_size_bytes :: u64

section \<open>Numbers in text\<close>

definition digit :: "nat \<Rightarrow> char" where
  "digit d = char_of (48 + d)"

definition is_digit :: "char \<Rightarrow> bool" where
  "is_digit c \<longleftrightarrow> 48 \<le> (of_char c :: nat) \<and> (of_char c :: nat) \<le> 57"

fun decimal :: "nat \<Rightarrow> string" where
  "decimal n = (if n < 10 then [digit n] else decimal (n div 10) @ [digit (n mod 10)])"

declare decimal.simps [simp del]

text \<open>\<open>std::setfill('0') << std::setw(8) << n\<close>.\<close>

definition padded :: "nat \<Rightarrow> string" where
  "padded n = replicate (8 - length (decimal n)) (CHR ''0'') @ decimal n"

definition read_digits :: "string \<Rightarrow> nat" where
  "read_digits ds = foldl (\<lambda>v c. 10 * v + (of_char c - 48)) 0 ds"

section \<open>File names\<close>

definition sstable_filename :: "SSTableId \<Rightarrow> string" where
  "sstable_filename i = ''sst_'' @ padded (unat (id_value i)) @ ''.db''"

definition sst_path :: "string \<Rightarrow> u64 \<Rightarrow> string" where
  "sst_path data_dir seq = data_dir @ ''/sst/'' @ sstable_filename (SSTableId seq)"

definition wal_path :: "string \<Rightarrow> u64 \<Rightarrow> string" where
  "wal_path data_dir seq = (data_dir @ ''/wal'') @ ''/wal_'' @ padded (unat seq) @ ''.log''"

datatype from_chars_error = invalid_argument | result_out_of_range

definition from_chars :: "string \<Rightarrow> (from_chars_error + u64) \<times> string" where
  "from_chars s =
     (let ds = takeWhile is_digit s; rest = dropWhile is_digit s in
      if ds = [] then (Inl invalid_argument, s)
      else if read_digits ds \<ge> 2 ^ 64 then (Inl result_out_of_range, rest)
      else (Inr (word_of_nat (read_digits ds)), rest))"

definition parse_sstable_filename :: "string \<Rightarrow> SSTableId" where
  "parse_sstable_filename path =
     (let filename = rev (takeWhile (\<lambda>c. c \<noteq> CHR ''/'' \<and> c \<noteq> CHR 0x5C) (rev path));
          n = length filename
      in
      if n \<le> 4 + 3 \<or> take 4 filename \<noteq> ''sst_'' \<or> drop (n - 3) filename \<noteq> ''.db'' then SSTableId 0
      else
        case from_chars (take (n - 4 - 3) (drop 4 filename)) of
          (Inl _, _) \<Rightarrow> SSTableId 0
        | (Inr v, rest) \<Rightarrow> if rest \<noteq> [] then SSTableId 0 else SSTableId v)"

definition is_space :: "char \<Rightarrow> bool" where
  "is_space c \<longleftrightarrow> c = CHR '' '' \<or> 9 \<le> (of_char c :: nat) \<and> (of_char c :: nat) \<le> 13"

definition stoll :: "string \<Rightarrow> int result" where
  "stoll s =
     (let s = dropWhile is_space s;
          neg = (s \<noteq> [] \<and> hd s = CHR ''-'');
          s = (if s \<noteq> [] \<and> (hd s = CHR ''-'' \<or> hd s = CHR ''+'') then tl s else s);
          ds = takeWhile is_digit s;
          v = (if neg then - int (read_digits ds) else int (read_digits ds))
      in if ds = [] then abort ''std::invalid_argument''
         else if v < - (2 ^ 63) \<or> v \<ge> 2 ^ 63 then abort ''std::out_of_range''
         else ok v)"

definition find_char :: "char \<Rightarrow> string \<Rightarrow> nat option" where
  "find_char c s = (if c \<in> set s then Some (length (takeWhile (\<lambda>d. d \<noteq> c) s)) else None)"

text \<open>
  \<open>npos + 1\<close> is 0. A missing or too early dot makes the count so large that \<open>substr\<close> runs to
  the end of the name.
\<close>

definition extract_num :: "string \<Rightarrow> u64 result" where
  "extract_num filename =
     (let start = (case find_char (CHR ''_'') filename of None \<Rightarrow> 0 | Some i \<Rightarrow> i + 1);
          part = (case find_char (CHR ''.'') filename of
                    None \<Rightarrow> drop start filename
                  | Some e \<Rightarrow> if e < start then drop start filename else take (e - start) (drop start filename))
      in case stoll part of Inl e \<Rightarrow> Inl e | Inr v \<Rightarrow> ok (word_of_int v))"

text \<open>The whitespace trim_string removes is \<open>" \t\n\r\f\v"\<close>, the set \<open>std::isspace\<close> accepts.\<close>

definition trim_string :: "string \<Rightarrow> string" where
  "trim_string s = rev (dropWhile is_space (rev (dropWhile is_space s)))"

section \<open>Printing and parsing\<close>

lemma of_char_digit [simp]: "d < 10 \<Longrightarrow> of_char (digit d) = (48 + d :: nat)"
  by (simp add: digit_def)

lemma is_digit_digit: "d < 10 \<Longrightarrow> is_digit (digit d)"
  by (simp add: is_digit_def)

lemma decimal_digits: "\<forall>c \<in> set (decimal n). is_digit c"
proof (induction n rule: decimal.induct)
  case (1 n)
  then show ?case by (subst decimal.simps) (auto simp: is_digit_digit)
qed

lemma decimal_not_Nil [simp]: "decimal n \<noteq> []"
  by (subst decimal.simps) simp

lemma read_digits_snoc: "read_digits (ds @ [c]) = 10 * read_digits ds + (of_char c - 48)"
  by (simp add: read_digits_def)

lemma read_decimal: "read_digits (decimal n) = n"
proof (induction n rule: decimal.induct)
  case (1 n)
  then show ?case
    by (subst decimal.simps) (auto simp: read_digits_snoc, simp add: read_digits_def)
qed

lemma padded_digits: "\<forall>c \<in> set (padded n). is_digit c"
  using decimal_digits [of n] by (auto simp: padded_def is_digit_def)

lemma padded_not_Nil [simp]: "padded n \<noteq> []"
  by (simp add: padded_def)

lemma length_padded: "8 \<le> length (padded n)"
  by (simp add: padded_def)

lemma read_padded: "read_digits (padded n) = n"
proof -
  have "read_digits (replicate k (CHR ''0'') @ ds) = read_digits ds" for k ds
    by (induction k) (simp_all add: read_digits_def)
  then show ?thesis by (simp add: padded_def read_decimal)
qed

lemma padded_inj: "padded m = padded n \<Longrightarrow> m = n"
  by (metis read_padded)

lemma not_digit [simp]: "\<not> is_digit (CHR ''/'')" "\<not> is_digit (CHR 0x5C)" "\<not> is_digit (CHR ''.'')"
    "\<not> is_digit (CHR ''_'')" "\<not> is_digit (CHR ''-'')" "\<not> is_digit (CHR ''+'')"
  by (simp_all add: is_digit_def)

lemma takeWhile_padded [simp]:
  "\<not> is_digit c \<Longrightarrow> takeWhile is_digit (padded n @ c # s) = padded n"
  "takeWhile is_digit (padded n) = padded n" "dropWhile is_digit (padded n) = []"
  using padded_digits [of n] by (auto simp: takeWhile_append2 takeWhile_eq_all_conv dropWhile_eq_Nil_conv)

lemma padded_notin: "\<not> is_digit c \<Longrightarrow> c \<notin> set (padded n)"
  using padded_digits by blast

lemma stoll_padded: "stoll (padded n) = (if n < 2 ^ 63 then ok (int n) else abort ''std::out_of_range'')"
proof -
  let ?p = "padded n"
  have h: "is_digit (hd ?p)" using padded_digits [of n] by simp
  then have "\<not> is_space (hd ?p)" "hd ?p \<noteq> CHR ''-''" "hd ?p \<noteq> CHR ''+''"
    by (auto simp: is_space_def is_digit_def)
  moreover from this(1) have "dropWhile is_space ?p = ?p" by (cases ?p) auto
  moreover have "int n < 2 ^ 63 \<longleftrightarrow> n < 2 ^ 63"
    using of_nat_less_iff [of n "2 ^ 63", where 'a = int] by simp
  ultimately show ?thesis
    by (auto simp: stoll_def Let_def read_padded)
qed

lemma find_char_prefix: "c \<notin> set pre \<Longrightarrow> find_char c (pre @ c # s) = Some (length pre)"
  by (simp add: find_char_def) (subst takeWhile_append2, auto)

lemma extract_padded:
  assumes "CHR ''_'' \<notin> set pre" and "CHR ''.'' \<notin> set pre"
  shows "extract_num (pre @ CHR ''_'' # padded n @ CHR ''.'' # suf)
     = (if n < 2 ^ 63 then ok (word_of_nat n) else abort ''std::out_of_range'')"
proof -
  have "find_char (CHR ''.'') (pre @ CHR ''_'' # padded n @ CHR ''.'' # suf) = Some (length pre + 1 + length (padded n))"
    using find_char_prefix [of "CHR ''.''" "pre @ CHR ''_'' # padded n" suf] assms(2) padded_notin by simp
  then show ?thesis
    using assms(1) by (simp add: extract_num_def find_char_prefix stoll_padded ok_def abort_def)
qed

lemma wal_filename_num:
  "extract_num (''wal_'' @ padded (unat seq) @ ''.log'')
   = (if unat seq < 2 ^ 63 then ok seq else abort ''std::out_of_range'')"
  using extract_padded [of "''wal''" "unat seq" "''log''"] by simp

lemma sst_path_inj: "sst_path d i = sst_path d j \<Longrightarrow> i = j"
  by (auto simp: sst_path_def sstable_filename_def word_unat_eq_iff dest: padded_inj)

lemma wal_path_inj: "wal_path d i = wal_path d j \<Longrightarrow> i = j"
  by (auto simp: wal_path_def word_unat_eq_iff dest: padded_inj)

lemma parse_filename:
  assumes "d = [] \<or> last d = CHR ''/''"
  shows "parse_sstable_filename (d @ sstable_filename i) = i"
proof -
  let ?f = "sstable_filename i" and ?p = "padded (unat (id_value i))"
  have no: "CHR ''/'' \<notin> set ?f" "CHR 0x5C \<notin> set ?f"
    by (auto simp: sstable_filename_def padded_notin)
  have "takeWhile (\<lambda>c. c \<noteq> CHR ''/'' \<and> c \<noteq> CHR 0x5C) (rev ?f @ rev d) = rev ?f"
  proof (cases "d = []")
    case True
    then show ?thesis using no by (auto simp: takeWhile_eq_all_conv)
  next
    case False
    with assms obtain d' where "d = d' @ [CHR ''/'']" by (metis append_butlast_last_id)
    then show ?thesis using no by (subst takeWhile_append2) auto
  qed
  then have f: "rev (takeWhile (\<lambda>c. c \<noteq> CHR ''/'' \<and> c \<noteq> CHR 0x5C) (rev (d @ ?f))) = ?f"
    by simp
  have "from_chars ?p = (Inr (id_value i), [])"
    using unsigned_less [of "id_value i", where 'a = nat] by (simp add: from_chars_def read_padded)
  then show ?thesis
    unfolding parse_sstable_filename_def f
    by (simp add: sstable_filename_def)
qed

section \<open>Properties\<close>

text \<open>
  C28. Parsing the path of a table file gives its id back, for every directory and every 64-bit
  id.
\<close>

theorem sst_path_roundtrip: "parse_sstable_filename (sst_path data_dir seq) = SSTableId seq"
  using parse_filename [of "data_dir @ ''/sst/''" "SSTableId seq"] by (simp add: sst_path_def)

text \<open>
  C29. The number the engine extracts from a table file name is its id for ids below 2^63; for
  larger ids the extraction throws.
\<close>

theorem extract_num_sstable_filename:
  "extract_num (sstable_filename (SSTableId seq))
   = (if unat seq < 2 ^ 63 then ok seq else abort ''std::out_of_range'')"
  using extract_padded [of "''sst''" "unat seq" "''db''"] by (simp add: sstable_filename_def)

end
