(* ===== verification/Hash.thy ===== *)
theory Hash
  imports Encoding
begin

text \<open>
  hash.cpp: the murmur-like hash behind the bloom filter and the cache shards. The main loop takes
  four bytes at a time, the switch folds in the one to three that remain.
\<close>

definition hash_m :: u32 where
  "hash_m = 0xc6a4a793"

function hash_loop :: "bytes \<Rightarrow> u32 \<Rightarrow> bytes \<times> u32" where
  "hash_loop data h =
     (if length data \<ge> 4 then
        let w = decode_uint32 data 0;
            h = h + w;
            h = h * hash_m;
            h = h XOR drop_bit 16 h
        in hash_loop (drop 4 data) h
      else (data, h))"
  by pat_completeness auto
termination
  by (relation "measure (\<lambda>(data, h). length data)") auto

declare hash_loop.simps [simp del]

definition hash_tail :: "bytes \<Rightarrow> u32 \<Rightarrow> u32" where
  "hash_tail data h =
     (let n = length data;
          h = (if n = 3 then h + push_bit 16 (ucast (data ! 2)) else h);
          h = (if n = 3 \<or> n = 2 then h + push_bit 8 (ucast (data ! 1)) else h)
      in if n = 3 \<or> n = 2 \<or> n = 1
         then let h = h + ucast (data ! 0); h = h * hash_m in h XOR drop_bit 24 h
         else h)"

definition Hash :: "bytes \<Rightarrow> nat \<Rightarrow> u32 \<Rightarrow> u32" where
  "Hash data n seed =
     (let h = ucast (ucast seed XOR (word_of_nat n * ucast hash_m) :: u64);
          (rest, h) = hash_loop (take n data) h
      in hash_tail rest h)"

end
