(* ===== verification/Bloom_Filter.thy ===== *)
theory Bloom_Filter
  imports Complex_Main Hash Storage_Types
begin

text \<open>
  bloom_filter.cpp. The filter is its bit array with the number of bits and of hash functions. The
  constructor sizes it from the expected number of keys and the false positive rate; its double
  arithmetic is modelled on the reals. A filter never denies a key that was added to it, also after
  it went through a file.
\<close>

definition SEED_1 :: u32 where "SEED_1 = 0xbc9f1d34"
definition SEED_2 :: u32 where "SEED_2 = 0x6c8e9cf5"

record BloomFilter =
  bit_count :: nat
  num_hashes :: nat
  bit_array :: bytes

definition bloom_bit_count :: "nat \<Rightarrow> real \<Rightarrow> nat" where
  "bloom_bit_count expected_keys false_positive_rate =
     (let ln2 = ln 2;
          m = - (real expected_keys * ln false_positive_rate) / (ln2 * ln2)
      in ((nat \<lfloor>m\<rfloor> + 7) div 8) * 8)"

definition bloom_num_hashes :: "nat \<Rightarrow> nat \<Rightarrow> nat" where
  "bloom_num_hashes bits expected_keys =
     (let k = nat \<lfloor>(real bits / real expected_keys) * ln 2\<rfloor> in max 1 (min k 30))"

definition BloomFilter_create :: "nat \<Rightarrow> real \<Rightarrow> BloomFilter result" where
  "BloomFilter_create expected_keys false_positive_rate =
     (if \<not> expected_keys > 0 then abort ''assert expected_keys > 0''
      else if \<not> (false_positive_rate > 0 \<and> false_positive_rate < 1)
        then abort ''assert false_positive_rate''
      else let bits = bloom_bit_count expected_keys false_positive_rate
           in ok \<lparr>bit_count = bits, num_hashes = bloom_num_hashes bits expected_keys,
                  bit_array = replicate ((bits + 7) div 8) 0\<rparr>)"

definition BloomFilter_load :: "bytes \<Rightarrow> u8 \<Rightarrow> BloomFilter" where
  "BloomFilter_load bits num_hash_functions =
     \<lparr>bit_count = length bits * 8, num_hashes = unat num_hash_functions, bit_array = bits\<rparr>"

definition bloom_bit_pos :: "BloomFilter \<Rightarrow> u32 \<Rightarrow> u32 \<Rightarrow> nat \<Rightarrow> nat" where
  "bloom_bit_pos f h1 h2 i = ((unat h1 + i * unat (h2 OR 1)) mod 2 ^ 64) mod bit_count f"

definition bloom_set :: "nat \<Rightarrow> BloomFilter \<Rightarrow> BloomFilter" where
  "bloom_set bit_pos f =
     (let byte_idx = bit_pos div 8; bit_offset = bit_pos mod 8
      in f\<lparr>bit_array := (bit_array f)[byte_idx := bit_array f ! byte_idx OR push_bit bit_offset 1]\<rparr>)"

definition bloom_add :: "BloomFilter \<Rightarrow> Key \<Rightarrow> BloomFilter" where
  "bloom_add f key =
     (let h1 = Hash (key_bytes key) (key_size key) SEED_1;
          h2 = Hash (key_bytes key) (key_size key) SEED_2
      in fold (\<lambda>i f. bloom_set (bloom_bit_pos f h1 h2 i) f) [0..<num_hashes f] f)"

definition bloom_test :: "BloomFilter \<Rightarrow> nat \<Rightarrow> bool" where
  "bloom_test f bit_pos =
     (let byte_idx = bit_pos div 8; bit_offset = bit_pos mod 8
      in bit_array f ! byte_idx AND push_bit bit_offset 1 \<noteq> 0)"

definition may_contain :: "BloomFilter \<Rightarrow> Key \<Rightarrow> bool" where
  "may_contain f key =
     (let h1 = Hash (key_bytes key) (key_size key) SEED_1;
          h2 = Hash (key_bytes key) (key_size key) SEED_2
      in list_all (\<lambda>i. bloom_test f (bloom_bit_pos f h1 h2 i)) [0..<num_hashes f])"

definition bloom_from_keys :: "Key list \<Rightarrow> real \<Rightarrow> BloomFilter result" where
  "bloom_from_keys keys false_positive_rate =
     (case BloomFilter_create (length keys) false_positive_rate of
        Inl e \<Rightarrow> Inl e
      | Inr f \<Rightarrow> ok (foldl bloom_add f keys))"

section \<open>The invariant\<close>

definition bloom_wf :: "BloomFilter \<Rightarrow> bool" where
  "bloom_wf f \<longleftrightarrow> 0 < bit_count f \<and> bit_count f = 8 * length (bit_array f)
     \<and> 1 \<le> num_hashes f \<and> num_hashes f \<le> 30"

lemma bloom_bit_pos_less: "bloom_wf f \<Longrightarrow> bloom_bit_pos f h1 h2 i div 8 < length (bit_array f)"
  using mod_less_divisor [of "bit_count f"]
  by (auto simp: bloom_wf_def bloom_bit_pos_def less_mult_imp_div_less mult.commute)

lemma bloom_set_simps [simp]:
  "bit_count (bloom_set p f) = bit_count f" "num_hashes (bloom_set p f) = num_hashes f"
  "length (bit_array (bloom_set p f)) = length (bit_array f)"
  by (simp_all add: bloom_set_def Let_def)

lemma bloom_bit_pos_set [simp]: "bloom_bit_pos (bloom_set p f) = bloom_bit_pos f"
  by (simp add: bloom_bit_pos_def fun_eq_iff)

lemma bloom_wf_set [simp]: "bloom_wf (bloom_set p f) = bloom_wf f"
  by (simp add: bloom_wf_def)

lemma bloom_test_bit:
  "bloom_test f p \<longleftrightarrow> bit (bit_array f ! (p div 8)) (p mod 8)"
  by (simp add: bloom_test_def Let_def push_bit_of_1 and_exp_eq_0_iff_not_bit)

lemma bloom_test_set_same:
  "p div 8 < length (bit_array f) \<Longrightarrow> bloom_test (bloom_set p f) p"
  by (simp add: bloom_test_bit bloom_set_def Let_def bit_or_iff push_bit_of_1 bit_exp_iff)

lemma bloom_test_set_mono: "bloom_test f q \<Longrightarrow> bloom_test (bloom_set p f) q"
  by (cases "p div 8 < length (bit_array f)")
    (auto simp: bloom_test_bit bloom_set_def Let_def bit_or_iff nth_list_update list_update_beyond)

lemma bloom_sets_frame:
  "bit_count (fold bloom_set ps f) = bit_count f" "num_hashes (fold bloom_set ps f) = num_hashes f"
  "length (bit_array (fold bloom_set ps f)) = length (bit_array f)"
  "bloom_wf (fold bloom_set ps f) = bloom_wf f"
  "bloom_test f q \<Longrightarrow> bloom_test (fold bloom_set ps f) q"
  by (induction ps arbitrary: f) (simp_all add: bloom_test_set_mono)

lemma bloom_sets_test:
  "p \<in> set ps \<Longrightarrow> p div 8 < length (bit_array f) \<Longrightarrow> bloom_test (fold bloom_set ps f) p"
  by (induction ps arbitrary: f) (auto simp: bloom_test_set_same bloom_sets_frame)

text \<open>The bit positions a key occupies in a filter: they depend on its size only.\<close>

definition bloom_positions :: "BloomFilter \<Rightarrow> Key \<Rightarrow> nat list" where
  "bloom_positions f key =
     map (bloom_bit_pos f (Hash (key_bytes key) (key_size key) SEED_1)
           (Hash (key_bytes key) (key_size key) SEED_2)) [0..<num_hashes f]"

lemma bloom_add_sets: "bloom_add f key = fold bloom_set (bloom_positions f key) f"
proof -
  have "fold (\<lambda>i g. bloom_set (bloom_bit_pos g h1 h2 i) g) is g
      = fold bloom_set (map (bloom_bit_pos f h1 h2) is) g"
    if "bit_count g = bit_count f" for h1 h2 "is" g
    using that by (induction "is" arbitrary: g) (simp_all add: bloom_bit_pos_def)
  then show ?thesis by (simp add: bloom_add_def bloom_positions_def Let_def)
qed

lemma may_contain_positions:
  "may_contain f key \<longleftrightarrow> list_all (bloom_test f) (bloom_positions f key)"
  by (simp add: may_contain_def bloom_positions_def Let_def list_all_iff)

lemma bloom_add_frame [simp]:
  "bit_count (bloom_add f k) = bit_count f" "num_hashes (bloom_add f k) = num_hashes f"
  "length (bit_array (bloom_add f k)) = length (bit_array f)"
  "bloom_wf (bloom_add f k) = bloom_wf f"
  by (simp_all add: bloom_add_sets bloom_sets_frame)

lemma bloom_positions_add [simp]: "bloom_positions (bloom_add f k) = bloom_positions f"
  by (simp add: bloom_positions_def bloom_bit_pos_def fun_eq_iff)

lemma may_contain_add: "bloom_wf f \<Longrightarrow> may_contain (bloom_add f key) key"
  using bloom_bit_pos_less [of f]
  by (auto simp: may_contain_positions list_all_iff)
    (auto simp: bloom_add_sets bloom_positions_def intro!: bloom_sets_test)

lemma may_contain_mono: "may_contain f key \<Longrightarrow> may_contain (bloom_add f k) key"
  by (auto simp: may_contain_positions list_all_iff)
    (simp add: bloom_add_sets bloom_sets_frame)

lemma bloom_add_all:
  "bloom_wf f \<Longrightarrow> bloom_wf (foldl bloom_add f ks) \<and>
   (\<forall>k \<in> set ks. may_contain (foldl bloom_add f ks) k)"
  by (induction ks rule: rev_induct) (auto simp: may_contain_add intro: may_contain_mono)

section \<open>The constructor\<close>

lemma ln_hundred_ge_4: "ln (1 / 100 :: real) \<le> - 4"
proof -
  have "exp (4::real) = exp 1 ^ 4" by (simp add: exp_of_nat_mult [of 4 1, symmetric])
  also have "\<dots> \<le> 3 ^ 4" by (intro power_mono exp_le) simp
  also have "\<dots> \<le> (100::real)" by simp
  finally have "4 \<le> ln (100::real)" by (simp add: ln_ge_iff)
  then show ?thesis by (simp add: ln_div)
qed

lemma bloom_bit_count_pos:
  assumes "0 < n"
  shows "0 < bloom_bit_count n (1 / 100)"
proof -
  have l: "0 < ln (2::real)" "ln (2::real) < 1" using ln_2_less_1 by auto
  then have "ln 2 * ln (2::real) \<le> 1" by (simp add: mult_le_one)
  moreover have "4 \<le> - (real n * ln (1 / 100))"
    using mult_mono [of 1 "real n" 4 "- ln (1 / 100)"] assms ln_hundred_ge_4 by simp
  ultimately have "1 * (ln 2 * ln 2) \<le> - (real n * ln (1 / 100))" by linarith
  then have "1 \<le> - (real n * ln (1 / 100)) / (ln 2 * ln 2)"
    using l by (subst pos_le_divide_eq) (auto intro: mult_pos_pos)
  then have "1 \<le> nat \<lfloor>- (real n * ln (1 / 100)) / (ln 2 * ln 2)\<rfloor>" by linarith
  then show ?thesis by (simp add: bloom_bit_count_def Let_def)
qed

lemma BloomFilter_create_wf:
  "0 < n \<Longrightarrow> \<exists>f. BloomFilter_create n (1 / 100) = ok f \<and> bloom_wf f"
proof -
  assume n: "0 < n"
  obtain c where c: "bloom_bit_count n (1 / 100) = c * 8" by (simp add: bloom_bit_count_def Let_def)
  with bloom_bit_count_pos [OF n] have "0 < c" by simp
  with n c show ?thesis
    by (auto simp: BloomFilter_create_def bloom_wf_def bloom_num_hashes_def Let_def)
qed

text \<open>About ten bits per key; a rough bound is enough for the format.\<close>

lemma ln_2_ge_half: "1 / 2 \<le> ln (2::real)"
proof -
  have "exp (1 / 2) * exp (1 / 2) = exp (1::real)" by (simp add: mult_exp_exp)
  also have "\<dots> \<le> 3" by (rule exp_le)
  finally have "(exp (1 / 2) :: real)\<^sup>2 \<le> 2\<^sup>2" by (simp add: power2_eq_square)
  then have "exp (1 / 2) \<le> (2::real)" by (rule power2_le_imp_le) simp
  then show ?thesis by (subst ln_ge_iff) simp_all
qed

lemma bloom_bit_count_le: "bloom_bit_count n (1 / 100) \<le> 400 * n + 8"
proof -
  have "ln (100::real) \<le> 99" using ln_le_minus_one [of "100::real"] by simp
  then have l: "- (real n * ln (1 / 100)) \<le> real n * 99"
    by (simp add: ln_div mult_left_mono)
  have "(1 / 2) * (1 / 2) \<le> ln 2 * ln (2::real)"
    using ln_2_ge_half by (intro mult_mono) auto
  then have "- (real n * ln (1 / 100)) / (ln 2 * ln 2) \<le> (real n * 99) / (1 / 4)"
    using l by (intro frac_le) auto
  also have "\<dots> \<le> real (400 * n)" by simp
  finally have "nat \<lfloor>- (real n * ln (1 / 100)) / (ln 2 * ln 2)\<rfloor> \<le> 400 * n" by linarith
  then show ?thesis by (simp add: bloom_bit_count_def Let_def)
qed

lemma BloomFilter_create_size:
  "BloomFilter_create n (1 / 100) = ok f \<Longrightarrow> length (bit_array f) \<le> 50 * n + 1"
  using bloom_bit_count_le [of n] by (auto simp: BloomFilter_create_def Let_def split: if_splits)

lemma bloom_add_all_length [simp]: "length (bit_array (foldl bloom_add f ks)) = length (bit_array f)"
  by (induction ks arbitrary: f) auto

lemma BloomFilter_load_same:
  "bloom_wf f \<Longrightarrow> BloomFilter_load (bit_array f) (word_of_nat (num_hashes f)) = f"
  by (simp add: BloomFilter_load_def bloom_wf_def unat_word_of_nat_eq)

section \<open>Properties\<close>

text \<open>
  C23. A filter built from a non-empty list of keys at a false positive rate of one percent
  answers yes for each of these keys, also after it went through its serialized form.
\<close>

theorem bloom_no_false_negatives:
  assumes "keys \<noteq> []" and "key \<in> set keys"
  shows "\<exists>f. bloom_from_keys keys (1 / 100) = ok f \<and>
     may_contain (BloomFilter_load (bit_array f) (word_of_nat (num_hashes f))) key"
proof -
  from assms(1) obtain f where f: "BloomFilter_create (length keys) (1 / 100) = ok f" "bloom_wf f"
    using BloomFilter_create_wf [of "length keys"] by auto
  with bloom_add_all [of f keys] assms(2) show ?thesis
    by (auto simp: bloom_from_keys_def ok_def BloomFilter_load_same)
qed

theorem bloom_no_false_negatives_witness:
  "\<exists>f. bloom_from_keys [Key [1, 2], Key []] (1 / 100) = ok f \<and>
     may_contain (BloomFilter_load (bit_array f) (word_of_nat (num_hashes f))) (Key [])"
  by (rule bloom_no_false_negatives) simp_all

end
