(* ===== verification/Crc32.thy ===== *)
theory Crc32
  imports Crc32_Table
begin

text \<open>
  crc32.h and crc32.cpp: the table-driven checksum of WAL records and SSTable footers. The loop is
  shown to be bitwise long division by the CRC-32C polynomial, and the checksum to detect every
  corruption confined to four adjacent bytes.
\<close>

definition crc_step :: "u8 \<Rightarrow> u32 \<Rightarrow> u32" where
  "crc_step byte crc = drop_bit 8 crc XOR crc_32_table ! unat ((crc XOR ucast byte) AND 0xFF)"

definition compute_crc_32 :: "bytes \<Rightarrow> u32" where
  "compute_crc_32 data = NOT (fold crc_step data 0xFFFFFFFF)"

section \<open>The bitwise reference\<close>

definition crc_reference :: "bytes \<Rightarrow> u32" where
  "crc_reference data = NOT (fold (\<lambda>b c. crc_byte (c XOR ucast b)) data 0xFFFFFFFF)"

lemma crc_bit_xor: "crc_bit (a XOR b) = crc_bit a XOR crc_bit b"
  by (auto simp: crc_bit_def bit_xor_iff drop_bit_xor xor.assoc xor.commute xor.left_commute)

lemma crc_byte_xor: "crc_byte (a XOR b) = crc_byte a XOR crc_byte b"
  by (simp add: crc_byte_def crc_bit_xor)

lemma crc_bit_even: "\<not> bit c 0 \<Longrightarrow> crc_bit c = drop_bit 1 c"
  by (simp add: crc_bit_def)

lemma crc_byte_high: "take_bit 8 c = 0 \<Longrightarrow> crc_byte c = drop_bit 8 c"
proof -
  assume "take_bit 8 c = 0"
  then have z: "\<not> bit c n" if "n < 8" for n
    using that by (metis bit_take_bit_iff bit_0_eq bot_apply bot_bool_def)
  have "crc_bit (drop_bit n c) = drop_bit (Suc n) c" if "n < 8" for n
    using z [OF that] by (simp add: crc_bit_even bit_drop_bit_eq)
  from this [of 0] this [of 1] this [of 2] this [of 3] this [of 4] this [of 5] this [of 6] this [of 7]
  show ?thesis by (simp add: crc_byte_def numeral_eq_Suc)
qed

lemma crc_byte_push: "(\<And>n. bit c n \<Longrightarrow> n < 24) \<Longrightarrow> crc_byte (push_bit 8 c) = c"
  by (subst crc_byte_high) (fastforce intro!: bit_word_eqI simp: bit_simps dest: bit_wordD)+

lemma crc_byte_table: "crc_byte c = drop_bit 8 c XOR crc_32_table ! unat (c AND 0xFF)"
proof -
  have low: "c AND 0xFF = take_bit 8 c"
    by (simp add: take_bit_eq_mask mask_eq_exp_minus_1)
  have "take_bit 8 c XOR push_bit 8 (drop_bit 8 c) = c"
    by (rule bit_word_eqI) (auto simp: bit_simps)
  then have "crc_byte c = crc_byte (take_bit 8 c) XOR crc_byte (push_bit 8 (drop_bit 8 c))"
    by (metis crc_byte_xor)
  also have "crc_byte (push_bit 8 (drop_bit 8 c)) = drop_bit 8 c"
    by (rule crc_byte_push) (use bit_wordD [of c] in \<open>fastforce simp: bit_drop_bit_eq\<close>)
  also have "crc_byte (take_bit 8 c) = crc_32_table ! unat (take_bit 8 c)"
  proof -
    have "unat (take_bit 8 c) < 256"
      using take_bit_nat_less_exp [of 8 "unat c"] by (simp add: unsigned_take_bit_eq)
    then show ?thesis by (simp add: crc_table_generated)
  qed
  finally show ?thesis by (simp add: low xor.commute)
qed

lemma crc_step_byte: "crc_step b c = crc_byte (c XOR ucast b)"
proof -
  have "drop_bit 8 (c XOR ucast b) = drop_bit 8 c"
    by (rule bit_word_eqI) (auto simp: bit_simps dest: bit_imp_le_length)
  then show ?thesis by (simp add: crc_step_def crc_byte_table)
qed

text \<open>
  C22. The table-driven checksum computes the bitwise division by the reflected CRC-32C
  polynomial.
\<close>

theorem compute_crc_32_reference: "compute_crc_32 data = crc_reference data"
proof -
  have "crc_step = (\<lambda>b c. crc_byte (c XOR ucast b))"
    by (intro ext) (rule crc_step_byte)
  then show ?thesis by (simp add: compute_crc_32_def crc_reference_def)
qed

section \<open>Detection of corrupted bytes\<close>

lemma crc_bit_inj: "crc_bit a = crc_bit b \<Longrightarrow> a = b"
proof -
  assume eq: "crc_bit a = crc_bit b"
  have top: "bit (crc_bit c) 31 = bit c 0" for c
    by (auto simp: crc_bit_def bit_simps dest: bit_wordD)
  from eq have z: "bit a 0 = bit b 0" by (metis top)
  with eq have "drop_bit 1 a = drop_bit 1 b"
    by (auto simp: crc_bit_def split: if_splits)
  then have "bit a (Suc n) = bit b (Suc n)" for n
    by (metis bit_drop_bit_eq comp_def plus_1_eq_Suc)
  with z show ?thesis
    by (intro bit_word_eqI) (metis not0_implies_Suc)
qed

lemma crc_byte_inj: "crc_byte a = crc_byte b \<Longrightarrow> a = b"
  by (auto simp: crc_byte_def dest!: crc_bit_inj)

lemma fold_crc_step_inj: "fold crc_step xs c = fold crc_step xs d \<Longrightarrow> c = d"
  by (induction xs arbitrary: c d) (force simp: crc_step_byte dest: crc_byte_inj)+

text \<open>Up to four bytes, seen as one little-endian word.\<close>

fun pack :: "bytes \<Rightarrow> u32" where
  "pack [] = 0"
| "pack (b # bs) = ucast b XOR push_bit 8 (pack bs)"

lemma bit_pack_Cons:
  "n < 32 \<Longrightarrow> bit (pack (b # bs)) n = (if n < 8 then bit b n else bit (pack bs) (n - 8))"
  by (auto simp: bit_xor_iff bit_push_bit_iff bit_ucast_iff dest: bit_wordD)

lemma bit_packD: "bit (pack bs) n \<Longrightarrow> n < 8 * length bs"
proof (induction bs arbitrary: n)
  case (Cons b bs)
  then have "n < 32" by (auto dest: bit_wordD)
  with Cons.prems have "n < 8 \<or> bit (pack bs) (n - 8)"
    by (auto simp del: pack.simps simp: bit_pack_Cons split: if_splits)
  then show ?case using Cons.IH [of "n - 8"] by auto
qed simp

lemma fold_crc_pack:
  "length xs \<le> 4 \<Longrightarrow> fold crc_step xs c = (crc_byte ^^ length xs) (c XOR pack xs)"
proof (induction xs arbitrary: c)
  case (Cons b bs)
  then have "fold crc_step (b # bs) c
      = (crc_byte ^^ length bs) (crc_byte (c XOR ucast b) XOR pack bs)"
    by (simp add: crc_step_byte [of b])
  also have "pack bs = crc_byte (push_bit 8 (pack bs))"
    using Cons.prems by (subst crc_byte_push) (auto dest!: bit_packD)
  finally show ?case
    by (simp add: crc_byte_xor xor.assoc funpow_swap1)
qed simp

lemma funpow_crc_byte_inj: "(crc_byte ^^ n) a = (crc_byte ^^ n) b \<Longrightarrow> a = b"
  by (induction n) (auto dest: crc_byte_inj)

lemma pack_inj: "length xs = length ys \<Longrightarrow> length xs \<le> 4 \<Longrightarrow> pack xs = pack ys \<Longrightarrow> xs = ys"
proof (induction xs ys rule: list_induct2)
  case (Cons x xs y ys)
  have bits: "bit (pack (x # xs)) n = bit (pack (y # ys)) n" for n
    using Cons.prems by simp
  have "bit x n = bit y n" if "n < 8" for n
    using bits [of n] that by (simp add: bit_pack_Cons del: pack.simps)
  then have "x = y" by (auto intro: bit_word_eqI)
  moreover have "bit (pack xs) n = bit (pack ys) n" for n
  proof (cases "n < 24")
    case True
    then show ?thesis using bits [of "n + 8"] by (simp add: bit_pack_Cons del: pack.simps)
  next
    case False
    then show ?thesis using Cons.hyps Cons.prems by (auto dest!: bit_packD)
  qed
  then have "pack xs = pack ys" by (auto intro: bit_word_eqI)
  ultimately show ?case using Cons by simp
qed simp

lemma crc_burst:
  assumes "length xs = length ys" and "length xs \<le> 4" and "xs \<noteq> ys"
  shows "compute_crc_32 (pre @ xs @ post) \<noteq> compute_crc_32 (pre @ ys @ post)"
proof
  assume "compute_crc_32 (pre @ xs @ post) = compute_crc_32 (pre @ ys @ post)"
  then have "fold crc_step xs (fold crc_step pre 0xFFFFFFFF)
      = fold crc_step ys (fold crc_step pre 0xFFFFFFFF)"
    by (auto simp: compute_crc_32_def dest: fold_crc_step_inj)
  then have "pack xs = pack ys"
    using assms(1,2) by (auto simp: fold_crc_pack dest: funpow_crc_byte_inj)
  with assms show False using pack_inj by blast
qed

text \<open>
  Two byte strings that differ in at most four adjacent bytes have different checksums.
\<close>

theorem compute_crc_32_burst:
  assumes "length xs = length ys" and "length xs \<le> 4" and "xs \<noteq> ys"
  shows "compute_crc_32 (pre @ xs @ post) \<noteq> compute_crc_32 (pre @ ys @ post)"
  using assms by (rule crc_burst)

theorem compute_crc_32_burst_witness:
  "compute_crc_32 ([1] @ [2, 3] @ [4]) \<noteq> compute_crc_32 ([1] @ [3, 3] @ [4])"
  by (rule compute_crc_32_burst) simp_all

end
