(* ===== verification/File_System.thy ===== *)
theory File_System
  imports Errors
begin

text \<open>
  The system calls the POSIX engine makes, on an explicit file system: inodes with their bytes and
  the bytes that are durable, a directory from paths to inodes, and the open file descriptions. A
  schedule of answers decides the calls that do not go as asked for: \<open>Part k\<close> lets a call
  transfer at most \<open>k + 1\<close> bytes, \<open>Fail e\<close> makes it fail with \<open>e\<close>. Each call takes the next
  answer; once the schedule is used up every call goes as asked for.

  The last component is the build: \<open>None\<close> is a release build (\<open>NDEBUG\<close>), which has no assertions
  on the file system; \<open>Some links\<close> is a debug build, where \<open>links F path\<close> are the link targets
  that a scan of \<open>/proc/self/fd\<close> reads when \<open>path\<close> is removed while the descriptor table is \<open>F\<close>
  (which of these descriptors have been closed again is left to \<open>links\<close>).
\<close>

datatype errno = ENOENT | EINTR | EBADF | EIO | EACCES | ENOSPC

fun strerror :: "errno \<Rightarrow> string" where
  "strerror ENOENT = ''No such file or directory''"
| "strerror EINTR = ''Interrupted system call''"
| "strerror EBADF = ''Bad file descriptor''"
| "strerror EIO = ''Input/output error''"
| "strerror EACCES = ''Permission denied''"
| "strerror ENOSPC = ''No space left on device''"

datatype answer = Normal | Part nat | Fail errno

datatype Mode = Read | Write | ReadWrite | Append | Overwrite

record inode =
  contents :: bytes
  durable :: bytes

record open_file =
  of_ino :: nat
  of_pos :: nat
  of_append :: bool
  of_readable :: bool
  of_writable :: bool

record fs =
  inodes :: "nat \<rightharpoonup> inode"
  next_ino :: nat
  dir :: "(string \<times> nat) list"
  subdirs :: "string list"
  fds :: "int \<rightharpoonup> open_file"
  next_fd :: int
  answers :: "answer list"
  assertions :: "((int \<rightharpoonup> open_file) \<Rightarrow> string \<Rightarrow> string list) option"

definition pop_answer :: "fs \<Rightarrow> answer \<times> fs" where
  "pop_answer s = (case answers s of [] \<Rightarrow> (Normal, s) | a # as \<Rightarrow> (a, s\<lparr>answers := as\<rparr>))"

definition parent_of :: "string \<Rightarrow> string" where
  "parent_of p =
     (if CHR ''/'' \<in> set p then rev (tl (dropWhile (\<lambda>c. c \<noteq> CHR ''/'') (rev p))) else ''.'')"

definition is_directory :: "fs \<Rightarrow> string \<Rightarrow> bool" where
  "is_directory s d \<longleftrightarrow> d = ''.'' \<or> d \<in> set (subdirs s)"

section \<open>System calls\<close>

definition mode_file :: "nat \<Rightarrow> Mode \<Rightarrow> open_file" where
  "mode_file ino mode =
     \<lparr>of_ino = ino, of_pos = 0, of_append = (mode = Append),
      of_readable = (mode = Read \<or> mode = ReadWrite), of_writable = (mode \<noteq> Read)\<rparr>"

definition add_fd :: "fs \<Rightarrow> nat \<Rightarrow> Mode \<Rightarrow> int \<times> fs" where
  "add_fd s ino mode =
     (next_fd s, s\<lparr>fds := (fds s)(next_fd s \<mapsto> mode_file ino mode), next_fd := next_fd s + 1\<rparr>)"

definition create_file :: "fs \<Rightarrow> string \<Rightarrow> fs" where
  "create_file s path =
     s\<lparr>inodes := (inodes s)(next_ino s \<mapsto> \<lparr>contents = [], durable = []\<rparr>),
       next_ino := next_ino s + 1, dir := dir s @ [(path, next_ino s)]\<rparr>"

definition truncate_file :: "fs \<Rightarrow> nat \<Rightarrow> fs" where
  "truncate_file s ino =
     s\<lparr>inodes := (inodes s)(ino := map_option (\<lambda>n. n\<lparr>contents := []\<rparr>) (inodes s ino))\<rparr>"

definition sys_open :: "fs \<Rightarrow> string \<Rightarrow> Mode \<Rightarrow> (errno + int) \<times> fs" where
  "sys_open s path mode =
     (let (a, s) = pop_answer s in
      case a of
        Fail e \<Rightarrow> (Inl e, s)
      | _ \<Rightarrow>
          (case map_of (dir s) path of
             Some ino \<Rightarrow>
               (let s = (if mode = Overwrite then truncate_file s ino else s); (fd, s) = add_fd s ino mode
                in (Inr fd, s))
           | None \<Rightarrow>
               if mode = Read \<or> \<not> is_directory s (parent_of path) then (Inl ENOENT, s)
               else let ino = next_ino s; (fd, s) = add_fd (create_file s path) ino mode
                    in (Inr fd, s)))"

definition write_at :: "bytes \<Rightarrow> nat \<Rightarrow> bytes \<Rightarrow> bytes" where
  "write_at c pos bs = take pos c @ replicate (pos - length c) 0 @ bs @ drop (pos + length bs) c"

definition write_file :: "fs \<Rightarrow> int \<Rightarrow> open_file \<Rightarrow> inode \<Rightarrow> bytes \<Rightarrow> fs" where
  "write_file s fd f n bs =
     (let pos = (if of_append f then length (contents n) else of_pos f)
      in s\<lparr>inodes := (inodes s)(of_ino f \<mapsto> n\<lparr>contents := write_at (contents n) pos bs\<rparr>),
           fds := (fds s)(fd \<mapsto> f\<lparr>of_pos := pos + length bs\<rparr>)\<rparr>)"

definition fd_file :: "fs \<Rightarrow> int \<Rightarrow> (open_file \<times> inode) option" where
  "fd_file s fd =
     (case fds s fd of
        None \<Rightarrow> None
      | Some f \<Rightarrow> (case inodes s (of_ino f) of None \<Rightarrow> None | Some n \<Rightarrow> Some (f, n)))"

definition sys_write :: "fs \<Rightarrow> int \<Rightarrow> bytes \<Rightarrow> (errno + nat) \<times> fs" where
  "sys_write s fd bs =
     (let (a, s) = pop_answer s in
      case fd_file s fd of
        None \<Rightarrow> (Inl EBADF, s)
      | Some (f, n) \<Rightarrow>
          if \<not> of_writable f then (Inl EBADF, s)
          else (case a of
                  Fail e \<Rightarrow> (Inl e, s)
                | Part k \<Rightarrow> (Inr (min (Suc k) (length bs)), write_file s fd f n (take (Suc k) bs))
                | Normal \<Rightarrow> (Inr (length bs), write_file s fd f n bs)))"

definition sys_pread :: "fs \<Rightarrow> int \<Rightarrow> nat \<Rightarrow> nat \<Rightarrow> (errno + bytes) \<times> fs" where
  "sys_pread s fd cnt offset =
     (let (a, s) = pop_answer s in
      case fd_file s fd of
        None \<Rightarrow> (Inl EBADF, s)
      | Some (f, n) \<Rightarrow>
          if \<not> of_readable f then (Inl EBADF, s)
          else (case a of
                  Fail e \<Rightarrow> (Inl e, s)
                | Part k \<Rightarrow> (Inr (take (Suc k) (take cnt (drop offset (contents n)))), s)
                | Normal \<Rightarrow> (Inr (take cnt (drop offset (contents n))), s)))"

definition sys_fsync :: "fs \<Rightarrow> int \<Rightarrow> (errno + unit) \<times> fs" where
  "sys_fsync s fd =
     (let (a, s) = pop_answer s in
      case fd_file s fd of
        None \<Rightarrow> (Inl EBADF, s)
      | Some (f, n) \<Rightarrow>
          (case a of
             Fail e \<Rightarrow> (Inl e, s)
           | _ \<Rightarrow> (Inr (), s\<lparr>inodes := (inodes s)(of_ino f \<mapsto> n\<lparr>durable := contents n\<rparr>)\<rparr>)))"

definition sys_fstat :: "fs \<Rightarrow> int \<Rightarrow> (errno + nat) \<times> fs" where
  "sys_fstat s fd =
     (let (a, s) = pop_answer s in
      case fd_file s fd of
        None \<Rightarrow> (Inl EBADF, s)
      | Some (f, n) \<Rightarrow>
          (case a of Fail e \<Rightarrow> (Inl e, s) | _ \<Rightarrow> (Inr (length (contents n)), s)))"

definition sys_unlink :: "fs \<Rightarrow> string \<Rightarrow> (errno + unit) \<times> fs" where
  "sys_unlink s path =
     (let (a, s) = pop_answer s in
      case a of
        Fail e \<Rightarrow> (Inl e, s)
      | _ \<Rightarrow>
          if map_of (dir s) path = None then (Inl ENOENT, s)
          else (Inr (), s\<lparr>dir := filter (\<lambda>(p, _). p \<noteq> path) (dir s)\<rparr>))"

definition sys_sync_dir :: "fs \<Rightarrow> string \<Rightarrow> (errno + unit) \<times> fs" where
  "sys_sync_dir s path =
     (let (a, s) = pop_answer s in
      case a of
        Fail e \<Rightarrow> (Inl e, s)
      | _ \<Rightarrow> (Inr (), s))"

section \<open>The invariant and the view by path\<close>

definition fs_wf :: "fs \<Rightarrow> bool" where
  "fs_wf s \<longleftrightarrow> distinct (map fst (dir s)) \<and> distinct (map snd (dir s))
     \<and> (\<forall>(p, i) \<in> set (dir s). i < next_ino s \<and> inodes s i \<noteq> None)
     \<and> (\<forall>fd f. fds s fd = Some f \<longrightarrow> fd < next_fd s \<and> of_ino f < next_ino s \<and> inodes s (of_ino f) \<noteq> None)
     \<and> 0 \<le> next_fd s"

definition file_at :: "fs \<Rightarrow> string \<Rightarrow> bytes option" where
  "file_at s path =
     (case map_of (dir s) path of None \<Rightarrow> None | Some i \<Rightarrow> map_option contents (inodes s i))"

lemma answers_pop [simp]: "answers (snd (pop_answer s)) = tl (answers s)"
  by (auto simp: pop_answer_def split: list.splits)

lemma pop_answer_frame [simp]:
  "inodes (snd (pop_answer s)) = inodes s" "dir (snd (pop_answer s)) = dir s"
  "fds (snd (pop_answer s)) = fds s" "subdirs (snd (pop_answer s)) = subdirs s"
  "next_ino (snd (pop_answer s)) = next_ino s" "next_fd (snd (pop_answer s)) = next_fd s"
  "assertions (snd (pop_answer s)) = assertions s"
  by (auto simp: pop_answer_def split: list.splits)

lemma pop_answerD: "pop_answer s = (a, t) \<Longrightarrow> t = s\<lparr>answers := tl (answers s)\<rparr>"
  by (auto simp: pop_answer_def split: list.splits)

lemma pop_no_answer [io_simps]: "answers s = [] \<Longrightarrow> pop_answer s = (Normal, s)"
  by (simp add: pop_answer_def)

lemma parent_of_append:
  "CHR ''/'' \<notin> set f \<Longrightarrow> parent_of (d @ CHR ''/'' # f) = d"
proof -
  assume "CHR ''/'' \<notin> set f"
  then have "dropWhile (\<lambda>c. c \<noteq> CHR ''/'') (rev f @ CHR ''/'' # rev d) = CHR ''/'' # rev d"
    by (subst dropWhile_append2) auto
  then show ?thesis by (simp add: parent_of_def)
qed

text \<open>A file system with the given directories and no file.\<close>

definition fs_empty :: "string list \<Rightarrow> fs" where
  "fs_empty dirs = \<lparr>inodes = Map.empty, next_ino = 0, dir = [], subdirs = dirs, fds = Map.empty, next_fd = 0, answers = [],
     assertions = None\<rparr>"

lemma fs_wf_empty [simp]: "fs_wf (fs_empty dirs)"
  by (simp add: fs_wf_def fs_empty_def)

end
