(* ===== verification/Io_Engine.thy ===== *)
theory Io_Engine
  imports File_System
begin

text \<open>
  io_engine.h and posix_io_engine.cpp: the I/O interface the storage layer calls and its POSIX
  implementation, with the loops that resume short and interrupted transfers. A file handle is its
  descriptor, -1 once moved from.
\<close>

datatype FileHandle = FileHandle (fd: int)

definition posix_open :: "fs \<Rightarrow> string \<Rightarrow> Mode \<Rightarrow> FileHandle result \<times> fs" where
  "posix_open s path mode =
     (case sys_open s path mode of
        (Inl e, s) \<Rightarrow> (err FILE_DESCRIPTOR_ERR (strerror e), s)
      | (Inr d, s) \<Rightarrow> (ok (FileHandle d), s))"

definition posix_sync_data :: "fs \<Rightarrow> FileHandle \<Rightarrow> unit result \<times> fs" where
  "posix_sync_data s fh =
     (if fd fh = -1 then (err FILE_DESCRIPTOR_ERR ''invalid file descriptor'', s)
      else (case sys_fsync s (fd fh) of
              (Inl e, s) \<Rightarrow> (err FSYNC_ERR (strerror e), s)
            | (Inr _, s) \<Rightarrow> (ok (), s)))"

definition posix_sync_all :: "fs \<Rightarrow> FileHandle \<Rightarrow> unit result \<times> fs" where
  "posix_sync_all s fh =
     (if fd fh = -1 then (err FILE_DESCRIPTOR_ERR ''invalid file descriptor'', s)
      else (case sys_fsync s (fd fh) of
              (Inl e, s) \<Rightarrow> (err FSYNC_ERR (strerror e), s)
            | (Inr _, s) \<Rightarrow> (ok (), s)))"

definition posix_sync_directory :: "fs \<Rightarrow> string \<Rightarrow> unit result \<times> fs" where
  "posix_sync_directory s path =
     (let (a, s) = pop_answer s in
      case (case a of Fail e \<Rightarrow> Inl e | _ \<Rightarrow> 
              if is_directory s path \<or> map_of (dir s) path \<noteq> None then Inr () else Inl ENOENT) of
        Inl e \<Rightarrow> (err FILE_DESCRIPTOR_ERR (strerror e), s)
      | Inr _ \<Rightarrow>
          (case sys_sync_dir s path of
             (Inl e, s) \<Rightarrow> (err FSYNC_ERR (strerror e), s)
           | (Inr _, s) \<Rightarrow> (ok (), s)))"

text \<open>
  The write loop ends because every turn takes an answer from the schedule or, once there is none,
  writes all that remains.
\<close>

lemma sys_write_answers [simp]: "answers (snd (sys_write s d bs)) = tl (answers s)"
proof -
  obtain a t where p: "pop_answer s = (a, t)" by (cases "pop_answer s")
  then have "answers t = tl (answers s)" using answers_pop [of s] by simp
  then show ?thesis
    by (auto simp: sys_write_def p write_file_def Let_def split: option.splits answer.splits)
qed

lemma sys_write_no_answer:
  "answers s = [] \<Longrightarrow> fst (sys_write s d bs) = Inl EBADF \<or> fst (sys_write s d bs) = Inr (length bs)"
  by (auto simp: sys_write_def io_simps split: option.splits answer.splits)

lemma sys_write_le: "fst (sys_write s d bs) = Inr n \<Longrightarrow> n \<le> length bs"
  by (auto simp: sys_write_def Let_def split: option.splits answer.splits prod.splits if_splits)

function posix_write_loop :: "fs \<Rightarrow> int \<Rightarrow> bytes \<Rightarrow> nat \<Rightarrow> nat result \<times> fs" where
  "posix_write_loop s d buffer bytes_written =
     (if bytes_written < length buffer then
        case sys_write s d (drop bytes_written buffer) of
          (Inl e, s) \<Rightarrow>
            if e = EINTR then posix_write_loop s d buffer bytes_written
            else (err WRITE_ERR (strerror e), s)
        | (Inr bytes, s) \<Rightarrow> posix_write_loop s d buffer (bytes_written + bytes)
      else (ok bytes_written, s))"
  by pat_completeness auto
termination
proof (relation "measures [\<lambda>(s, d, b, w). length (answers s), \<lambda>(s, d, b, w). length b - w]", goal_cases)
  case 1
  show ?case by simp
next
  case (2 s d buffer w r s' e)
  then have w: "sys_write s d (drop w buffer) = (Inl e, s')" by simp
  with 2 sys_write_no_answer [of s d "drop w buffer"] have "answers s \<noteq> []" by auto
  moreover from w have "answers s' = tl (answers s)" using sys_write_answers [of s d "drop w buffer"] by simp
  ultimately show ?case by simp
next
  case (3 s d buffer w r s' n)
  then have w: "sys_write s d (drop w buffer) = (Inr n, s')" by simp
  then have a: "answers s' = tl (answers s)" using sys_write_answers [of s d "drop w buffer"] by simp
  show ?case
  proof (cases "answers s = []")
    case True
    with w sys_write_no_answer [of s d "drop w buffer"] have "n = length buffer - w" by simp
    with 3 True a show ?thesis by simp
  next
    case False
    with a show ?thesis by simp
  qed
qed

declare posix_write_loop.simps [simp del]

definition posix_append :: "fs \<Rightarrow> FileHandle \<Rightarrow> bytes \<Rightarrow> nat result \<times> fs" where
  "posix_append s fh buffer =
     (if fd fh = -1 then (err FILE_DESCRIPTOR_ERR ''invalid file descriptor'', s)
      else posix_write_loop s (fd fh) buffer 0)"

lemma sys_pread_answers [simp]: "answers (snd (sys_pread s d n off)) = tl (answers s)"
  by (auto simp: sys_pread_def Let_def dest!: pop_answerD split: prod.splits option.splits answer.splits)

lemma sys_pread_le: "fst (sys_pread s d n off) = Inr bs \<Longrightarrow> length bs \<le> n"
  by (auto simp: sys_pread_def Let_def split: option.splits answer.splits prod.splits if_splits)

function posix_read_loop :: "fs \<Rightarrow> int \<Rightarrow> nat \<Rightarrow> bytes \<Rightarrow> nat \<Rightarrow> nat \<Rightarrow> (nat \<times> bytes) result \<times> fs" where
  "posix_read_loop s d cnt buffer offset bytes_read =
     (if bytes_read < cnt then
        case sys_pread s d (cnt - bytes_read) (offset + bytes_read) of
          (Inl e, s) \<Rightarrow>
            if e = EINTR then posix_read_loop s d cnt buffer offset bytes_read
            else (err READ_ERR (strerror e), s)
        | (Inr bs, s) \<Rightarrow>
            if length bs = 0 then (ok (bytes_read, buffer), s)
            else posix_read_loop s d cnt (overwrite buffer bytes_read bs) offset (bytes_read + length bs)
      else (ok (bytes_read, buffer), s))"
  by pat_completeness auto
termination
proof (relation "measures [\<lambda>(s, d, n, b, off, r). n - r, \<lambda>(s, d, n, b, off, r). length (answers s)]",
    goal_cases)
  case (2 s d n b off r p s' e)
  then have w: "sys_pread s d (n - r) (off + r) = (Inl EINTR, s')" by simp
  then have "answers s \<noteq> []"
    by (auto simp: sys_pread_def io_simps split: option.splits answer.splits if_splits)
  moreover from w have "answers s' = tl (answers s)" using sys_pread_answers [of s d "n - r" "off + r"] by simp
  ultimately show ?case by simp
next
  case (3 s d n b off r p s' bs)
  then show ?case by (cases bs) auto
qed simp

declare posix_read_loop.simps [simp del]

definition posix_read :: "fs \<Rightarrow> FileHandle \<Rightarrow> nat \<Rightarrow> bytes \<Rightarrow> nat \<Rightarrow> (nat \<times> bytes) result \<times> fs" where
  "posix_read s fh cnt buffer offset =
     (if fd fh = -1 then (err FILE_DESCRIPTOR_ERR ''invalid file descriptor'', s)
      else posix_read_loop s (fd fh) cnt buffer offset 0)"

definition posix_file_size :: "fs \<Rightarrow> FileHandle \<Rightarrow> nat result \<times> fs" where
  "posix_file_size s fh =
     (case sys_fstat s (fd fh) of
        (Inl e, s) \<Rightarrow> (err FSTAT_ERR (strerror e), s)
      | (Inr n, s) \<Rightarrow> (ok n, s))"

text \<open>
  The check of debug builds on Linux: does a link of \<open>/proc/self/fd\<close> name the path. The links are
  an argument; a link that cannot be read is not among them, and there is none when the directory
  cannot be opened.
\<close>

definition debug_has_open_fd_for_path :: "string list \<Rightarrow> string \<Rightarrow> bool" where
  "debug_has_open_fd_for_path links target_path =
     list_ex (\<lambda>resolved. resolved = target_path \<or> resolved = target_path @ '' (deleted)'') links"

definition posix_remove :: "fs \<Rightarrow> string \<Rightarrow> unit result \<times> fs" where
  "posix_remove s path =
     (case sys_unlink s path of
        (Inl ENOENT, s) \<Rightarrow> (err FILE_DESCRIPTOR_ERR (strerror ENOENT), s)
      | (_, s) \<Rightarrow>
          (let s = (if CHR ''/'' \<in> set path then snd (posix_sync_directory s (parent_of path)) else s)
           in case assertions s of
                None \<Rightarrow> (ok (), s)
              | Some links \<Rightarrow>
                  if map_of (dir s) path \<noteq> None then (abort ''File path still exists after unlink!'', s)
                  else if debug_has_open_fd_for_path (links (fds s) path) path
                  then (abort ''FS LEAK: Attempted to remove file while process still holds an open FileHandle/FD!'', s)
                  else (ok (), s)))"

section \<open>Files seen through handles\<close>

text \<open>
  A handle is appendable when its next write goes to the end of the file: always with
  \<open>O_APPEND\<close>, otherwise as long as its position is the end. \<open>fs_append\<close> is the append that
  happens at once and in full.
\<close>

definition view :: "fs \<Rightarrow> FileHandle \<Rightarrow> bytes option" where
  "view s fh = (if fd fh = -1 then None else map_option (\<lambda>(f, n). contents n) (fd_file s (fd fh)))"

definition appendable :: "fs \<Rightarrow> FileHandle \<Rightarrow> bool" where
  "appendable s fh \<longleftrightarrow> fd fh \<noteq> -1 \<and>
     (case fd_file s (fd fh) of
        None \<Rightarrow> False
      | Some (f, n) \<Rightarrow> of_writable f \<and> (of_append f \<or> of_pos f = length (contents n)))"

definition readable :: "fs \<Rightarrow> FileHandle \<Rightarrow> bool" where
  "readable s fh \<longleftrightarrow> fd fh \<noteq> -1 \<and>
     (case fd_file s (fd fh) of None \<Rightarrow> False | Some (f, n) \<Rightarrow> of_readable f)"

definition fs_append :: "fs \<Rightarrow> FileHandle \<Rightarrow> bytes \<Rightarrow> fs" where
  "fs_append s fh bs =
     (case fd_file s (fd fh) of
        None \<Rightarrow> s
      | Some (f, n) \<Rightarrow>
          s\<lparr>inodes := (inodes s)(of_ino f \<mapsto> n\<lparr>contents := contents n @ bs\<rparr>),
            fds := (fds s)(fd fh \<mapsto> f\<lparr>of_pos := if bs = [] then of_pos f else length (contents n) + length bs\<rparr>)\<rparr>)"

lemma fd_file_answers [simp]: "fd_file (s\<lparr>answers := a\<rparr>) d = fd_file s d"
  by (simp add: fd_file_def split: option.splits)

lemma fd_file_SomeD: "fd_file s d = Some (f, n) \<Longrightarrow> fds s d = Some f \<and> inodes s (of_ino f) = Some n"
  by (auto simp: fd_file_def split: option.splits)

lemma fs_append_Nil [simp]: "fs_append s fh [] = s"
  by (auto simp: fs_append_def dest!: fd_file_SomeD split: option.splits intro!: fs.equality)

lemma fd_file_fs_append:
  "fd_file s (fd fh) = Some (f, n) \<Longrightarrow> fd_file (fs_append s fh bs) (fd fh)
   = Some (f\<lparr>of_pos := if bs = [] then of_pos f else length (contents n) + length bs\<rparr>,
           n\<lparr>contents := contents n @ bs\<rparr>)"
  by (simp add: fs_append_def) (simp add: fd_file_def)

lemma fs_append_append [simp]: "fs_append (fs_append s fh a) fh b = fs_append s fh (a @ b)"
proof (cases "fd_file s (fd fh)")
  case None
  then show ?thesis by (simp add: fs_append_def)
next
  case (Some fn)
  obtain f n where "fn = (f, n)" by (cases fn)
  with Some have s: "fd_file s (fd fh) = Some (f, n)" by simp
  show ?thesis
    by (subst (1) fs_append_def, simp only: fd_file_fs_append [OF s])
      (auto simp: fs_append_def s intro!: fs.equality open_file.equality)
qed

lemma appendable_fs_append [simp]: "appendable s fh \<Longrightarrow> appendable (fs_append s fh bs) fh"
  by (auto simp: appendable_def fd_file_fs_append split: option.splits if_splits)

lemma view_fs_append [simp]: "appendable s fh \<Longrightarrow> view (fs_append s fh bs) fh = map_option (\<lambda>c. c @ bs) (view s fh)"
  by (auto simp: appendable_def view_def fd_file_fs_append split: option.splits)

lemma answers_fs_append [simp]: "answers (fs_append s fh bs) = answers s" "assertions (fs_append s fh bs) = assertions s"
  by (auto simp: fs_append_def split: option.splits)

lemma fs_append_answers: "fs_append (s\<lparr>answers := a\<rparr>) fh bs = (fs_append s fh bs)\<lparr>answers := a\<rparr>"
  by (auto simp: fs_append_def split: option.splits)

lemma write_file_append:
  assumes "appendable s fh" and "fd_file s (fd fh) = Some (f, n)" and "bs \<noteq> []"
  shows "write_file s (fd fh) f n bs = fs_append s fh bs"
  using assms by (auto simp: appendable_def fs_append_def write_file_def write_at_def Let_def)

lemma appendable_answers [simp]: "appendable (s\<lparr>answers := a\<rparr>) fh = appendable s fh"
  by (simp add: appendable_def)

lemma sys_write_cases:
  assumes "appendable s fh" and "bs \<noteq> []"
  obtains e where "sys_write s (fd fh) bs = (Inl e, s\<lparr>answers := tl (answers s)\<rparr>)"
      and "answers s \<noteq> []" and "hd (answers s) = Fail e"
  | k where "0 < k" and "k \<le> length bs"
      and "sys_write s (fd fh) bs = (Inr k, (fs_append s fh (take k bs))\<lparr>answers := tl (answers s)\<rparr>)"
      and "answers s = [] \<Longrightarrow> k = length bs"
proof -
  from assms(1) obtain f n where f: "fd_file s (fd fh) = Some (f, n)" "of_writable f"
    by (auto simp: appendable_def split: option.splits)
  obtain a t where p: "pop_answer s = (a, t)" by (cases "pop_answer s")
  then have t: "t = s\<lparr>answers := tl (answers s)\<rparr>" by (rule pop_answerD)
  with f have ft: "fd_file t (fd fh) = Some (f, n)" by simp
  have w: "write_file t (fd fh) f n xs = (fs_append s fh xs)\<lparr>answers := tl (answers s)\<rparr>"
    if "xs \<noteq> []" for xs
    using write_file_append [of t fh f n xs] that assms(1) ft
    by (simp add: t fs_append_answers del: fd_file_answers)
  show thesis
  proof (cases a)
    case (Fail e)
    with p have "answers s \<noteq> []" "hd (answers s) = Fail e" by (auto simp: pop_answer_def split: list.splits)
    moreover have "sys_write s (fd fh) bs = (Inl e, s\<lparr>answers := tl (answers s)\<rparr>)"
      using Fail f ft by (simp add: sys_write_def p t)
    ultimately show thesis by (intro that(1))
  next
    case Normal
    then show thesis
      using w [of bs] assms(2) f ft by (intro that(2) [of "length bs"]) (simp_all add: sys_write_def p)
  next
    case (Part k)
    with p have "answers s \<noteq> []" by (auto simp: pop_answer_def split: list.splits)
    then show thesis
      using Part w [of "take (Suc k) bs"] assms(2) f ft
      by (intro that(2) [of "min (Suc k) (length bs)"]) (auto simp: sys_write_def p min_def)
  qed
qed

text \<open>
  A failed write stops at a call that failed for good: with an error other than an interrupt, taken
  from the schedule, and with bytes still to write.
\<close>

definition failed_write :: "answer list \<Rightarrow> 'a result \<Rightarrow> bool" where
  "failed_write as r \<longleftrightarrow> (\<exists>e. e \<noteq> EINTR \<and> Fail e \<in> set as \<and> r = err WRITE_ERR (strerror e))"

lemma failed_writeI: "hd as = Fail e \<Longrightarrow> as \<noteq> [] \<Longrightarrow> e \<noteq> EINTR \<Longrightarrow> failed_write as (err WRITE_ERR (strerror e))"
  unfolding failed_write_def by (metis hd_in_set)

lemma failed_write_tl: "failed_write (tl as) r \<Longrightarrow> failed_write as r"
  by (cases as) (auto simp: failed_write_def)

lemma failed_writeD: "failed_write as r \<Longrightarrow> (\<exists>e. r = err WRITE_ERR (strerror e)) \<and> as \<noteq> []"
  by (auto simp: failed_write_def)

lemma posix_write_loop_spec:
  assumes "appendable s fh" and "w \<le> length buffer"
  shows "\<exists>k a r. posix_write_loop s (fd fh) buffer w
       = (r, (fs_append s fh (take k (drop w buffer)))\<lparr>answers := a\<rparr>)
     \<and> (r = ok (length buffer) \<and> w + k = length buffer \<or> failed_write (answers s) r \<and> w + k < length buffer)
     \<and> (answers s = [] \<longrightarrow> a = [])"
  using assms
proof (induction s "fd fh" buffer w rule: posix_write_loop.induct)
  case (1 s buffer w)
  show ?case
  proof (cases "w < length buffer")
    case False
    with "1.prems" have "w = length buffer" by simp
    then show ?thesis
      by (subst posix_write_loop.simps) (auto intro!: exI [of _ 0] exI [of _ "answers s"])
  next
    case True
    then have ne: "drop w buffer \<noteq> []" by simp
    let ?as = "tl (answers s)"
    show ?thesis
    proof (cases rule: sys_write_cases [OF "1.prems"(1) ne, consumes 0, case_names fail part])
      case (fail e)
      show ?thesis
      proof (cases "e = EINTR")
        case True
        from "1.hyps"(1) [OF \<open>w < length buffer\<close> fail(1) [symmetric] refl True] "1.prems"
        show ?thesis
          using fail True \<open>w < length buffer\<close> failed_write_tl [of "answers s"]
          by (subst posix_write_loop.simps) (simp add: fs_append_answers, blast)
      next
        case False
        then show ?thesis
          using fail True failed_writeI [OF fail(3,2) False]
          by (subst posix_write_loop.simps) (auto intro!: exI [of _ 0] exI [of _ ?as])
      qed
    next
      case (part k)
      let ?s = "(fs_append s fh (take k (drop w buffer)))\<lparr>answers := ?as\<rparr>"
      from part(2) True have le: "w + k \<le> length buffer" by simp
      from "1.hyps"(2) [OF True part(3) [symmetric] refl] "1.prems" le
      obtain j a r where j: "posix_write_loop ?s (fd fh) buffer (w + k)
            = (r, (fs_append ?s fh (take j (drop (w + k) buffer)))\<lparr>answers := a\<rparr>)"
          "r = ok (length buffer) \<and> w + k + j = length buffer \<or> failed_write ?as r \<and> w + k + j < length buffer"
          "?as = [] \<longrightarrow> a = []"
        by auto
      have "take k (drop w buffer) @ take j (drop (w + k) buffer) = take (k + j) (drop w buffer)"
        by (simp add: take_add add.commute [of w k])
      with j show ?thesis
        using part(3) True
        by (subst posix_write_loop.simps)
          (auto simp: fs_append_answers add.assoc intro!: exI [of _ "k + j"] intro: failed_write_tl)
    qed
  qed
qed

lemma posix_append_exact:
  assumes "appendable s fh"
  shows "\<exists>k a r. posix_append s fh bs = (r, (fs_append s fh (take k bs))\<lparr>answers := a\<rparr>)
     \<and> (r = ok (length bs) \<and> k = length bs \<or> failed_write (answers s) r \<and> k < length bs)
     \<and> (answers s = [] \<longrightarrow> a = [])"
  using posix_write_loop_spec [OF assms, of 0 bs] assms
  by (simp add: posix_append_def appendable_def)

lemma posix_append_spec:
  assumes "appendable s fh"
  shows "\<exists>k a r. posix_append s fh bs = (r, (fs_append s fh (take k bs))\<lparr>answers := a\<rparr>)
     \<and> (r = ok (length bs) \<and> k = length bs \<or> (\<exists>e. r = err WRITE_ERR (strerror e)) \<and> answers s \<noteq> [])
     \<and> (answers s = [] \<longrightarrow> a = [])"
  using posix_append_exact [OF assms, of bs] failed_writeD by blast

lemma posix_append_ok [io_simps]:
  assumes "answers s = []" and "appendable s fh"
  shows "posix_append s fh bs = (ok (length bs), fs_append s fh bs)"
proof -
  from posix_append_spec [OF assms(2), of bs] assms(1)
  have "posix_append s fh bs = (ok (length bs), (fs_append s fh bs)\<lparr>answers := []\<rparr>)" by auto
  moreover have "(fs_append s fh bs)\<lparr>answers := []\<rparr> = fs_append s fh bs"
    using assms(1) answers_fs_append [of s fh bs] by (metis fs.surjective fs.update_convs(7) fs.select_convs(7))
  ultimately show ?thesis by simp
qed

lemma sys_pread_cases:
  assumes "readable s fh" and "view s fh = Some c"
  obtains e where "sys_pread s (fd fh) cnt off = (Inl e, s\<lparr>answers := tl (answers s)\<rparr>)"
      and "answers s \<noteq> []"
  | k where "sys_pread s (fd fh) cnt off = (Inr (take (Suc k) (take cnt (drop off c))), s\<lparr>answers := tl (answers s)\<rparr>)"
proof -
  from assms obtain f n where f: "fd_file s (fd fh) = Some (f, n)" "of_readable f" "contents n = c"
    by (auto simp: readable_def view_def split: option.splits if_splits)
  obtain a t where p: "pop_answer s = (a, t)" by (cases "pop_answer s")
  then have t: "t = s\<lparr>answers := tl (answers s)\<rparr>" by (rule pop_answerD)
  with f have ft: "fd_file t (fd fh) = Some (f, n)" by simp
  show thesis
  proof (cases a)
    case (Fail e)
    with p have "answers s \<noteq> []" by (auto simp: pop_answer_def split: list.splits)
    moreover have "sys_pread s (fd fh) cnt off = (Inl e, s\<lparr>answers := tl (answers s)\<rparr>)"
      using Fail f ft by (simp add: sys_pread_def p t)
    ultimately show thesis by (rule that(1) [rotated])
  next
    case Normal
    then show thesis
      using f ft by (intro that(2) [of cnt]) (simp add: sys_pread_def p t)
  next
    case (Part k)
    then show thesis
      using f ft by (intro that(2) [of k]) (simp add: sys_pread_def p t)
  qed
qed

lemma readable_answers [simp]: "readable (s\<lparr>answers := a\<rparr>) fh = readable s fh"
  and view_answers [simp]: "view (s\<lparr>answers := a\<rparr>) fh = view s fh"
  by (simp_all add: readable_def view_def)

text \<open>
  The read loop ends at the end of the file or at the wanted count, so a read that returns has read
  the whole slice, however the transfers were cut.
\<close>

lemma drop_length_take: "drop (length (take n xs)) xs = drop n xs"
  by (cases "n \<le> length xs") simp_all

lemma slice_rest:
  assumes "sl = take (cnt - r) (drop (off + r) c)"
  shows "take (cnt - (r + length (take n sl))) (drop (off + (r + length (take n sl))) c) = drop n sl"
proof -
  let ?l = "length (take n sl)"
  have "take (cnt - (r + ?l)) (drop (off + (r + ?l)) c) = drop ?l (take (cnt - r) (drop (off + r) c))"
    by (simp only: drop_take drop_drop diff_diff_left add.commute [of ?l] add.assoc)
  then show ?thesis by (simp only: assms [symmetric] drop_length_take)
qed

lemma posix_read_loop_spec:
  assumes "readable s fh" and "view s fh = Some c" and "r \<le> cnt" and "cnt \<le> length buffer"
  shows "\<exists>a res. posix_read_loop s (fd fh) cnt buffer off r = (res, s\<lparr>answers := a\<rparr>)
     \<and> (res = ok (r + length (take (cnt - r) (drop (off + r) c)), overwrite buffer r (take (cnt - r) (drop (off + r) c)))
        \<or> (\<exists>e. res = err READ_ERR (strerror e)) \<and> answers s \<noteq> [])
     \<and> (answers s = [] \<longrightarrow> a = [])"
  using assms
proof (induction s "fd fh" cnt buffer off r rule: posix_read_loop.induct)
  case (1 s cnt buffer off r)
  let ?sl = "take (cnt - r) (drop (off + r) c)" and ?as = "tl (answers s)"
  show ?case
  proof (cases "r < cnt")
    case False
    then show ?thesis
      by (subst posix_read_loop.simps) (auto intro!: exI [of _ "answers s"])
  next
    case True
    show ?thesis
    proof (cases rule: sys_pread_cases [OF "1.prems"(1,2), of "cnt - r" "off + r", consumes 0, case_names fail part])
      case (fail e)
      show ?thesis
      proof (cases "e = EINTR")
        case True
        from "1.hyps"(1) [OF \<open>r < cnt\<close> fail(1) [symmetric] refl True] "1.prems"
        show ?thesis
          using fail True \<open>r < cnt\<close> by (subst posix_read_loop.simps) (simp, blast)
      next
        case False
        then show ?thesis
          using fail True by (subst posix_read_loop.simps) (auto intro!: exI [of _ ?as])
      qed
    next
      case (part k)
      define sl where "sl = take (cnt - r) (drop (off + r) c)"
      let ?bs = "take (Suc k) sl" and ?r = "r + length (take (Suc k) sl)"
      have pread: "sys_pread s (fd fh) (cnt - r) (off + r) = (Inr ?bs, s\<lparr>answers := ?as\<rparr>)"
        using part by (simp add: sl_def)
      have len: "length sl \<le> cnt - r" by (simp add: sl_def)
      show ?thesis unfolding sl_def [symmetric]
      proof (cases "sl = []")
        case True
        then show "\<exists>a res. posix_read_loop s (fd fh) cnt buffer off r = (res, s\<lparr>answers := a\<rparr>)
            \<and> (res = ok (r + length sl, overwrite buffer r sl)
               \<or> (\<exists>e. res = err READ_ERR (strerror e)) \<and> answers s \<noteq> [])
            \<and> (answers s = [] \<longrightarrow> a = [])"
          using pread \<open>r < cnt\<close> by (subst posix_read_loop.simps) (auto intro!: exI [of _ ?as])
      next
        case False
        then have ne: "length ?bs \<noteq> 0" by simp
        have le: "?r \<le> cnt" using True len by simp
        let ?b = "overwrite buffer r ?bs"
        have lb: "length ?b = length buffer" using True len "1.prems"(4) by (intro length_overwrite) simp
        have join: "overwrite ?b ?r (drop (Suc k) sl) = overwrite buffer r sl"
        proof -
          have "r + length ?bs + length (drop (Suc k) sl) \<le> length buffer"
            using True len "1.prems"(4) by simp
          from overwrite_twice [OF this] show ?thesis by (simp only: append_take_drop_id)
        qed
        have sum: "?r + length (drop (Suc k) sl) = r + length sl"
          by (metis add.assoc append_take_drop_id length_append)
        from "1.hyps"(2) [OF True pread [symmetric] refl ne] "1.prems" le lb
        obtain a res where loop: "posix_read_loop (s\<lparr>answers := ?as\<rparr>) (fd fh) cnt ?b off ?r = (res, s\<lparr>answers := a\<rparr>)"
            "res = ok (r + length sl, overwrite buffer r sl) \<or> (\<exists>e. res = err READ_ERR (strerror e)) \<and> ?as \<noteq> []"
            "?as = [] \<longrightarrow> a = []"
          unfolding slice_rest [OF sl_def] sum join by auto
        have "posix_read_loop s (fd fh) cnt buffer off r = (res, s\<lparr>answers := a\<rparr>)"
          using True pread ne loop(1) by (subst posix_read_loop.simps) (simp del: length_take)
        with loop(2,3) show "\<exists>a res. posix_read_loop s (fd fh) cnt buffer off r = (res, s\<lparr>answers := a\<rparr>)
            \<and> (res = ok (r + length sl, overwrite buffer r sl)
               \<or> (\<exists>e. res = err READ_ERR (strerror e)) \<and> answers s \<noteq> [])
            \<and> (answers s = [] \<longrightarrow> a = [])"
          by (intro exI [of _ a] exI [of _ res]) auto
      qed
    qed
  qed
qed

lemma posix_read_spec:
  assumes "readable s fh" and "view s fh = Some c" and "cnt \<le> length buffer"
  shows "\<exists>a res. posix_read s fh cnt buffer off = (res, s\<lparr>answers := a\<rparr>)
     \<and> (res = ok (length (take cnt (drop off c)), overwrite buffer 0 (take cnt (drop off c)))
        \<or> (\<exists>e. res = err READ_ERR (strerror e)) \<and> answers s \<noteq> [])
     \<and> (answers s = [] \<longrightarrow> a = [])"
  using posix_read_loop_spec [OF assms(1,2) le0 assms(3), of off] assms(1)
  by (simp add: posix_read_def readable_def del: length_take)

lemma answers_same: "answers s = [] \<Longrightarrow> s\<lparr>answers := []\<rparr> = s"
  by (metis fs.surjective fs.update_convs(7))

lemma posix_read_ok [io_simps]:
  assumes "answers s = []" and "readable s fh" and "view s fh = Some c" and "cnt \<le> length buffer"
  shows "posix_read s fh cnt buffer off
       = (ok (length (take cnt (drop off c)), overwrite buffer 0 (take cnt (drop off c))), s)"
  using posix_read_spec [OF assms(2-4), of off] assms(1) by (auto simp: answers_same simp del: length_take)

lemma posix_append_okD:
  assumes "posix_append s fh bs = (Inr n, t)" and "appendable s fh"
  obtains a where "n = length bs" and "t = (fs_append s fh bs)\<lparr>answers := a\<rparr>"
  using posix_append_spec [OF assms(2), of bs] assms(1) by (auto simp: ok_def err_def)

lemma posix_append_errD:
  assumes "posix_append s fh bs = (Inl e, t)" and "appendable s fh"
  obtains k a where "t = (fs_append s fh (take k bs))\<lparr>answers := a\<rparr>"
    and "\<exists>m. e = Err \<lparr>code = WRITE_ERR, message = m\<rparr>"
  using posix_append_spec [OF assms(2), of bs] assms(1) by (auto simp: ok_def err_def)

lemma posix_read_okD:
  assumes "posix_read s fh cnt buffer off = (Inr (n, b), t)"
    and "readable s fh" and "view s fh = Some c" and "cnt \<le> length buffer"
  obtains a where "n = length (take cnt (drop off c))"
    and "b = overwrite buffer 0 (take cnt (drop off c))" and "t = s\<lparr>answers := a\<rparr>"
  using posix_read_spec [OF assms(2-4), of off] assms(1) by (auto simp: ok_def err_def)

section \<open>The contract of an I/O engine\<close>

text \<open>
  What the storage layer relies on: an append that reports success has put the whole buffer behind
  the file, one that fails has put a prefix of it there, a read that reports success has returned
  the whole slice and changed no file, and a handle without faults never fails.
\<close>

locale io_engine =
  fixes append :: "'s \<Rightarrow> 'h \<Rightarrow> bytes \<Rightarrow> nat result \<times> 's"
    and read :: "'s \<Rightarrow> 'h \<Rightarrow> nat \<Rightarrow> bytes \<Rightarrow> nat \<Rightarrow> (nat \<times> bytes) result \<times> 's"
    and look :: "'s \<Rightarrow> 'h \<Rightarrow> bytes option"
    and can_append :: "'s \<Rightarrow> 'h \<Rightarrow> bool"
    and can_read :: "'s \<Rightarrow> 'h \<Rightarrow> bool"
    and quiet :: "'s \<Rightarrow> bool"
  assumes append_ok: "can_append s h \<Longrightarrow> append s h bs = (Inr n, t) \<Longrightarrow>
        n = length bs \<and> can_append t h \<and> look t h = map_option (\<lambda>c. c @ bs) (look s h)"
    and append_err: "can_append s h \<Longrightarrow> append s h bs = (Inl e, t) \<Longrightarrow>
        \<exists>k. look t h = map_option (\<lambda>c. c @ take k bs) (look s h)"
    and append_quiet: "quiet s \<Longrightarrow> can_append s h \<Longrightarrow> \<exists>t. append s h bs = (Inr (length bs), t) \<and> quiet t"
    and read_ok: "can_read s h \<Longrightarrow> look s h = Some c \<Longrightarrow> cnt \<le> length buffer \<Longrightarrow>
        read s h cnt buffer off = (Inr (n, b), t) \<Longrightarrow>
        n = length (take cnt (drop off c)) \<and> b = overwrite buffer 0 (take cnt (drop off c))
        \<and> (\<forall>h'. look t h' = look s h' \<and> can_read t h' = can_read s h')"
    and read_quiet: "quiet s \<Longrightarrow> can_read s h \<Longrightarrow> look s h = Some c \<Longrightarrow> cnt \<le> length buffer \<Longrightarrow>
        \<exists>n b t. read s h cnt buffer off = (Inr (n, b), t) \<and> quiet t"
begin

lemma append_twice:
  assumes "can_append s h" and "attempt (append s h a) (\<lambda>_ t. append t h b) = (Inr n, u)"
  shows "n = length b \<and> can_append u h \<and> look u h = map_option (\<lambda>c. c @ a @ b) (look s h)"
proof -
  from assms(2) obtain m t where "append s h a = (Inr m, t)" and "append t h b = (Inr n, u)"
    by (rule attempt_eq_InrE)
  then show ?thesis using append_ok [OF assms(1)] append_ok [of t h b]
    by (auto simp: option.map_comp comp_def)
qed

lemma read_back:
  assumes "can_append s h" and "look s h = Some c" and "append s h bs = (Inr m, t)"
    and "can_read t h'" and "look t h' = look t h" and "length bs \<le> length buffer"
    and "read t h' (length bs) buffer (length c) = (Inr (n, b), u)"
  shows "n = length bs \<and> take n b = bs"
proof -
  from append_ok [OF assms(1,3)] assms(2,5) have "look t h' = Some (c @ bs)" by simp
  from read_ok [OF assms(4) this assms(6,7)] show ?thesis by (simp add: overwrite_def)
qed

end

interpretation posix: io_engine posix_append posix_read view appendable readable "\<lambda>s. answers s = []"
proof unfold_locales
  show "n = length bs \<and> appendable t h \<and> view t h = map_option (\<lambda>c. c @ bs) (view s h)"
    if "appendable s h" "posix_append s h bs = (Inr n, t)" for s h bs n t
    using that by (auto elim!: posix_append_okD)
  show "\<exists>k. view t h = map_option (\<lambda>c. c @ take k bs) (view s h)"
    if "appendable s h" "posix_append s h bs = (Inl e, t)" for s h bs e t
    using that by (auto elim!: posix_append_errD)
qed (auto simp: posix_append_ok posix_read_ok ok_def elim!: posix_read_okD)

section \<open>Durability\<close>

definition durable_view :: "fs \<Rightarrow> FileHandle \<Rightarrow> bytes option" where
  "durable_view s fh = (if fd fh = -1 then None else map_option (\<lambda>(f, n). durable n) (fd_file s (fd fh)))"

definition fs_sync :: "fs \<Rightarrow> FileHandle \<Rightarrow> fs" where
  "fs_sync s fh =
     (case fd_file s (fd fh) of
        None \<Rightarrow> s
      | Some (f, n) \<Rightarrow> s\<lparr>inodes := (inodes s)(of_ino f \<mapsto> n\<lparr>durable := contents n\<rparr>)\<rparr>)"

lemma fs_sync_views [simp]:
  "view (fs_sync s fh) fh = view s fh" "durable_view (fs_sync s fh) fh = view s fh"
  "appendable (fs_sync s fh) fh = appendable s fh" "readable (fs_sync s fh) fh = readable s fh"
  "answers (fs_sync s fh) = answers s" "assertions (fs_sync s fh) = assertions s"
  by (auto simp: fs_sync_def view_def durable_view_def appendable_def readable_def fd_file_def split: option.splits)

lemma durable_view_answers [simp]: "durable_view (s\<lparr>answers := a\<rparr>) fh = durable_view s fh"
  by (simp add: durable_view_def)

lemma posix_sync_data_okD:
  assumes "posix_sync_data s fh = (Inr u, t)"
  shows "t = (fs_sync s fh)\<lparr>answers := tl (answers s)\<rparr>" and "view s fh \<noteq> None"
proof -
  obtain x r where p: "pop_answer s = (x, r)" by (cases "pop_answer s")
  then have r: "r = s\<lparr>answers := tl (answers s)\<rparr>" by (rule pop_answerD)
  with assms p have "t = (fs_sync s fh)\<lparr>answers := tl (answers s)\<rparr> \<and> view s fh \<noteq> None"
    by (auto simp: posix_sync_data_def sys_fsync_def fs_sync_def view_def
        split: if_splits option.splits answer.splits prod.splits)
  then show "t = (fs_sync s fh)\<lparr>answers := tl (answers s)\<rparr>" and "view s fh \<noteq> None" by simp_all
qed

lemma posix_sync_data_ok [io_simps]:
  assumes "answers s = []" and "view s fh \<noteq> None"
  shows "posix_sync_data s fh = (ok (), fs_sync s fh)"
  using assms by (auto simp: posix_sync_data_def sys_fsync_def fs_sync_def view_def io_simps split: if_splits option.splits)

lemma posix_sync_all_ok [io_simps]:
  assumes "answers s = []" and "view s fh \<noteq> None"
  shows "posix_sync_all s fh = (ok (), fs_sync s fh)"
  using assms by (auto simp: posix_sync_all_def sys_fsync_def fs_sync_def view_def io_simps split: if_splits option.splits)

lemma posix_read_okI:
  assumes "posix_read s fh cnt buffer off = (Inr x, t)" and "0 < cnt"
  shows "readable s fh \<and> view s fh \<noteq> None"
proof (rule ccontr)
  assume no: "\<not> ?thesis"
  obtain a r where "pop_answer s = (a, r)" by (cases "pop_answer s")
  with no have "\<exists>t. sys_pread s (fd fh) cnt off = (Inl EBADF, t) \<or> fd fh = -1"
    by (auto simp: sys_pread_def readable_def view_def dest!: pop_answerD split: option.splits if_splits)
  with assms show False
    by (auto simp: posix_read_def posix_read_loop.simps [where bytes_read = 0] split: if_splits)
qed

lemma fs_sync_answers: "fs_sync (s\<lparr>answers := a\<rparr>) fh = (fs_sync s fh)\<lparr>answers := a\<rparr>"
  by (simp add: fs_sync_def split: option.splits)

lemma posix_sync_all_okD:
  assumes "posix_sync_all s fh = (Inr u, t)"
  shows "t = (fs_sync s fh)\<lparr>answers := tl (answers s)\<rparr>"
  using assms posix_sync_data_okD [of s fh u t]
  by (simp add: posix_sync_all_def posix_sync_data_def)

lemma posix_sync_directory_state:
  assumes "posix_sync_directory s d = (r, t)"
  shows "\<exists>a. t = s\<lparr>answers := a\<rparr> \<and> (answers s = [] \<longrightarrow> a = [])"
proof -
  obtain x s1 where p: "pop_answer s = (x, s1)" by (cases "pop_answer s")
  obtain y s2 where q: "pop_answer s1 = (y, s2)" by (cases "pop_answer s1")
  from pop_answerD [OF p] pop_answerD [OF q] assms p q
  have "t = s\<lparr>answers := tl (answers s)\<rparr> \<or> t = s\<lparr>answers := tl (tl (answers s))\<rparr>"
    by (auto simp: posix_sync_directory_def sys_sync_dir_def split: answer.splits if_splits)
  then show ?thesis by auto
qed

lemma posix_sync_directory_ok [io_simps]:
  "answers s = [] \<Longrightarrow> is_directory s d \<Longrightarrow> posix_sync_directory s d = (ok (), s)"
  by (simp add: posix_sync_directory_def sys_sync_dir_def io_simps)

section \<open>A run of appends\<close>

text \<open>
  \<open>wrote s0 fh bs s\<close>: the state \<open>s\<close> is \<open>s0\<close> with \<open>bs\<close> appended through \<open>fh\<close> and some answers
  used up.
\<close>

definition wrote :: "fs \<Rightarrow> FileHandle \<Rightarrow> bytes \<Rightarrow> fs \<Rightarrow> bool" where
  "wrote s0 fh bs s \<longleftrightarrow> s = (fs_append s0 fh bs)\<lparr>answers := answers s\<rparr> \<and> (answers s0 = [] \<longrightarrow> answers s = [])"

lemma wrote_refl [simp]: "wrote s fh [] s"
  by (simp add: wrote_def)

lemma wrote_views:
  assumes "wrote s0 fh bs s" and "appendable s0 fh"
  shows "appendable s fh" and "view s fh = map_option (\<lambda>c. c @ bs) (view s0 fh)"
proof -
  from assms(1) obtain a where "s = (fs_append s0 fh bs)\<lparr>answers := a\<rparr>" unfolding wrote_def by blast
  with assms(2) show "appendable s fh" and "view s fh = map_option (\<lambda>c. c @ bs) (view s0 fh)" by simp_all
qed

lemma wrote_append:
  assumes "wrote s0 fh bs s" and "appendable s0 fh" and "posix_append s fh xs = (Inr n, t)"
  shows "n = length xs \<and> wrote s0 fh (bs @ xs) t"
proof -
  from assms(1) obtain a where s: "s = (fs_append s0 fh bs)\<lparr>answers := a\<rparr>" and a: "answers s0 = [] \<longrightarrow> a = []"
    unfolding wrote_def by blast
  from assms(1,2) have "appendable s fh" by (rule wrote_views)
  from posix_append_spec [OF this, of xs] assms(3)
  obtain a' where "n = length xs" "t = (fs_append s fh xs)\<lparr>answers := a'\<rparr>" "answers s = [] \<longrightarrow> a' = []"
    by (auto simp: ok_def err_def)
  then show ?thesis using a by (simp add: wrote_def s fs_append_answers)
qed

lemma wrote_quiet:
  assumes "wrote s0 fh bs s" and "appendable s0 fh" and "answers s0 = []"
  shows "posix_append s fh xs = (ok (length xs), fs_append s fh xs)" and "s = fs_append s0 fh bs"
proof -
  from assms have "answers s = []" by (simp add: wrote_def)
  moreover from assms(1,2) have "appendable s fh" by (rule wrote_views)
  ultimately show "posix_append s fh xs = (ok (length xs), fs_append s fh xs)"
    by (rule posix_append_ok)
  from assms(3) \<open>answers s = []\<close> show "s = fs_append s0 fh bs"
    using assms(1) answers_same [of "fs_append s0 fh bs"] by (simp add: wrote_def)
qed

section \<open>Opening\<close>

definition fs_opened :: "fs \<Rightarrow> nat \<Rightarrow> Mode \<Rightarrow> fs" where
  "fs_opened s ino mode = snd (add_fd s ino mode)"

lemma posix_open_existing [io_simps]:
  "answers s = [] \<Longrightarrow> map_of (dir s) path = Some ino \<Longrightarrow> mode \<noteq> Overwrite \<Longrightarrow>
   posix_open s path mode = (ok (FileHandle (next_fd s)), fs_opened s ino mode)"
  by (simp add: posix_open_def sys_open_def io_simps fs_opened_def add_fd_def)

lemma posix_open_new [io_simps]:
  "answers s = [] \<Longrightarrow> map_of (dir s) path = None \<Longrightarrow> mode \<noteq> Read \<Longrightarrow> is_directory s (parent_of path) \<Longrightarrow>
   posix_open s path mode
   = (ok (FileHandle (next_fd s)), fs_opened (create_file s path) (next_ino s) mode)"
  by (auto simp: posix_open_def sys_open_def io_simps fs_opened_def add_fd_def create_file_def)

lemma fs_opened_simps [simp]:
  "answers (fs_opened s i m) = answers s" "inodes (fs_opened s i m) = inodes s" "dir (fs_opened s i m) = dir s"
  "next_ino (fs_opened s i m) = next_ino s" "next_fd (fs_opened s i m) = next_fd s + 1"
  "subdirs (fs_opened s i m) = subdirs s" "assertions (fs_opened s i m) = assertions s"
  "fds (fs_opened s i m) = (fds s)(next_fd s \<mapsto> mode_file i m)"
  by (simp_all add: fs_opened_def add_fd_def)

lemma fd_file_fs_opened:
  "inodes s i = Some n \<Longrightarrow> fd_file (fs_opened s i m) (next_fd s) = Some (mode_file i m, n)"
  by (simp add: fd_file_def mode_file_def)

lemma fs_opened_handle:
  assumes "inodes s i = Some n" and "0 \<le> next_fd s"
  shows "view (fs_opened s i m) (FileHandle (next_fd s)) = Some (contents n)"
    and "readable (fs_opened s i m) (FileHandle (next_fd s)) \<longleftrightarrow> m = Read \<or> m = ReadWrite"
    and "appendable (fs_opened s i m) (FileHandle (next_fd s)) \<longleftrightarrow> m = Append \<or> m \<noteq> Read \<and> contents n = []"
  using assms by (auto simp: view_def readable_def appendable_def fd_file_fs_opened mode_file_def)

lemma posix_file_size_ok [io_simps]:
  "answers s = [] \<Longrightarrow> view s fh = Some c \<Longrightarrow> posix_file_size s fh = (ok (length c), s)"
  by (auto simp: posix_file_size_def sys_fstat_def io_simps view_def split: option.splits if_splits)

text \<open>A file system with one open file, for examples.\<close>

definition demo_fs :: "Mode \<Rightarrow> bytes \<Rightarrow> fs" where
  "demo_fs m c = fs_opened (fs_empty [''d'']\<lparr>inodes := [0 \<mapsto> \<lparr>contents = c, durable = []\<rparr>], next_ino := 1,
     dir := [(''d/f'', 0)]\<rparr>) 0 m"

lemma demo_fs_handle:
  "view (demo_fs m c) (FileHandle 0) = Some c" "answers (demo_fs m c) = []"
  "readable (demo_fs m c) (FileHandle 0) \<longleftrightarrow> m = Read \<or> m = ReadWrite"
  "appendable (demo_fs m c) (FileHandle 0) \<longleftrightarrow> m = Append \<or> m \<noteq> Read \<and> c = []"
  using fs_opened_handle [of "fs_empty [''d'']\<lparr>inodes := [0 \<mapsto> \<lparr>contents = c, durable = []\<rparr>], next_ino := 1,
     dir := [(''d/f'', 0)]\<rparr>" 0 "\<lparr>contents = c, durable = []\<rparr>" m]
  by (simp_all add: demo_fs_def fs_empty_def)

lemma take_overwrite: "take (length xs) (overwrite b 0 xs) = xs"
  by (simp add: overwrite_def)

section \<open>Removing\<close>

lemma posix_remove_after:
  assumes "sys_unlink s path = (x, u)" and "x \<noteq> Inl ENOENT"
  shows "\<exists>a. (answers u = [] \<longrightarrow> a = []) \<and> posix_remove s path = ((case assertions u of None \<Rightarrow> ok ()
      | Some links \<Rightarrow> if map_of (dir u) path \<noteq> None then abort ''File path still exists after unlink!''
          else if debug_has_open_fd_for_path (links (fds u) path) path
          then abort ''FS LEAK: Attempted to remove file while process still holds an open FileHandle/FD!''
          else ok ()), u\<lparr>answers := a\<rparr>)"
proof -
  obtain y v where v: "posix_sync_directory u (parent_of path) = (y, v)" by (cases "posix_sync_directory u (parent_of path)")
  from posix_sync_directory_state [OF v] obtain b where "v = u\<lparr>answers := b\<rparr>" "answers u = [] \<longrightarrow> b = []" by blast
  with v have "\<exists>a. (if CHR ''/'' \<in> set path then snd (posix_sync_directory u (parent_of path)) else u) = u\<lparr>answers := a\<rparr>
      \<and> (answers u = [] \<longrightarrow> a = [])"
    by (auto intro: exI [of _ "answers u"])
  then obtain a where a: "(if CHR ''/'' \<in> set path then snd (posix_sync_directory u (parent_of path)) else u) = u\<lparr>answers := a\<rparr>"
      "answers u = [] \<longrightarrow> a = []" by blast
  have "posix_remove s path = (let s = u\<lparr>answers := a\<rparr> in case assertions s of
         None \<Rightarrow> (ok (), s)
       | Some links \<Rightarrow>
           if map_of (dir s) path \<noteq> None then (abort ''File path still exists after unlink!'', s)
           else if debug_has_open_fd_for_path (links (fds s) path) path
           then (abort ''FS LEAK: Attempted to remove file while process still holds an open FileHandle/FD!'', s)
           else (ok (), s))"
    using assms a(1) by (auto simp: posix_remove_def split: sum.split errno.split)
  with a(2) show ?thesis by (auto simp: Let_def split: option.split)
qed

section \<open>Properties\<close>

text \<open>
  C25. Under every schedule of short, interrupted and failing writes, append extends the file by
  the first k bytes of the buffer; it reports success exactly when that is the whole buffer, and
  otherwise reports the error of a write that failed with something else than an interrupt.
  Interrupts alone never make it fail.
\<close>

theorem posix_append_all_or_error:
  assumes "appendable s fh" and "view s fh = Some c"
  shows "\<exists>k r t. posix_append s fh bs = (r, t) \<and> k \<le> length bs \<and> view t fh = Some (c @ take k bs)
     \<and> (r = ok (length bs) \<longleftrightarrow> k = length bs)
     \<and> (k < length bs \<longrightarrow> (\<exists>e. e \<noteq> EINTR \<and> Fail e \<in> set (answers s) \<and> r = err WRITE_ERR (strerror e)))
     \<and> ((\<forall>e. Fail e \<in> set (answers s) \<longrightarrow> e = EINTR) \<longrightarrow> r = ok (length bs))"
proof -
  from posix_append_exact [OF assms(1), of bs] obtain k a r where
      p: "posix_append s fh bs = (r, (fs_append s fh (take k bs))\<lparr>answers := a\<rparr>)"
      "r = ok (length bs) \<and> k = length bs \<or> failed_write (answers s) r \<and> k < length bs" by blast
  from p(2) have "r = ok (length bs) \<and> k = length bs \<or> r \<noteq> ok (length bs) \<and> k < length bs
      \<and> (\<exists>e. e \<noteq> EINTR \<and> Fail e \<in> set (answers s) \<and> r = err WRITE_ERR (strerror e))"
    by (auto simp: failed_write_def)
  then show ?thesis using p(1) assms by (intro exI [of _ k] exI [of _ r]) auto
qed

theorem posix_append_all_or_error_witness:
  "\<exists>k r t. posix_append ((demo_fs Append [1])\<lparr>answers := [Part 0, Fail EINTR, Fail ENOSPC]\<rparr>) (FileHandle 0) [2, 3] = (r, t)
     \<and> view t (FileHandle 0) = Some ([1] @ take k [2, 3]) \<and> (r = ok 2 \<longleftrightarrow> k = 2)
     \<and> (k < 2 \<longrightarrow> r = err WRITE_ERR (strerror ENOSPC))"
proof -
  have two: "length [2, 3 :: u8] = 2" by simp
  from posix_append_all_or_error [of "(demo_fs Append [1])\<lparr>answers := [Part 0, Fail EINTR, Fail ENOSPC]\<rparr>" "FileHandle 0" "[1]" "[2, 3]"]
  show ?thesis unfolding two by (auto simp: demo_fs_handle)
qed

text \<open>
  C26. A read that reports success has returned the whole requested slice, cut only by the end
  of the file, however the transfers were split, and changed no file.
\<close>

theorem posix_read_whole_slice:
  assumes "readable s fh" and "view s fh = Some c" and "cnt \<le> length buffer"
    and "posix_read s fh cnt buffer off = (ok (n, b), t)"
  shows "n = length (take cnt (drop off c)) \<and> take n b = take cnt (drop off c)
     \<and> inodes t = inodes s \<and> dir t = dir s"
  using assms(4) [unfolded ok_def] assms(1-3) by (rule posix_read_okD) (simp add: take_overwrite del: length_take)

theorem posix_read_whole_slice_witness:
  "take 2 [7, 8, 0::u8] = take 2 (drop 1 [6, 7, 8, 9]) \<and> posix_read (demo_fs Read [6, 7, 8, 9]) (FileHandle 0) 2 [0, 0, 0] 1
   = (ok (2, [7, 8, 0]), demo_fs Read [6, 7, 8, 9])"
proof -
  have r: "posix_read (demo_fs Read [6, 7, 8, 9]) (FileHandle 0) 2 [0, 0, 0] 1 = (ok (2, [7, 8, 0]), demo_fs Read [6, 7, 8, 9])"
    using posix_read_ok [of "demo_fs Read [6, 7, 8, 9]" "FileHandle 0" "[6, 7, 8, 9]" 2 "[0, 0, 0]" 1]
    by (simp add: demo_fs_handle overwrite_def)
  from posix_read_whole_slice [OF _ _ _ r] show ?thesis using r by (simp add: demo_fs_handle)
qed

text \<open>
  C27. Removing a file that is there: when unlink fails with an error other than ENOENT the file
  stays, and a release build reports success nevertheless, while a debug build aborts on the
  assertion that the path is gone. When unlink succeeds exactly this path is gone; a release
  build reports success, and a debug build does so unless its scan of the open descriptors finds
  the path, in which case it aborts.
\<close>

theorem posix_remove_hides_failures:
  assumes "map_of (dir s) path = Some i" and "posix_remove s path = (r, t)"
  shows "(\<forall>e as. answers s = Fail e # as \<and> e \<noteq> ENOENT \<longrightarrow> dir t = dir s \<and> inodes t = inodes s
       \<and> r = (if assertions s = None then ok () else abort ''File path still exists after unlink!''))
     \<and> ((\<forall>e as. answers s \<noteq> Fail e # as) \<longrightarrow>
         file_at t path = None \<and> (\<forall>q. q \<noteq> path \<longrightarrow> file_at t q = file_at s q)
       \<and> r = (case assertions s of None \<Rightarrow> ok ()
              | Some links \<Rightarrow> if debug_has_open_fd_for_path (links (fds s) path) path
                  then abort ''FS LEAK: Attempted to remove file while process still holds an open FileHandle/FD!''
                  else ok ()))"
  (is "?fails \<and> ?succeeds")
proof
  show ?fails
  proof (intro allI impI)
    fix e as assume "answers s = Fail e # as \<and> e \<noteq> ENOENT"
    then have "sys_unlink s path = (Inl e, s\<lparr>answers := as\<rparr>)" "e \<noteq> ENOENT" by (simp_all add: sys_unlink_def pop_answer_def)
    from posix_remove_after [OF this(1)] this(2) assms
    show "dir t = dir s \<and> inodes t = inodes s
       \<and> r = (if assertions s = None then ok () else abort ''File path still exists after unlink!'')"
      by (auto split: option.splits)
  qed
  show ?succeeds
  proof
    assume no: "\<forall>e as. answers s \<noteq> Fail e # as"
    obtain a s1 where p: "pop_answer s = (a, s1)" by (cases "pop_answer s")
    with no have "\<forall>e. a \<noteq> Fail e" by (auto simp: pop_answer_def split: list.splits)
    with p pop_answerD [OF p] assms(1) have u: "sys_unlink s path
        = (Inr (), s\<lparr>answers := tl (answers s), dir := filter (\<lambda>(p, _). p \<noteq> path) (dir s)\<rparr>)"
      by (cases a) (auto simp: sys_unlink_def)
    have gone: "map_of (filter (\<lambda>(p, _). p \<noteq> path) xs) q = (if q = path then None else map_of xs q)" for q and xs :: "(string \<times> nat) list"
      by (induction xs) auto
    from posix_remove_after [OF u] assms(2)
    show "file_at t path = None \<and> (\<forall>q. q \<noteq> path \<longrightarrow> file_at t q = file_at s q)
       \<and> r = (case assertions s of None \<Rightarrow> ok ()
              | Some links \<Rightarrow> if debug_has_open_fd_for_path (links (fds s) path) path
                  then abort ''FS LEAK: Attempted to remove file while process still holds an open FileHandle/FD!''
                  else ok ())"
      by (auto simp: gone file_at_def split: option.splits)
  qed
qed

theorem posix_remove_hides_failures_witness:
  "posix_remove ((demo_fs Read [1])\<lparr>answers := [Fail EIO]\<rparr>) ''d/f'' = (ok (), demo_fs Read [1])
   \<and> file_at (demo_fs Read [1]) ''d/f'' = Some [1]
   \<and> fst (posix_remove ((demo_fs Read [1])\<lparr>answers := [Fail EIO], assertions := Some (\<lambda>F p. [])\<rparr>) ''d/f'')
     = abort ''File path still exists after unlink!''"
proof -
  let ?s = "(demo_fs Read [1])\<lparr>answers := [Fail EIO]\<rparr>"
  let ?d = "?s\<lparr>assertions := Some (\<lambda>F p. [])\<rparr>"
  have m: "map_of (dir ?s) ''d/f'' = Some 0" "map_of (dir ?d) ''d/f'' = Some 0" "assertions ?s = None"
    by (simp_all add: demo_fs_def fs_empty_def)
  have t: "snd (posix_remove ?s ''d/f'') = demo_fs Read [1]"
    by (simp add: posix_remove_def sys_unlink_def pop_answer_def posix_sync_directory_def sys_sync_dir_def parent_of_def
        is_directory_def demo_fs_def fs_empty_def fs_opened_def add_fd_def)
  have "fst (posix_remove ?s ''d/f'') = ok ()"
    using posix_remove_hides_failures [OF m(1) prod.collapse [symmetric]] m(3) by simp
  moreover have "fst (posix_remove ?d ''d/f'') = abort ''File path still exists after unlink!''"
    using posix_remove_hides_failures [OF m(2) prod.collapse [symmetric]] by simp
  moreover have "file_at (demo_fs Read [1]) ''d/f'' = Some [1]"
    by (simp add: file_at_def demo_fs_def fs_empty_def)
  ultimately show ?thesis using t by (metis (no_types, lifting) fs.fold_congs(8) prod.collapse)
qed

end
