(* ===== verification/Sstable_Writer.thy ===== *)
theory Sstable_Writer
  imports Sstable_Common Bloom_Filter Crc32 Io_Engine
begin

text \<open>
  sstable_writer.cpp: entries are packed into data blocks of about 4 KiB, each flushed block gets an
  index entry, and \<open>finish\<close> appends the index, the filter and the footer. The writer is shown to
  produce exactly the byte image of its entries whenever it reports success.
\<close>

record SSTableWriter =
  sw_fh :: FileHandle
  sw_path :: string
  sw_buffer :: bytes
  current_block_first_key :: Key
  current_file_offset :: nat
  current_block_start_offset :: nat
  sw_bloom :: BloomFilter
  sw_highest_sequence :: u64
  sw_index_entries :: "IndexEntry list"
  sw_entry_count :: nat

definition SSTableWriter_create :: "fs \<Rightarrow> string \<Rightarrow> nat \<Rightarrow> SSTableWriter result \<times> fs" where
  "SSTableWriter_create s path estimated_keys =
     attempt (posix_open s path Write) (\<lambda>fh s.
       case BloomFilter_create estimated_keys (1 / 100) of
         Inl e \<Rightarrow> (Inl e, s)
       | Inr bloom \<Rightarrow>
           (ok \<lparr>sw_fh = fh, sw_path = path, sw_buffer = [], current_block_first_key = Key [],
                current_file_offset = 0, current_block_start_offset = 0, sw_bloom = bloom,
                sw_highest_sequence = 0, sw_index_entries = [], sw_entry_count = 0\<rparr>, s))"

text \<open>The state of a writer operation is the file system and the writer.\<close>

definition flush_block :: "fs \<times> SSTableWriter \<Rightarrow> unit result \<times> (fs \<times> SSTableWriter)" where
  "flush_block st =
     (let (s, w) = st in
      case posix_append s (sw_fh w) (sw_buffer w) of
        (Inl e, s) \<Rightarrow> (Inl e, (s, w))
      | (Inr n, s) \<Rightarrow>
          if n \<noteq> length (sw_buffer w) then (err UNEXPECTED_ERR ''failed to write full block'', (s, w))
          else (ok (), (s, w\<lparr>sw_index_entries := sw_index_entries w
                             @ [\<lparr>first_key = current_block_first_key w,
                                 block_offset = current_block_start_offset w,
                                 block_size = length (sw_buffer w)\<rparr>],
                           current_file_offset := current_file_offset w + length (sw_buffer w),
                           sw_buffer := []\<rparr>)))"

definition entry_size :: "Key \<Rightarrow> InternalValue \<Rightarrow> nat" where
  "entry_size key value = 4 + key_size key + 4 + length (data value) + 1 + 8"

definition encode_entry :: "bytes \<Rightarrow> Key \<Rightarrow> InternalValue \<Rightarrow> bytes" where
  "encode_entry block_buffer key value =
     (let key_len = key_size key;
          value_len = length (data value);
          offset = length block_buffer;
          buffer = block_buffer @ replicate (entry_size key value) 0;
          (buffer, offset) = encode_uint32 (word_of_nat key_len) buffer offset;
          (buffer, offset) = encode_bytes (key_bytes key) key_len buffer offset;
          (buffer, offset) = encode_uint32 (word_of_nat value_len) buffer offset;
          (buffer, offset) = encode_bytes (data value) value_len buffer offset;
          (buffer, offset) = encode_uint8 (of_bool (is_tombstone value)) buffer offset;
          (buffer, offset) = encode_uint64 (sequence value) buffer offset
      in buffer)"

definition sst_add :: "fs \<times> SSTableWriter \<Rightarrow> Key \<Rightarrow> InternalValue \<Rightarrow> unit result \<times> (fs \<times> SSTableWriter)" where
  "sst_add st key value =
     attempt
       (if length (sw_buffer (snd st)) + entry_size key value > MAX_PAGING_SIZE_BYTES then flush_block st
        else (ok (), st))
       (\<lambda>_ (s, w).
         let w = (if sw_buffer w = []
                  then w\<lparr>current_block_first_key := key,
                         current_block_start_offset := current_file_offset w\<rparr>
                  else w);
             w = w\<lparr>sw_buffer := encode_entry (sw_buffer w) key value,
                   sw_bloom := bloom_add (sw_bloom w) key\<rparr>;
             w = (if sw_highest_sequence w < sequence value
                  then w\<lparr>sw_highest_sequence := sequence value\<rparr> else w);
             w = w\<lparr>sw_entry_count := sw_entry_count w + 1\<rparr>
         in (ok (), (s, w)))"

definition index_entry_size :: "IndexEntry \<Rightarrow> nat" where
  "index_entry_size e = 4 + key_size (first_key e) + 8 + 4"

definition encode_index_entry :: "IndexEntry \<Rightarrow> bytes \<times> nat \<Rightarrow> bytes \<times> nat" where
  "encode_index_entry e bo =
     (let (buffer, offset) = bo;
          keylen = key_size (first_key e);
          (buffer, offset) = encode_uint32 (word_of_nat keylen) buffer offset;
          (buffer, offset) = encode_bytes (key_bytes (first_key e)) keylen buffer offset;
          (buffer, offset) = encode_uint64 (word_of_nat (block_offset e)) buffer offset
      in encode_uint32 (word_of_nat (block_size e)) buffer offset)"

definition index_buffer :: "IndexEntry list \<Rightarrow> bytes" where
  "index_buffer es = fst (fold encode_index_entry es (replicate (sum_list (map index_entry_size es)) 0, 0))"

definition filter_buffer :: "BloomFilter \<Rightarrow> bytes" where
  "filter_buffer f =
     (let filter_size = length (bit_array f);
          buffer = replicate (filter_size + 1) 0;
          (buffer, _) = encode_uint8 (word_of_nat (num_hashes f)) buffer 0;
          (buffer, _) = encode_bytes (bit_array f) filter_size buffer 1
      in buffer)"

definition footer_buffer :: "nat \<Rightarrow> nat \<Rightarrow> nat \<Rightarrow> nat \<Rightarrow> u64 \<Rightarrow> nat \<Rightarrow> bytes" where
  "footer_buffer index_block_start index_size filter_size entries max_sequence_seen total_bytes =
     (let buffer = replicate FOOTER_SIZE 0;
          (buffer, offset) = encode_uint64 (word_of_nat index_block_start) buffer 0;
          (buffer, offset) = encode_uint32 (word_of_nat index_size) buffer offset;
          (buffer, offset) = encode_uint64 (word_of_nat (index_block_start + index_size)) buffer offset;
          (buffer, offset) = encode_uint32 (word_of_nat filter_size) buffer offset;
          (buffer, offset) = encode_uint32 (word_of_nat entries) buffer offset;
          (buffer, offset) = encode_uint16 (word_of_nat SSTABLE_FORMAT_VERSION) buffer offset;
          (buffer, offset) = encode_uint64 max_sequence_seen buffer offset;
          (buffer, offset) = encode_uint64 (word_of_nat total_bytes) buffer offset;
          checksum = compute_crc_32 (take FOOTER_CHECKSUM_OFFSET buffer);
          (buffer, offset) = encode_uint32 checksum buffer offset;
          (buffer, offset) = encode_bytes MAGIC MAGIC_SIZE buffer offset;
          (buffer, offset) = encode_uint32 0 buffer offset;
          (buffer, offset) = encode_uint16 0 buffer offset
      in buffer)"

definition append_whole :: "fs \<times> SSTableWriter \<Rightarrow> bytes \<Rightarrow> string \<Rightarrow> unit result \<times> (fs \<times> SSTableWriter)" where
  "append_whole st bs what =
     (let (s, w) = st in
      case posix_append s (sw_fh w) bs of
        (Inl e, s) \<Rightarrow> (Inl e, (s, w))
      | (Inr n, s) \<Rightarrow> if n \<noteq> length bs then (err UNEXPECTED_ERR what, (s, w)) else (ok (), (s, w)))"

text \<open>The end of \<open>finish\<close>: the footer, the sync of the file and of its directory.\<close>

definition sst_seal :: "fs \<times> SSTableWriter \<Rightarrow> bytes \<Rightarrow> unit result \<times> (fs \<times> SSTableWriter)" where
  "sst_seal st footer =
     (let (s, w) = st in
      case posix_append s (sw_fh w) footer of
        (Inl e, s) \<Rightarrow> (Inl e, (s, w))
      | (Inr _, s) \<Rightarrow>
          (case posix_sync_all s (sw_fh w) of
             (Inl e, s) \<Rightarrow> (Inl e, (s, w))
           | (Inr _, s) \<Rightarrow>
               (case posix_sync_directory s (parent_of (sw_path w)) of
                  (Inl e, s) \<Rightarrow> (Inl e, (s, w))
                | (Inr _, s) \<Rightarrow> (ok (), (s, w)))))"

definition sst_finish :: "fs \<times> SSTableWriter \<Rightarrow> unit result \<times> (fs \<times> SSTableWriter)" where
  "sst_finish st =
     attempt (if sw_buffer (snd st) \<noteq> [] then flush_block st else (ok (), st)) (\<lambda>_ st.
       let w = snd st;
           index_block_start = current_file_offset w;
           index = index_buffer (sw_index_entries w);
           fbuf = filter_buffer (sw_bloom w);
           size_bytes = index_block_start + length index + length fbuf + FOOTER_SIZE
       in
       attempt (append_whole st index ''failed to write index block'') (\<lambda>_ st.
       attempt (append_whole st fbuf ''failed to write filter block'') (\<lambda>_ st.
       sst_seal st (footer_buffer index_block_start (length index) (length fbuf)
                      (sw_entry_count w) (sw_highest_sequence w) size_bytes))))"

text \<open>A stream of entries added one after the other, as the flush and the compaction do it.\<close>

fun sst_add_all :: "fs \<times> SSTableWriter \<Rightarrow> entry list \<Rightarrow> unit result \<times> (fs \<times> SSTableWriter)" where
  "sst_add_all st [] = (ok (), st)"
| "sst_add_all st ((k, v) # es) = attempt (sst_add st k v) (\<lambda>_ st. sst_add_all st es)"

section \<open>The image of a table\<close>

definition entry_image :: "entry \<Rightarrow> bytes" where
  "entry_image e = be 4 (word_of_nat (key_size (fst e)) :: u32) @ key_bytes (fst e)
     @ be 4 (word_of_nat (length (data (snd e))) :: u32) @ data (snd e)
     @ [of_bool (is_tombstone (snd e))] @ be 8 (sequence (snd e))"

definition block_image :: "entry list \<Rightarrow> bytes" where
  "block_image es = concat (map entry_image es)"

text \<open>How the writer cuts a stream of entries: the finished blocks and the block being built.\<close>

fun pack_entry :: "entry \<Rightarrow> entry list list \<times> entry list \<Rightarrow> entry list list \<times> entry list" where
  "pack_entry e (blocks, cur) =
     (if length (block_image cur) + length (entry_image e) > MAX_PAGING_SIZE_BYTES then (blocks @ [cur], [e])
      else (blocks, cur @ [e]))"

definition sst_blocks :: "entry list \<Rightarrow> entry list list" where
  "sst_blocks es = (let (blocks, cur) = fold pack_entry es ([], []) in
     blocks @ (if cur = [] then [] else [cur]))"

definition block_first_key :: "entry list \<Rightarrow> Key" where
  "block_first_key b = (if b = [] then Key [] else fst (hd b))"

fun index_of :: "nat \<Rightarrow> entry list list \<Rightarrow> IndexEntry list" where
  "index_of off [] = []"
| "index_of off (b # bs) =
     \<lparr>first_key = block_first_key b, block_offset = off, block_size = length (block_image b)\<rparr>
     # index_of (off + length (block_image b)) bs"

definition index_entry_image :: "IndexEntry \<Rightarrow> bytes" where
  "index_entry_image e = be 4 (word_of_nat (key_size (first_key e)) :: u32) @ key_bytes (first_key e)
     @ be 8 (word_of_nat (block_offset e) :: u64) @ be 4 (word_of_nat (block_size e) :: u32)"

definition index_image :: "entry list \<Rightarrow> bytes" where
  "index_image es = concat (map index_entry_image (index_of 0 (sst_blocks es)))"

definition filter_image :: "BloomFilter \<Rightarrow> bytes" where
  "filter_image f = [word_of_nat (num_hashes f)] @ bit_array f"

definition max_seq :: "entry list \<Rightarrow> u64" where
  "max_seq es = fold (\<lambda>e m. if m < sequence (snd e) then sequence (snd e) else m) es 0"

definition footer_head :: "nat \<Rightarrow> nat \<Rightarrow> nat \<Rightarrow> nat \<Rightarrow> u64 \<Rightarrow> bytes" where
  "footer_head start isize fsize n m =
     be 8 (word_of_nat start :: u64) @ be 4 (word_of_nat isize :: u32) @ be 8 (word_of_nat (start + isize) :: u64)
     @ be 4 (word_of_nat fsize :: u32) @ be 4 (word_of_nat n :: u32) @ be 2 (word_of_nat SSTABLE_FORMAT_VERSION :: u16)
     @ be 8 m @ be 8 (word_of_nat (start + isize + fsize + FOOTER_SIZE) :: u64)"

definition footer_image :: "nat \<Rightarrow> nat \<Rightarrow> nat \<Rightarrow> nat \<Rightarrow> u64 \<Rightarrow> bytes" where
  "footer_image start isize fsize n m =
     (let head = footer_head start isize fsize n m
      in head @ be 4 (compute_crc_32 head) @ MAGIC @ be 4 (0 :: u32) @ be 2 (0 :: u16))"

definition sst_image :: "entry list \<Rightarrow> BloomFilter \<Rightarrow> bytes" where
  "sst_image es f =
     (let body = block_image es; index = index_image es; fbuf = filter_image f
      in body @ index @ fbuf
         @ footer_image (length body) (length index) (length fbuf) (length es) (max_seq es))"

section \<open>The buffers are the images\<close>

lemma length_entry_image:
  "length (entry_image e) = 17 + key_size (fst e) + length (data (snd e))"
  by (simp add: entry_image_def key_size_def)

lemma block_image_simps [simp]:
  "block_image [] = []" "block_image (a @ b) = block_image a @ block_image b"
  "block_image (e # b) = entry_image e @ block_image b"
  by (simp_all add: block_image_def)

lemma entry_image_not_Nil [simp]: "entry_image e \<noteq> []"
  using length_entry_image [of e] by auto

lemma block_image_eq_Nil [simp]: "block_image b = [] \<longleftrightarrow> b = []"
  by (cases b) auto

lemma length_MAGIC [simp]: "length MAGIC = 8"
  by (simp add: MAGIC_def)

lemma encode_index_entry_at:
  assumes "length pre + length (index_entry_image e) \<le> length b"
  shows "encode_index_entry e (overwrite b 0 pre, length pre)
       = (overwrite b 0 (pre @ index_entry_image e), length (pre @ index_entry_image e))"
  using assms
  by (simp add: encode_index_entry_def index_entry_image_def codec_simps overwrite_twice' key_size_def Let_def)

lemma encode_index_entries_at:
  "length pre + length (concat (map index_entry_image es)) \<le> length b \<Longrightarrow>
   fold encode_index_entry es (overwrite b 0 pre, length pre)
   = (overwrite b 0 (pre @ concat (map index_entry_image es)), length (pre @ concat (map index_entry_image es)))"
proof (induction es arbitrary: pre)
  case (Cons e es)
  have "fold encode_index_entry (e # es) (overwrite b 0 pre, length pre)
      = fold encode_index_entry es (overwrite b 0 (pre @ index_entry_image e), length (pre @ index_entry_image e))"
    using Cons.prems by (subst fold_simps(2), subst encode_index_entry_at) simp_all
  also have "\<dots> = (overwrite b 0 ((pre @ index_entry_image e) @ concat (map index_entry_image es)),
      length ((pre @ index_entry_image e) @ concat (map index_entry_image es)))"
    using Cons.prems by (intro Cons.IH) simp
  finally show ?case by simp
qed simp

lemma index_buffer_image: "index_buffer es = concat (map index_entry_image es)"
proof -
  have len: "length (concat (map index_entry_image es)) = sum_list (map index_entry_size es)"
    by (induction es) (simp_all add: index_entry_image_def index_entry_size_def key_size_def)
  then show ?thesis
    using encode_index_entries_at [of "[]" es "replicate (sum_list (map index_entry_size es)) 0"]
    by (simp add: index_buffer_def overwrite_all)
qed

lemma filter_buffer_image: "filter_buffer f = filter_image f"
  by (simp add: filter_buffer_def filter_image_def codec_simps overwrite_def)

lemma length_footer_head [simp]: "length (footer_head a b c d e) = 46"
  by (simp add: footer_head_def)

lemma footer_buffer_image:
  "footer_buffer start isize fsize n m (start + isize + fsize + FOOTER_SIZE) = footer_image start isize fsize n m"
proof -
  let ?b = "replicate FOOTER_SIZE 0 :: bytes"
  let ?h = "footer_head start isize fsize n m"
  have "footer_buffer start isize fsize n m (start + isize + fsize + FOOTER_SIZE) =
     (let buffer = overwrite ?b 0 ?h;
          (buffer, offset) = encode_uint32 (compute_crc_32 (take FOOTER_CHECKSUM_OFFSET buffer)) buffer 46;
          (buffer, offset) = encode_bytes MAGIC MAGIC_SIZE buffer offset;
          (buffer, offset) = encode_uint32 0 buffer offset;
          (buffer, offset) = encode_uint16 0 buffer offset
      in buffer)"
    by (simp add: footer_buffer_def footer_head_def codec_simps overwrite_twice' FOOTER_SIZE_def)
  moreover have "take FOOTER_CHECKSUM_OFFSET (overwrite ?b 0 ?h) = ?h"
    by (simp add: FOOTER_CHECKSUM_OFFSET_def overwrite_def)
  ultimately show ?thesis
    by (simp add: footer_image_def codec_simps overwrite_twice' FOOTER_SIZE_def MAGIC_SIZE_def overwrite_all Let_def)
qed

section \<open>The writer follows the packing\<close>

text \<open>
  The state of a writer that has been given the entries \<open>es\<close>, starting from the filter \<open>f0\<close>, and
  the file state it has produced from \<open>s0\<close>.
\<close>

definition sw_state :: "BloomFilter \<Rightarrow> entry list \<Rightarrow> SSTableWriter \<Rightarrow> bool" where
  "sw_state f0 es w \<longleftrightarrow> (case fold pack_entry es ([], []) of (blocks, cur) \<Rightarrow>
     sw_buffer w = block_image cur \<and> sw_index_entries w = index_of 0 blocks
     \<and> current_file_offset w = length (block_image (concat blocks))
     \<and> current_block_first_key w = block_first_key cur
     \<and> current_block_start_offset w = current_file_offset w
     \<and> (cur = [] \<longrightarrow> blocks = [])
     \<and> sw_bloom w = foldl bloom_add f0 (map fst es) \<and> sw_highest_sequence w = max_seq es
     \<and> sw_entry_count w = length es)"

definition sw_flushed :: "entry list \<Rightarrow> bytes" where
  "sw_flushed es = block_image (concat (fst (fold pack_entry es ([], []))))"

lemma index_of_snoc:
  "index_of off (bs @ [b]) = index_of off bs
     @ [\<lparr>first_key = block_first_key b, block_offset = off + length (block_image (concat bs)),
         block_size = length (block_image b)\<rparr>]"
  by (induction bs arbitrary: off) (simp_all add: add.assoc)

lemma concat_pack:
  "fold pack_entry es ([], []) = (blocks, cur) \<Longrightarrow> concat blocks @ cur = es"
proof (induction es arbitrary: blocks cur rule: rev_induct)
  case (snoc e es)
  obtain bs c where "fold pack_entry es ([], []) = (bs, c)" by (cases "fold pack_entry es ([], [])")
  with snoc show ?case by (auto split: if_splits)
qed simp

lemma concat_sst_blocks: "concat (sst_blocks es) = es"
  using concat_pack [of es] by (auto simp: sst_blocks_def split: prod.splits)

lemma flush_block_ok:
  assumes "flush_block (s, w) = (Inr u, (t, w'))" and "wrote s0 (sw_fh w) bs s" and "appendable s0 (sw_fh w)"
  shows "wrote s0 (sw_fh w) (bs @ sw_buffer w) t \<and>
    w' = w\<lparr>sw_index_entries := sw_index_entries w
               @ [\<lparr>first_key = current_block_first_key w, block_offset = current_block_start_offset w,
                   block_size = length (sw_buffer w)\<rparr>],
           current_file_offset := current_file_offset w + length (sw_buffer w), sw_buffer := []\<rparr>"
  using assms by (auto simp: flush_block_def ok_def split: prod.splits sum.splits if_splits dest: wrote_append)

lemma entry_size_image: "entry_size k v = length (entry_image (k, v))"
  by (simp add: entry_size_def length_entry_image)

lemma encode_entry_image: "encode_entry b k v = b @ entry_image (k, v)"
proof -
  have "overwrite (b @ replicate (entry_size k v) 0) (length b) (entry_image (k, v)) = b @ entry_image (k, v)"
    by (simp add: overwrite_at_end entry_size_image)
  then show ?thesis
    by (cases "is_tombstone v")
      (simp_all add: encode_entry_def entry_size_def Let_def codec_simps overwrite_twice' key_size_def entry_image_def)
qed

lemma max_seq_snoc: "max_seq (es @ [e]) = (if max_seq es < sequence (snd e) then sequence (snd e) else max_seq es)"
  by (simp add: max_seq_def)

lemma sst_add_state:
  assumes "sst_add (s, w) k v = (Inr u, (t, w'))" and "wrote s0 (sw_fh w) (sw_flushed es) s"
    and "appendable s0 (sw_fh w)" and "sw_state f0 es w"
  shows "wrote s0 (sw_fh w) (sw_flushed (es @ [(k, v)])) t \<and> sw_state f0 (es @ [(k, v)]) w'
     \<and> sw_fh w' = sw_fh w \<and> sw_path w' = sw_path w"
proof -
  obtain bs cur where p: "fold pack_entry es ([], []) = (bs, cur)" by (cases "fold pack_entry es ([], [])")
  have fl: "sw_flushed es = block_image (concat bs)" by (simp add: sw_flushed_def p)
  note st = assms(4) [unfolded sw_state_def p prod.case]
  show ?thesis
  proof (cases "length (sw_buffer w) + entry_size k v > MAX_PAGING_SIZE_BYTES")
    case True
    with assms(1) obtain u' t' w1 where fb: "flush_block (s, w) = (Inr u', (t', w1))"
      by (auto simp: sst_add_def elim!: attempt_eq_InrE)
    from flush_block_ok [OF this assms(2,3)]
    have wr: "wrote s0 (sw_fh w) (block_image (concat bs) @ block_image cur) t'"
      and w1: "w1 = w\<lparr>sw_index_entries := index_of 0 (bs @ [cur]),
           current_file_offset := length (block_image (concat (bs @ [cur]))), sw_buffer := []\<rparr>"
      using st by (simp_all add: fl index_of_snoc)
    from True st have "fold pack_entry (es @ [(k, v)]) ([], []) = (bs @ [cur], [(k, v)])"
      by (simp add: p entry_size_image)
    moreover from assms(1) True fb have "t' = t" by (auto simp: sst_add_def Let_def)
    moreover from assms(1) True fb
    have "w' = w1\<lparr>current_block_first_key := k, current_block_start_offset := current_file_offset w1,
       sw_buffer := entry_image (k, v), sw_bloom := bloom_add (sw_bloom w) k,
       sw_highest_sequence := max_seq (es @ [(k, v)]), sw_entry_count := sw_entry_count w + 1\<rparr>"
      using st by (auto simp: sst_add_def Let_def encode_entry_image w1 max_seq_snoc)
    ultimately show ?thesis
      using st wr by (simp add: sw_state_def sw_flushed_def w1 block_first_key_def)
  next
    case False
    with assms(1) have t: "t = s" and w': "w' = w\<lparr>current_block_first_key := block_first_key (cur @ [(k, v)]),
       sw_buffer := sw_buffer w @ entry_image (k, v), sw_bloom := bloom_add (sw_bloom w) k,
       sw_highest_sequence := max_seq (es @ [(k, v)]), sw_entry_count := sw_entry_count w + 1\<rparr>"
      using st by (auto simp: sst_add_def Let_def encode_entry_image max_seq_snoc block_first_key_def)
    from False st have "fold pack_entry (es @ [(k, v)]) ([], []) = (bs, cur @ [(k, v)])"
      by (simp add: p entry_size_image)
    then show ?thesis
      using st assms(2) [unfolded fl] by (simp add: sw_state_def sw_flushed_def t w')
  qed
qed

lemma sst_add_all_state:
  assumes "sst_add_all (s, w) xs = (Inr u, (t, w'))" and "wrote s0 (sw_fh w) (sw_flushed es) s"
    and "appendable s0 (sw_fh w)" and "sw_state f0 es w"
  shows "wrote s0 (sw_fh w) (sw_flushed (es @ xs)) t \<and> sw_state f0 (es @ xs) w'
     \<and> sw_fh w' = sw_fh w \<and> sw_path w' = sw_path w"
  using assms
proof (induction xs arbitrary: s w es)
  case (Cons e xs)
  obtain k v where e: "e = (k, v)" by (cases e)
  with Cons.prems(1) obtain x t1 w1 where a: "sst_add (s, w) k v = (Inr x, (t1, w1))"
      and r: "sst_add_all (t1, w1) xs = (Inr u, (t, w'))"
    by (auto elim!: attempt_eq_InrE)
  from sst_add_state [OF a Cons.prems(2-4)] Cons.IH [OF r, of "es @ [(k, v)]"] Cons.prems(3) e
  show ?case by simp
qed (auto simp: ok_def)

lemma append_whole_ok:
  assumes "append_whole (s, w) xs m = (Inr u, st)" and "wrote s0 (sw_fh w) bs s" and "appendable s0 (sw_fh w)"
  shows "wrote s0 (sw_fh w) (bs @ xs) (fst st) \<and> snd st = w"
  using assms by (auto simp: append_whole_def split: prod.splits sum.splits if_splits dest: wrote_append)

lemma wrote_sync:
  assumes "wrote s0 fh bs s" and "posix_sync_all s fh = (Inr u, t)" and "posix_sync_directory t d = (Inr u', r)"
  shows "\<exists>a. r = (fs_sync (fs_append s0 fh bs) fh)\<lparr>answers := a\<rparr> \<and> (answers s0 = [] \<longrightarrow> a = [])"
proof -
  from assms(1) obtain a where s: "s = (fs_append s0 fh bs)\<lparr>answers := a\<rparr>" and a: "answers s0 = [] \<longrightarrow> a = []"
    unfolding wrote_def by blast
  from assms(2) have "t = (fs_sync (fs_append s0 fh bs) fh)\<lparr>answers := tl a\<rparr>"
    by (auto dest!: posix_sync_all_okD simp: s fs_sync_answers)
  with posix_sync_directory_state [OF assms(3)] a show ?thesis by auto
qed

lemma sst_seal_ok:
  assumes "sst_seal (s, w) footer = (Inr u, (t, w'))" and "wrote s0 (sw_fh w) bs s" and "appendable s0 (sw_fh w)"
  shows "\<exists>a. t = (fs_sync (fs_append s0 (sw_fh w) (bs @ footer)) (sw_fh w))\<lparr>answers := a\<rparr> \<and> (answers s0 = [] \<longrightarrow> a = [])"
proof -
  from assms(1) obtain n s1 u1 s2 u2 where "posix_append s (sw_fh w) footer = (Inr n, s1)"
      and s: "posix_sync_all s1 (sw_fh w) = (Inr u1, s2)" "posix_sync_directory s2 (parent_of (sw_path w)) = (Inr u2, t)"
    by (auto simp: sst_seal_def split: prod.splits sum.splits)
  with wrote_append [OF assms(2,3)] have "wrote s0 (sw_fh w) (bs @ footer) s1" by blast
  from wrote_sync [OF this s] show ?thesis .
qed

lemma sst_finish_state:
  assumes "sst_finish (s, w) = (Inr u, (t, w'))" and "wrote s0 (sw_fh w) (sw_flushed es) s"
    and "appendable s0 (sw_fh w)" and "sw_state f0 es w"
  shows "\<exists>a. t = (fs_sync (fs_append s0 (sw_fh w) (sst_image es (foldl bloom_add f0 (map fst es)))) (sw_fh w))
      \<lparr>answers := a\<rparr> \<and> (answers s0 = [] \<longrightarrow> a = [])"
proof -
  let ?fh = "sw_fh w" and ?f = "foldl bloom_add f0 (map fst es)"
  obtain bs cur where p: "fold pack_entry es ([], []) = (bs, cur)" by (cases "fold pack_entry es ([], [])")
  have fl: "sw_flushed es = block_image (concat bs)" by (simp add: sw_flushed_def p)
  note st = assms(4) [unfolded sw_state_def p prod.case]
  from assms(1) obtain u1 s1 w1 u2 s2 w2 u3 s3 w3 where
      f1: "(if sw_buffer w \<noteq> [] then flush_block (s, w) else (ok (), (s, w))) = (Inr u1, (s1, w1))"
      and f2: "append_whole (s1, w1) (index_buffer (sw_index_entries w1)) ''failed to write index block'' = (Inr u2, (s2, w2))"
      and f3: "append_whole (s2, w2) (filter_buffer (sw_bloom w1)) ''failed to write filter block'' = (Inr u3, (s3, w3))"
      and f4: "sst_seal (s3, w3) (footer_buffer (current_file_offset w1) (length (index_buffer (sw_index_entries w1)))
          (length (filter_buffer (sw_bloom w1))) (sw_entry_count w1) (sw_highest_sequence w1)
          (current_file_offset w1 + length (index_buffer (sw_index_entries w1)) + length (filter_buffer (sw_bloom w1)) + FOOTER_SIZE))
          = (Inr u, (t, w'))"
    by (auto simp: sst_finish_def Let_def elim!: attempt_eq_InrE)
  have w1: "wrote s0 ?fh (block_image es) s1" "sw_fh w1 = ?fh"
      "sw_index_entries w1 = index_of 0 (sst_blocks es)" "current_file_offset w1 = length (block_image es)"
      "sw_bloom w1 = ?f" "sw_highest_sequence w1 = max_seq es" "sw_entry_count w1 = length es"
    using f1 st assms(2,3) concat_pack [OF p] flush_block_ok [of s w u1 s1 w1 s0 "sw_flushed es"]
    by (auto simp: sst_blocks_def p index_of_snoc fl split: if_splits)
  have idx: "index_buffer (index_of 0 (sst_blocks es)) = index_image es"
    by (simp add: index_buffer_image index_image_def)
  from append_whole_ok [OF f2, of s0 "block_image es"] w1 assms(3)
  have s2: "wrote s0 ?fh (block_image es @ index_image es) s2" "w2 = w1" by (simp_all add: idx)
  from append_whole_ok [OF f3, of s0 "block_image es @ index_image es"] s2 w1 assms(3)
  have s3: "wrote s0 ?fh (block_image es @ index_image es @ filter_image ?f) s3" "w3 = w1"
    by (simp_all add: filter_buffer_image)
  from sst_seal_ok [OF f4, of s0 "block_image es @ index_image es @ filter_image ?f"] s3 w1 assms(3) show ?thesis
    by (simp add: idx filter_buffer_image footer_buffer_image sst_image_def Let_def)
qed

section \<open>Without faults every step succeeds\<close>

lemma flush_block_quiet:
  assumes "wrote s0 (sw_fh w) bs s" and "appendable s0 (sw_fh w)" and "answers s0 = []"
  shows "\<exists>st. flush_block (s, w) = (Inr (), st)"
  using wrote_quiet(1) [OF assms] by (simp add: flush_block_def ok_def)

lemma sst_add_quiet:
  assumes "wrote s0 (sw_fh w) bs s" and "appendable s0 (sw_fh w)" and "answers s0 = []"
  shows "\<exists>st. sst_add (s, w) k v = (Inr (), st)"
  using flush_block_quiet [OF assms]
  by (cases "length (sw_buffer w) + entry_size k v > MAX_PAGING_SIZE_BYTES")
    (auto simp: sst_add_def Let_def ok_def split: prod.splits)

lemma sst_add_all_quiet:
  assumes "wrote s0 (sw_fh w) (sw_flushed es) s" and "appendable s0 (sw_fh w)" and "answers s0 = []"
    and "sw_state f0 es w"
  shows "\<exists>t w'. sst_add_all (s, w) xs = (Inr (), (t, w'))"
  using assms
proof (induction xs arbitrary: s w es)
  case (Cons e xs)
  obtain k v where e: "e = (k, v)" by (cases e)
  from sst_add_quiet [OF Cons.prems(1-3), of k v] obtain t1 w1 where a: "sst_add (s, w) k v = (Inr (), (t1, w1))"
    by auto
  from sst_add_state [OF a Cons.prems(1,2,4)] Cons.IH [where es = "es @ [(k, v)]" and w = w1 and s = t1] Cons.prems(2,3)
  show ?case by (auto simp: e a)
qed (simp add: ok_def)

lemma is_directory_fs [simp]:
  "is_directory (fs_append s fh bs) d = is_directory s d" "is_directory (fs_sync s fh) d = is_directory s d"
  by (simp_all add: is_directory_def fs_append_def fs_sync_def split: option.splits)

lemma append_whole_quiet:
  assumes "wrote s0 (sw_fh w) bs s" and "appendable s0 (sw_fh w)" and "answers s0 = []"
  shows "append_whole (s, w) xs m = (Inr (), (fs_append s (sw_fh w) xs, w))"
  using wrote_quiet(1) [OF assms] by (simp add: append_whole_def ok_def)

lemma sst_seal_quiet:
  assumes "wrote s0 (sw_fh w) bs s" and "appendable s0 (sw_fh w)" and "answers s0 = []"
    and "is_directory s0 (parent_of (sw_path w))"
  shows "\<exists>t. sst_seal (s, w) footer = (Inr (), (t, w))"
proof -
  let ?t = "fs_append s (sw_fh w) footer"
  note q = wrote_quiet [OF assms(1-3)]
  from assms(2) have "view s0 (sw_fh w) \<noteq> None" by (auto simp: appendable_def view_def split: option.splits)
  then have "posix_sync_all ?t (sw_fh w) = (ok (), fs_sync ?t (sw_fh w))"
    using assms(2,3) by (intro posix_sync_all_ok) (simp_all add: q(2))
  then show ?thesis
    using assms(3,4) by (simp add: sst_seal_def q(1) ok_def) (simp add: q(2) posix_sync_directory_ok ok_def)
qed

lemma sst_finish_quiet:
  assumes "wrote s0 (sw_fh w) bs s" and "appendable s0 (sw_fh w)" and "answers s0 = []"
    and "is_directory s0 (parent_of (sw_path w))"
  shows "\<exists>t w'. sst_finish (s, w) = (Inr (), (t, w'))"
proof -
  obtain s1 w1 bs1 where f1: "(if sw_buffer w \<noteq> [] then flush_block (s, w) else (ok (), (s, w))) = (Inr (), (s1, w1))"
      and w1: "wrote s0 (sw_fh w) bs1 s1" "sw_fh w1 = sw_fh w" "sw_path w1 = sw_path w"
  proof (cases "sw_buffer w = []")
    case True
    then show thesis using assms(1) that [of s w bs] by (simp add: ok_def)
  next
    case False
    from flush_block_quiet [OF assms(1-3)] obtain s1 w1 where f: "flush_block (s, w) = (Inr (), (s1, w1))" by auto
    from flush_block_ok [OF this assms(1,2)] False f show thesis
      by (intro that [of s1 w1 "bs @ sw_buffer w"]) simp_all
  qed
  have step: "wrote s0 (sw_fh w1) (b @ xs) (fs_append r (sw_fh w1) xs)" if "wrote s0 (sw_fh w1) b r" for b r xs
    using that assms(2,3) w1(2) wrote_append [OF that, of xs] wrote_quiet(1) [OF that] by (simp add: ok_def)
  let ?s2 = "\<lambda>xs. fs_append s1 (sw_fh w1) xs" and ?s3 = "\<lambda>xs ys. fs_append (fs_append s1 (sw_fh w1) xs) (sw_fh w1) ys"
  have a: "wrote s0 (sw_fh w1) bs1 s1" "appendable s0 (sw_fh w1)" using w1 assms(2) by simp_all
  have "\<exists>t. sst_seal (?s3 xs ys, w1) f = (Inr (), (t, w1))" for xs ys f
    using step [OF step [OF a(1)]] a(2) assms(3,4) w1 by (intro sst_seal_quiet) (simp_all del: fs_append_append)
  then show ?thesis
    unfolding sst_finish_def snd_conv f1 attempt_Inr Let_def
    using append_whole_quiet [OF a assms(3)] append_whole_quiet [OF step [OF a(1)] a(2) assms(3)]
    by (simp del: fs_append_append) blast
qed

text \<open>The whole life of a table file, from an empty file on.\<close>

lemma sst_write_quiet:
  assumes "appendable s (sw_fh w)" and "answers s = []" and "sw_state f0 [] w"
    and "is_directory s (parent_of (sw_path w))"
  shows "\<exists>st w'. sst_add_all (s, w) es = (Inr (), st) \<and> sst_finish st
     = (Inr (), (fs_sync (fs_append s (sw_fh w) (sst_image es (foldl bloom_add f0 (map fst es)))) (sw_fh w), w'))"
proof -
  let ?t = "fs_sync (fs_append s (sw_fh w) (sst_image es (foldl bloom_add f0 (map fst es)))) (sw_fh w)"
  have w0: "wrote s (sw_fh w) (sw_flushed []) s" by (simp add: sw_flushed_def)
  from sst_add_all_quiet [OF w0 assms(1-3)] obtain t w1 where a: "sst_add_all (s, w) es = (Inr (), (t, w1))" by blast
  from sst_add_all_state [OF a w0 assms(1,3)]
  have t: "wrote s (sw_fh w1) (sw_flushed es) t" "sw_state f0 es w1" "sw_fh w1 = sw_fh w" "sw_path w1 = sw_path w"
    by simp_all
  from sst_finish_quiet [OF t(1)] t(3,4) assms obtain r w' where f: "sst_finish (t, w1) = (Inr (), (r, w'))" by auto
  from sst_finish_state [OF f t(1) _ t(2)] t(3) assms(1,2) have "r = ?t\<lparr>answers := []\<rparr>" by simp
  moreover have "?t\<lparr>answers := []\<rparr> = ?t" using assms(2) by (intro answers_same) simp
  ultimately have "r = ?t" by (rule trans)
  with a f show ?thesis by blast
qed

section \<open>Properties\<close>

text \<open>
  C11. Under every schedule of faults and short writes, a new writer on an empty file that
  reports success for all its additions and for finish has put exactly the byte image of its
  entries (blocks, index, filter, footer) into the file, and that image is durable.
\<close>

theorem sst_writer_image:
  assumes "appendable s (sw_fh w)" and "view s (sw_fh w) = Some []" and "sw_state f0 [] w"
    and "sst_add_all (s, w) es = (ok (), st)" and "sst_finish st = (ok (), (t, w'))"
  shows "view t (sw_fh w) = Some (sst_image es (foldl bloom_add f0 (map fst es)))
       \<and> durable_view t (sw_fh w) = view t (sw_fh w)"
proof -
  obtain r w1 where st: "st = (r, w1)" by (cases st)
  have w0: "wrote s (sw_fh w) (sw_flushed []) s" by (simp add: sw_flushed_def)
  from sst_add_all_state [OF _ w0 assms(1,3)] assms(4)
  have r: "wrote s (sw_fh w1) (sw_flushed es) r" "sw_state f0 es w1" "sw_fh w1 = sw_fh w"
    by (auto simp: st ok_def)
  from sst_finish_state [of r w1 "()" t w' s es f0] assms(1,5) r obtain a where
    "t = (fs_sync (fs_append s (sw_fh w) (sst_image es (foldl bloom_add f0 (map fst es)))) (sw_fh w))\<lparr>answers := a\<rparr>"
    by (auto simp: st ok_def)
  with assms(1,2) show ?thesis by simp
qed

theorem sst_writer_image_witness:
  "\<exists>w st t w'. sst_add_all (demo_fs Write [], w) [(Key [1], \<lparr>data = [2], is_tombstone = False, sequence = 3\<rparr>)] = (ok (), st)
     \<and> sst_finish st = (ok (), (t, w'))
     \<and> view t (sw_fh w) = Some (sst_image [(Key [1], \<lparr>data = [2], is_tombstone = False, sequence = 3\<rparr>)] (bloom_add (sw_bloom w) (Key [1])))"
proof -
  let ?es = "[(Key [1], \<lparr>data = [2], is_tombstone = False, sequence = 3\<rparr>)]"
  define f0 where "f0 = \<lparr>bit_count = 8, num_hashes = 1, bit_array = [0]\<rparr>"
  define w where "w = \<lparr>sw_fh = FileHandle 0, sw_path = ''d/f'', sw_buffer = [], current_block_first_key = Key [],
      current_file_offset = 0, current_block_start_offset = 0, sw_bloom = f0,
      sw_highest_sequence = 0, sw_index_entries = [], sw_entry_count = 0\<rparr>"
  have a: "appendable (demo_fs Write []) (sw_fh w)" "view (demo_fs Write []) (sw_fh w) = Some []" "sw_state f0 [] w"
    by (simp_all add: w_def demo_fs_handle sw_state_def block_first_key_def max_seq_def)
  have "is_directory (demo_fs Write []) (parent_of (sw_path w))"
    by (simp add: w_def demo_fs_def fs_empty_def is_directory_def parent_of_def)
  from sst_write_quiet [OF a(1) _ a(3) this, of ?es] obtain st t w' where
      "sst_add_all (demo_fs Write [], w) ?es = (ok (), st)" "sst_finish st = (ok (), (t, w'))"
    by (auto simp: demo_fs_handle ok_def)
  moreover from sst_writer_image [OF a this] have "view t (sw_fh w) = Some (sst_image ?es (bloom_add (sw_bloom w) (Key [1])))"
    by (simp add: w_def)
  ultimately show ?thesis by (intro exI [of _ w] exI [of _ st] exI [of _ t] exI [of _ w'] conjI)
qed

end
