(* ===== verification/Ordered_Map.thy ===== *)
theory Ordered_Map
  imports Prelude
begin

text \<open>
  \<open>std::map\<close> as the program uses it: iteration in key order, \<open>find\<close>, \<open>m[k] = v\<close> and
  \<open>erase\<close>. The locale states what clients rely on; the implementation is an association list
  sorted by key, the sequence a \<open>std::map\<close> iterator walks through.
\<close>

fun map_assign :: "'k::linorder \<Rightarrow> 'v \<Rightarrow> ('k \<times> 'v) list \<Rightarrow> ('k \<times> 'v) list" where
  "map_assign k v [] = [(k, v)]"
| "map_assign k v ((k', v') # m) =
     (if k < k' then (k, v) # (k', v') # m
      else if k = k' then (k, v) # m
      else (k', v') # map_assign k v m)"

definition map_erase :: "'k \<Rightarrow> ('k \<times> 'v) list \<Rightarrow> ('k \<times> 'v) list" where
  "map_erase k m = filter (\<lambda>(k', _). k' \<noteq> k) m"

definition map_find :: "('k \<times> 'v) list \<Rightarrow> 'k \<Rightarrow> 'v option" where
  "map_find m k = map_of m k"

abbreviation ordered :: "('k::linorder \<times> 'v) list \<Rightarrow> bool" where
  "ordered m \<equiv> sorted_wrt (<) (map fst m)"

locale std_map =
  fixes empty :: "'m"
    and assign :: "'k::linorder \<Rightarrow> 'v \<Rightarrow> 'm \<Rightarrow> 'm"
    and erase :: "'k \<Rightarrow> 'm \<Rightarrow> 'm"
    and find :: "'m \<Rightarrow> 'k \<Rightarrow> 'v option"
    and walk :: "'m \<Rightarrow> ('k \<times> 'v) list"
    and invar :: "'m \<Rightarrow> bool"
  assumes find_empty: "find empty k = None"
    and find_assign: "invar m \<Longrightarrow> find (assign k v m) = (find m)(k \<mapsto> v)"
    and find_erase: "invar m \<Longrightarrow> find (erase k m) = (find m)(k := None)"
    and walk_find: "invar m \<Longrightarrow> map_of (walk m) = find m"
    and walk_sorted: "invar m \<Longrightarrow> sorted_wrt (<) (map fst (walk m))"
    and invar_empty: "invar empty"
    and invar_assign: "invar m \<Longrightarrow> invar (assign k v m)"
    and invar_erase: "invar m \<Longrightarrow> invar (erase k m)"
begin

lemma fold_assign:
  "invar m \<Longrightarrow> invar (fold (\<lambda>(k, v). assign k v) kvs m) \<and>
   find (fold (\<lambda>(k, v). assign k v) kvs m) = find m ++ map_of (rev kvs)"
proof (induction kvs arbitrary: m)
  case (Cons kv kvs)
  obtain k v where "kv = (k, v)" by (cases kv)
  with Cons show ?case by (simp add: invar_assign find_assign fun_upd_def map_add_def fun_eq_iff split: option.splits)
qed simp

lemma fold_erase:
  "invar m \<Longrightarrow> invar (fold erase ks m) \<and> find (fold erase ks m) = find m |` (- set ks)"
proof (induction ks arbitrary: m)
  case (Cons k ks)
  then show ?case by (auto simp: invar_erase find_erase restrict_map_def fun_eq_iff)
qed (simp add: restrict_map_def)

lemma walk_distinct: "invar m \<Longrightarrow> distinct (map fst (walk m))"
  using walk_sorted by (simp add: strict_sorted_iff)

lemma mem_walk_iff: "invar m \<Longrightarrow> (k, v) \<in> set (walk m) \<longleftrightarrow> find m k = Some v"
  by (metis walk_distinct walk_find map_of_eq_Some_iff)

lemma walk_keys: "invar m \<Longrightarrow> set (map fst (walk m)) = dom (find m)"
  by (metis dom_map_of_conv_image_fst walk_find set_map)

end

lemma set_map_assign:
  "set (map_assign k v m) \<subseteq> insert (k, v) (set m)" "fst ` set (map_assign k v m) = insert k (fst ` set m)"
  by (induction m rule: map_assign.induct) auto

lemma ordered_assign: "ordered m \<Longrightarrow> ordered (map_assign k v m)"
  by (induction k v m rule: map_assign.induct) (auto simp: set_map_assign)

lemma map_of_assign: "map_of (map_assign k v m) = (map_of m)(k \<mapsto> v)"
  by (induction k v m rule: map_assign.induct) (auto simp: fun_upd_twist)

lemma map_of_erase: "map_of (map_erase k m) = (map_of m)(k := None)"
  by (induction m) (auto simp: map_erase_def fun_upd_twist)

lemma ordered_erase: "ordered m \<Longrightarrow> ordered (map_erase k m)"
  by (induction m) (auto simp: map_erase_def)

interpretation omap: std_map "[]" map_assign map_erase map_find "\<lambda>m. m" ordered
  by unfold_locales
    (simp_all add: map_find_def [abs_def] map_of_assign map_of_erase ordered_assign ordered_erase)

end
