(* ===== verification/Sstable_Reader.thy ===== *)
theory Sstable_Reader
  imports Sstable_Writer Ordered_Map
begin

text \<open>
  sstable_reader.cpp: opening a table file (footer validation, index and filter loading) and the
  point lookup. A reader opened on the image of a sorted table finds exactly the entries of the
  table. A read outside a buffer is an \<open>Abort\<close>; the sums of 32-bit block sizes wrap.
\<close>

record SSTableReader =
  sr_fh :: FileHandle
  sr_path :: string
  sr_index_entries :: "IndexEntry list"
  sr_bloom :: BloomFilter
  sr_footer :: SSTFooter
  sr_memory_usage :: nat

section \<open>Opening\<close>

definition decode_footer :: "bytes \<Rightarrow> SSTFooter" where
  "decode_footer b =
     \<lparr>index_block_offset = decode_uint64 b 0, index_block_size = decode_uint32 b 8,
      filter_block_offset = decode_uint64 b 12, filter_block_size = decode_uint32 b 20,
      footer_entry_count = decode_uint32 b 24, format_version = decode_uint16 b 28,
      highest_sequence = decode_uint64 b 30, footer_size_bytes = decode_uint64 b 38\<rparr>"

function read_index :: "bytes \<Rightarrow> nat \<Rightarrow> nat \<Rightarrow> (IndexEntry list \<times> nat) result" where
  "read_index buffer bsize offset =
     (if offset < bsize then
        if offset + 4 > bsize then err READ_OUT_OF_RANGE ''key read out of range''
        else if offset + 4 > length buffer then abort ''read outside the index buffer''
        else
          let key_len = unat (decode_uint32 buffer offset) in
          if offset + 4 + key_len + 8 + 4 > bsize then err READ_OUT_OF_RANGE ''index entry out of range''
          else if offset + 4 + key_len + 8 + 4 > length buffer then abort ''read outside the index buffer''
          else
            (case read_index buffer bsize (offset + 4 + key_len + 8 + 4) of
               Inl e \<Rightarrow> Inl e
             | Inr (es, off) \<Rightarrow>
                 ok (\<lparr>first_key = Key (take key_len (drop (offset + 4) buffer)),
                      block_offset = unat (decode_uint64 buffer (offset + 4 + key_len)),
                      block_size = unat (decode_uint32 buffer (offset + 4 + key_len + 8))\<rparr> # es, off))
      else ok ([], offset))"
  by pat_completeness auto
termination by (relation "measure (\<lambda>(b, n, off). n - off)") auto

declare read_index.simps [simp del]

text \<open>
  The memory estimate charges the capacity of the index vector, which \<open>push_back\<close> doubles, and
  the sizes of the two structs on a 64-bit platform.
\<close>

fun vector_capacity :: "nat \<Rightarrow> nat" where
  "vector_capacity n = (if n \<le> 1 then n else 2 * vector_capacity ((n + 1) div 2))"

declare vector_capacity.simps [simp del]

definition sizeof_IndexEntry :: nat where "sizeof_IndexEntry = 40"
definition sizeof_SSTFooter :: nat where "sizeof_SSTFooter = 48"

definition read_blocks :: "fs \<Rightarrow> FileHandle \<Rightarrow> string \<Rightarrow> SSTFooter \<Rightarrow> SSTableReader result \<times> fs" where
  "read_blocks s fh path footer =
     (let bsize = unat (index_block_size footer + filter_block_size footer) in
      attempt (posix_read s fh bsize (replicate bsize 0) (unat (index_block_offset footer))) (\<lambda>(_, buffer) s.
        case read_index buffer (unat (index_block_size footer)) 0 of
          Inl e \<Rightarrow> (Inl e, s)
        | Inr (index_entries, offset) \<Rightarrow>
            if offset + unat (filter_block_size footer) > length buffer
            then (abort ''read outside the index buffer'', s)
            else
              let hashes = decode_uint8 buffer offset;
                  bits = take (unat (filter_block_size footer) - 1) (drop (offset + 1) buffer);
                  mem_consume = vector_capacity (length index_entries) * sizeof_IndexEntry
                    + unat (filter_block_size footer) + length path + sizeof_SSTFooter
                    + sum_list (map (key_size \<circ> first_key) index_entries)
              in (ok \<lparr>sr_fh = fh, sr_path = path, sr_index_entries = index_entries,
                      sr_bloom = BloomFilter_load bits hashes, sr_footer = footer,
                      sr_memory_usage = mem_consume\<rparr>, s)))"

definition SSTableReader_create :: "fs \<Rightarrow> string \<Rightarrow> SSTableReader result \<times> fs" where
  "SSTableReader_create s path =
     attempt (posix_open s path Read) (\<lambda>fh s.
     attempt (posix_file_size s fh) (\<lambda>file_size s.
       if file_size < FOOTER_SIZE then (err BAD_CONFIG ''file too small for SSTable'', s)
       else
         attempt (posix_read s fh FOOTER_SIZE (replicate FOOTER_SIZE 0) (file_size - FOOTER_SIZE))
           (\<lambda>(_, footer_buffer) s.
              if take MAGIC_SIZE (drop MAGIC_BYTES_OFFSET footer_buffer) \<noteq> MAGIC
              then (err BAD_MAGIC ''invalid magic'', s)
              else if decode_uint32 footer_buffer FOOTER_CHECKSUM_OFFSET
                      \<noteq> compute_crc_32 (take FOOTER_CHECKSUM_OFFSET footer_buffer)
              then (err BAD_CONFIG ''invalid checksum'', s)
              else
                let footer = decode_footer footer_buffer in
                if filter_block_size footer < 2 then (err BAD_CONFIG ''invalid filter block size'', s)
                else read_blocks s fh path footer)))"

section \<open>Lookup\<close>

text \<open>\<open>std::upper_bound\<close> on the first keys of the index: bisection of a range given by its start and length.\<close>

function upper_bound_from :: "IndexEntry list \<Rightarrow> Key \<Rightarrow> nat \<Rightarrow> nat \<Rightarrow> nat" where
  "upper_bound_from es key first len =
     (if len > 0 then
        let half = len div 2; middle = first + half in
        if key < first_key (es ! middle) then upper_bound_from es key first half
        else upper_bound_from es key (middle + 1) (len - half - 1)
      else first)"
  by pat_completeness auto
termination by (relation "measure (\<lambda>(es, k, first, len). len)") auto

declare upper_bound_from.simps [simp del]

definition upper_bound :: "IndexEntry list \<Rightarrow> Key \<Rightarrow> nat" where
  "upper_bound es key = upper_bound_from es key 0 (length es)"

function scan_block :: "bytes \<Rightarrow> nat \<Rightarrow> Key \<Rightarrow> nat \<Rightarrow> InternalValue option result" where
  "scan_block buffer bsize key block_off =
     (if block_off < bsize then
        if block_off + 4 > bsize then err BAD_FILE ''out of range read for key len''
        else
          let key_len = unat (decode_uint32 buffer block_off); koff = block_off + 4 in
          if koff + key_len > bsize then err BAD_FILE ''out of range read for key''
          else
            let entry_key = Key (take key_len (drop koff buffer)); off = koff + key_len in
            if off + 4 > bsize then err BAD_FILE ''out of range read for value len''
            else
              let value_len = unat (decode_uint32 buffer off); voff = off + 4 in
              if voff + value_len > bsize then err BAD_FILE ''out of range read for value''
              else if key = entry_key then
                let current_value = take value_len (drop voff buffer); toff = voff + value_len in
                if toff + 1 > bsize then err BAD_FILE ''out of range read for tombstone''
                else
                  let tombstone = decode_uint8 buffer toff in
                  if toff + 1 + 8 > bsize then err BAD_FILE ''out of range read for sequence''
                  else ok (Some \<lparr>data = current_value, is_tombstone = (tombstone \<noteq> 0),
                                 sequence = decode_uint64 buffer (toff + 1)\<rparr>)
              else if key < entry_key then ok None
              else if voff + value_len + 9 > bsize then err UNEXPECTED_ERR ''Truncated entry.''
              else scan_block buffer bsize key (voff + value_len + 9)
      else ok None)"
  by pat_completeness auto
termination by (relation "measure (\<lambda>(b, n, k, off). n - off)") auto

declare scan_block.simps [simp del]

definition sst_get :: "fs \<Rightarrow> SSTableReader \<Rightarrow> Key \<Rightarrow> InternalValue option result \<times> fs" where
  "sst_get s reader key =
     (if \<not> may_contain (sr_bloom reader) key then (ok None, s)
      else
        let it = upper_bound (sr_index_entries reader) key in
        if it = 0 then (ok None, s)
        else
          let entry = sr_index_entries reader ! (it - 1); n = block_size entry in
          attempt (posix_read s (sr_fh reader) n (replicate n 0) (block_offset entry))
            (\<lambda>(_, block_buffer) s. (scan_block block_buffer n key 0, s)))"

section \<open>Reading the image of an entry\<close>

lemma entry_fields:
  fixes k v pre rest
  defines "b \<equiv> pre @ entry_image (k, v) @ rest" and "p \<equiv> length pre"
  shows "decode_uint32 b p = word_of_nat (key_size k)"
    and "take (key_size k) (drop (p + 4) b) = key_bytes k"
    and "decode_uint32 b (p + 4 + key_size k) = word_of_nat (length (data v))"
    and "take (length (data v)) (drop (p + 4 + key_size k + 4) b) = data v"
    and "decode_uint8 b (p + 4 + key_size k + 4 + length (data v)) = of_bool (is_tombstone v)"
    and "decode_uint64 b (p + 4 + key_size k + 4 + length (data v) + 1) = sequence v"
proof -
  let ?kl = "be 4 (word_of_nat (key_size k) :: u32)" and ?vl = "be 4 (word_of_nat (length (data v)) :: u32)"
  let ?q = "pre @ ?kl @ key_bytes k @ ?vl @ data v"
  have b: "b = pre @ ?kl @ key_bytes k @ ?vl @ data v @ of_bool (is_tombstone v) # be 8 (sequence v) @ rest"
    by (simp add: b_def entry_image_def)
  show "decode_uint32 b p = word_of_nat (key_size k)"
    and "decode_uint32 b (p + 4 + key_size k) = word_of_nat (length (data v))"
    by (rule codec_simps; simp add: b p_def key_size_def)+
  show "take (key_size k) (drop (p + 4) b) = key_bytes k"
    and "take (length (data v)) (drop (p + 4 + key_size k + 4) b) = data v"
    by (simp_all add: b p_def key_size_def)
  have q: "b = ?q @ [of_bool (is_tombstone v)] @ be 8 (sequence v) @ rest"
      and l: "length ?q = p + 4 + key_size k + 4 + length (data v)"
    by (simp_all add: b p_def key_size_def)
  show "decode_uint8 b (p + 4 + key_size k + 4 + length (data v)) = of_bool (is_tombstone v)"
    unfolding l [symmetric] by (rule codec_simps) (simp_all add: q del: append_assoc)
  show "decode_uint64 b (p + 4 + key_size k + 4 + length (data v) + 1) = sequence v"
    unfolding l [symmetric] by (rule codec_simps) (simp_all add: q del: append_assoc)
qed

lemma entry_value_eq:
  "\<lparr>data = data v, is_tombstone = (of_bool (is_tombstone v) \<noteq> (0 :: u8)), sequence = sequence v\<rparr> = v"
  by (cases v) simp

lemma entry_lengths:
  assumes "length (entry_image (k, v)) < 2 ^ 32"
  shows "unat (word_of_nat (key_size k) :: u32) = key_size k"
    and "unat (word_of_nat (length (data v)) :: u32) = length (data v)"
  using assms by (auto simp: length_entry_image intro!: unat_word_of_nat_eq)

lemma scan_block_step:
  fixes pre rest k v
  defines "b \<equiv> pre @ entry_image (k, v) @ rest" and "p \<equiv> length pre"
  assumes "length (entry_image (k, v)) < 2 ^ 32" and "length pre + length (entry_image (k, v)) \<le> n"
  shows "scan_block b n key p =
      (if key = k then ok (Some v) else if key < k then ok None
       else scan_block b n key (p + length (entry_image (k, v))))"
proof -
  note f = entry_fields [where pre = pre and k = k and v = v and rest = rest, folded b_def p_def]
    and u = entry_lengths [OF assms(3)]
  have n: "p + 4 + key_size k + 4 + length (data v) + 9 \<le> n" "p < n"
    using assms(4) by (simp_all add: p_def length_entry_image)
  have c: "(p < n) = True" "(p + 4 > n) = False" "(p + 4 + key_size k > n) = False" "(p + 4 + key_size k + 4 > n) = False"
      "(p + 4 + key_size k + 4 + length (data v) > n) = False"
      "(p + 4 + key_size k + 4 + length (data v) + 1 > n) = False"
      "(p + 4 + key_size k + 4 + length (data v) + 1 + 8 > n) = False"
      "(p + 4 + key_size k + 4 + length (data v) + 9 > n) = False"
    using n by simp_all
  have e: "p + length (entry_image (k, v)) = p + 4 + key_size k + 4 + length (data v) + 9"
    by (simp add: length_entry_image)
  show ?thesis
    unfolding e by (subst scan_block.simps) (simp only: Let_def f u c if_True if_False Key.collapse entry_value_eq)
qed

lemma scan_block_image:
  assumes "\<forall>e \<in> set es. length (entry_image e) < 2 ^ 32" and "ordered es"
  shows "scan_block (pre @ block_image es) (length pre + length (block_image es)) key (length pre)
       = ok (map_of es key)"
  using assms
proof (induction es arbitrary: pre)
  case Nil
  then show ?case by (subst scan_block.simps) simp
next
  case (Cons e es)
  obtain k v where e: "e = (k, v)" by (cases e)
  let ?b = "pre @ entry_image (k, v) @ block_image es" and ?n = "length pre + length (block_image (e # es))"
  have ord: "ordered es" using Cons.prems(2) by (cases es) auto
  have "scan_block ?b ?n key (length pre + length (entry_image (k, v))) = ok (map_of es key)"
    using Cons.IH [of "pre @ entry_image e", OF _ ord] Cons.prems(1) by (simp add: e add.assoc)
  moreover have "map_of es key = None" if "key < k"
    using that Cons.prems(2) e by (auto simp: map_of_eq_None_iff)
  moreover have "scan_block ?b ?n key (length pre) =
      (if key = k then ok (Some v) else if key < k then ok None
       else scan_block ?b ?n key (length pre + length (entry_image (k, v))))"
    using Cons.prems(1) by (intro scan_block_step) (simp_all add: e)
  ultimately show ?case by (auto simp: e)
qed

section \<open>Reading the index\<close>

definition index_entry_fits :: "IndexEntry \<Rightarrow> bool" where
  "index_entry_fits e \<longleftrightarrow> key_size (first_key e) < 2 ^ 32 \<and> block_offset e < 2 ^ 64 \<and> block_size e < 2 ^ 32"

lemma length_index_entry_image: "length (index_entry_image e) = 16 + key_size (first_key e)"
  by (simp add: index_entry_image_def key_size_def)

lemma index_fields:
  fixes e pre rest
  defines "b \<equiv> pre @ index_entry_image e @ rest" and "p \<equiv> length pre" and "n \<equiv> key_size (first_key e)"
  shows "decode_uint32 b p = word_of_nat n"
    and "take n (drop (p + 4) b) = key_bytes (first_key e)"
    and "decode_uint64 b (p + 4 + n) = word_of_nat (block_offset e)"
    and "decode_uint32 b (p + 4 + n + 8) = word_of_nat (block_size e)"
proof -
  have b: "b = pre @ be 4 (word_of_nat n :: u32) @ key_bytes (first_key e)
     @ be 8 (word_of_nat (block_offset e) :: u64) @ be 4 (word_of_nat (block_size e) :: u32) @ rest"
    by (simp add: b_def index_entry_image_def n_def)
  show "take n (drop (p + 4) b) = key_bytes (first_key e)" by (simp add: b p_def n_def key_size_def)
  show "decode_uint32 b p = word_of_nat n" "decode_uint64 b (p + 4 + n) = word_of_nat (block_offset e)"
      "decode_uint32 b (p + 4 + n + 8) = word_of_nat (block_size e)"
    by (rule codec_simps; simp add: b p_def n_def key_size_def)+
qed

lemma read_index_image:
  assumes "\<forall>e \<in> set es. index_entry_fits e"
  shows "read_index (pre @ concat (map index_entry_image es) @ rest)
      (length pre + length (concat (map index_entry_image es))) (length pre)
     = ok (es, length pre + length (concat (map index_entry_image es)))"
  using assms
proof (induction es arbitrary: pre)
  case Nil
  then show ?case by (subst read_index.simps) simp
next
  case (Cons e es)
  let ?is = "concat (map index_entry_image es)" and ?k = "key_size (first_key e)"
  let ?b = "pre @ index_entry_image e @ (?is @ rest)" and ?p = "length pre"
  let ?n = "?p + length (index_entry_image e) + length ?is"
  note f = index_fields [where pre = pre and e = e and rest = "?is @ rest"]
  from Cons.prems have u: "unat (word_of_nat ?k :: u32) = ?k"
      "unat (word_of_nat (block_offset e) :: u64) = block_offset e"
      "unat (word_of_nat (block_size e) :: u32) = block_size e"
    by (auto simp: index_entry_fits_def intro!: unat_word_of_nat_eq)
  have c: "(?p < ?n) = True" "(?p + 4 > ?n) = False" "(?p + 4 > length ?b) = False"
      "(?p + 4 + ?k + 8 + 4 > ?n) = False" "(?p + 4 + ?k + 8 + 4 > length ?b) = False"
    by (simp_all add: length_index_entry_image)
  have "?p + 4 + ?k + 8 + 4 = length (pre @ index_entry_image e)" by (simp add: length_index_entry_image)
  then have ih: "read_index ?b ?n (?p + 4 + ?k + 8 + 4) = ok (es, ?n)"
    using Cons.IH [of "pre @ index_entry_image e"] Cons.prems by (simp add: add.assoc)
  have "read_index ?b ?n ?p = ok (e # es, ?n)"
    by (subst read_index.simps) (simp only: Let_def f u c ih if_True if_False ok_def sum.case prod.case Key.collapse, simp)
  then show ?case by (simp add: add.assoc)
qed

section \<open>Finding the block\<close>

lemma upper_bound_from_spec:
  assumes "sorted (map first_key es)" and "first + len \<le> length es"
    and "\<forall>i < first. first_key (es ! i) \<le> key"
    and "\<forall>i. first + len \<le> i \<longrightarrow> i < length es \<longrightarrow> key < first_key (es ! i)"
  shows "upper_bound_from es key first len \<le> length es
     \<and> (\<forall>i < upper_bound_from es key first len. first_key (es ! i) \<le> key)
     \<and> (\<forall>i. upper_bound_from es key first len \<le> i \<longrightarrow> i < length es \<longrightarrow> key < first_key (es ! i))"
  using assms
proof (induction es key first len rule: upper_bound_from.induct)
  case (1 es key first len)
  let ?m = "first + len div 2"
  have mono: "first_key (es ! i) \<le> first_key (es ! j)" if "i \<le> j" "j < length es" for i j
    using sorted_nth_mono [OF "1.prems"(1), of i j] that by simp
  consider "len = 0" | "len > 0" "key < first_key (es ! ?m)" | "len > 0" "\<not> key < first_key (es ! ?m)" by blast
  then show ?case
  proof cases
    case 1
    then have "upper_bound_from es key first len = first" by (subst upper_bound_from.simps) simp
    with 1 "1.prems" show ?thesis by simp
  next
    case 2
    have above: "\<forall>i. ?m \<le> i \<longrightarrow> i < length es \<longrightarrow> key < first_key (es ! i)"
      by (auto intro: less_le_trans [OF 2(2) mono])
    have eq: "upper_bound_from es key first len = upper_bound_from es key first (len div 2)"
      using 2 by (subst upper_bound_from.simps) (simp add: Let_def)
    show ?thesis unfolding eq
      by (rule "1.IH"(1) [OF 2(1) refl refl 2(2) "1.prems"(1) _ "1.prems"(3) above]) (use "1.prems"(2) in simp)
  next
    case 3
    have "?m < length es" using 3(1) "1.prems"(2) by simp
    then have below: "\<forall>i < ?m + 1. first_key (es ! i) \<le> key"
      using 3(2) by (auto simp: not_less less_Suc_eq_le intro: order.trans [OF mono [of _ ?m]])
    have rest: "?m + 1 + (len - len div 2 - 1) = first + len" using 3(1) by simp
    have eq: "upper_bound_from es key first len = upper_bound_from es key (?m + 1) (len - len div 2 - 1)"
      using 3 by (subst upper_bound_from.simps) (simp add: Let_def)
    show ?thesis unfolding eq
      using "1.IH"(2) [OF 3(1) refl refl 3(2) "1.prems"(1) _ below] "1.prems"(2,4) unfolding rest by blast
  qed
qed

lemma upper_bound_spec:
  assumes "sorted (map first_key es)"
  shows "upper_bound es key \<le> length es" and "i < upper_bound es key \<Longrightarrow> first_key (es ! i) \<le> key"
    and "upper_bound es key \<le> i \<Longrightarrow> i < length es \<Longrightarrow> key < first_key (es ! i)"
  using upper_bound_from_spec [OF assms, of 0 "length es" key] by (auto simp: upper_bound_def)

lemma length_index_of [simp]: "length (index_of off bs) = length bs"
  by (induction bs arbitrary: off) auto

lemma nth_index_of:
  "i < length bs \<Longrightarrow> index_of off bs ! i =
   \<lparr>first_key = block_first_key (bs ! i), block_offset = off + length (block_image (concat (take i bs))),
    block_size = length (block_image (bs ! i))\<rparr>"
proof (induction bs arbitrary: off i)
  case (Cons b bs)
  then show ?case by (cases i) (simp_all add: add.assoc)
qed simp

lemma pack_blocks_nonempty:
  "fold pack_entry es ([], []) = (blocks, cur) \<Longrightarrow>
   (\<forall>b \<in> set (tl blocks). b \<noteq> []) \<and> (cur = [] \<longrightarrow> blocks = [])"
proof (induction es arbitrary: blocks cur rule: rev_induct)
  case (snoc e es)
  obtain bs c where p: "fold pack_entry es ([], []) = (bs, c)" by (cases "fold pack_entry es ([], [])")
  with snoc.IH [of bs c] snoc.prems show ?case by (cases bs) (auto split: if_splits)
qed simp

lemma sst_blocks_nonempty: "\<forall>b \<in> set (tl (sst_blocks es)). b \<noteq> []"
proof -
  obtain bs c where p: "fold pack_entry es ([], []) = (bs, c)" by (cases "fold pack_entry es ([], [])")
  from pack_blocks_nonempty [OF p] show ?thesis
    by (cases bs) (auto simp: sst_blocks_def p)
qed

lemma block_lookup:
  assumes "ordered (concat (xs @ b # ys))" and "block_first_key b \<le> key" and "b \<noteq> [] \<or> xs = []"
    and "\<forall>y \<in> set ys. y \<noteq> [] \<and> key < block_first_key y"
  shows "map_of (concat (xs @ b # ys)) key = map_of b key"
proof -
  have "map_of (concat xs) key = None"
  proof (cases "b = []")
    case False
    have "x < key" if "x \<in> fst ` set (concat xs)" for x
    proof -
      from that have "x < fst (hd b)"
        using assms(1) False by (cases b) (auto simp: sorted_wrt_append)
      then show ?thesis using assms(2) False by (simp add: block_first_key_def)
    qed
    then show ?thesis unfolding map_of_eq_None_iff by fastforce
  qed (use assms(3) in simp)
  moreover have "map_of (concat ys) key = None"
  proof -
    have "key < x" if y: "y \<in> set ys" and x: "x \<in> fst ` set y" for x y
    proof -
      from y obtain y1 y2 where "ys = y1 @ y # y2" by (auto simp: in_set_conv_decomp)
      with assms(1) have "ordered y" by (simp add: sorted_wrt_append)
      with x have "fst (hd y) \<le> x" by (cases y) auto
      with assms(4) y show ?thesis by (auto simp: block_first_key_def)
    qed
    then show ?thesis unfolding map_of_eq_None_iff by fastforce
  qed
  ultimately show ?thesis by (simp add: map_add_def split: option.splits)
qed

section \<open>Lookup in a table\<close>

text \<open>
  A reader on the table \<open>es\<close>: its file holds the image of \<open>es\<close>, and its index and filter are
  the ones of \<open>es\<close>. Tables are smaller than 4 GiB, the range of the 32-bit sizes of the format.
\<close>

definition table_ok :: "entry list \<Rightarrow> BloomFilter \<Rightarrow> bool" where
  "table_ok es f \<longleftrightarrow> ordered es \<and> bloom_wf f \<and> (\<forall>e \<in> set es. may_contain f (fst e)) \<and> length (sst_image es f) < 2 ^ 32"

definition reader_on :: "fs \<Rightarrow> SSTableReader \<Rightarrow> entry list \<Rightarrow> bool" where
  "reader_on s rd es \<longleftrightarrow> readable s (sr_fh rd) \<and> view s (sr_fh rd) = Some (sst_image es (sr_bloom rd))
     \<and> sr_index_entries rd = index_of 0 (sst_blocks es) \<and> table_ok es (sr_bloom rd)"

lemma sst_image_split:
  "sst_blocks es = xs @ b # ys \<Longrightarrow>
   \<exists>rest. sst_image es f = block_image (concat xs) @ block_image b @ rest"
  using concat_sst_blocks [of es] by (auto simp: sst_image_def Let_def)

lemma sst_image_le: "length (block_image es) \<le> length (sst_image es f)"
  by (simp add: sst_image_def Let_def)

lemma entry_image_le: "e \<in> set es \<Longrightarrow> length (entry_image e) \<le> length (block_image es)"
  by (auto simp: block_image_def length_concat comp_def intro!: member_le_sum_list)

lemma length_entries_le: "length es \<le> length (block_image es) + x"
proof (induction es)
  case (Cons e es)
  then show ?case using length_entry_image [of e] by simp
qed simp

lemma Key_Nil_le [simp]: "Key [] \<le> k"
  by (cases k) simp

lemma first_keys_sorted:
  assumes "ordered (concat bs)" and "\<forall>b \<in> set (tl bs). b \<noteq> []"
  shows "sorted (map block_first_key bs)"
  using assms
proof (induction bs)
  case (Cons b bs)
  have ne: "\<forall>c \<in> set bs. c \<noteq> []" using Cons.prems(2) by simp
  moreover from Cons.prems(1) have "ordered (concat bs)" by (simp add: sorted_wrt_append)
  ultimately have "sorted (map block_first_key bs)"
    using Cons.IH by (cases bs) auto
  moreover have "block_first_key b \<le> block_first_key c" if "c \<in> set bs" for c
  proof (cases "b = []")
    case False
    from that ne have "hd c \<in> set c" by simp
    with that have "hd c \<in> set (concat bs)" by auto
    with Cons.prems(1) False have "fst (hd b) < fst (hd c)"
      by (cases b) (auto simp: sorted_wrt_append)
    with that ne False show ?thesis by (auto simp: block_first_key_def)
  qed (simp add: block_first_key_def)
  ultimately show ?case by simp
qed simp

lemma index_first_keys: "map first_key (index_of off bs) = map block_first_key bs"
  by (induction bs arbitrary: off) auto

lemma find_block:
  fixes key :: Key
  assumes "ordered (concat bs)" and "\<forall>b \<in> set (tl bs). b \<noteq> []"
  defines "it \<equiv> upper_bound (index_of 0 bs) key"
  shows "it = 0 \<Longrightarrow> map_of (concat bs) key = None"
    and "it \<noteq> 0 \<Longrightarrow> it - 1 < length bs \<and> map_of (concat bs) key = map_of (bs ! (it - 1)) key"
proof -
  have sorted: "sorted (map first_key (index_of 0 bs))"
    unfolding index_first_keys by (rule first_keys_sorted [OF assms(1,2)])
  have le: "it \<le> length bs" using upper_bound_spec(1) [OF sorted, of key] by (simp add: it_def)
  have low: "block_first_key (bs ! i) \<le> key" if "i < it" for i
    using upper_bound_spec(2) [OF sorted, of i key] that le by (simp add: it_def nth_index_of)
  have high: "key < block_first_key (bs ! i) \<and> bs ! i \<noteq> []" if "it \<le> i" "i < length bs" for i
  proof -
    have "key < block_first_key (bs ! i)"
      using upper_bound_spec(3) [OF sorted, of key i] that by (simp add: it_def nth_index_of)
    then show ?thesis using leD [OF Key_Nil_le [of key]] by (auto simp: block_first_key_def)
  qed
  then have ys: "\<forall>y \<in> set (drop it bs). y \<noteq> [] \<and> key < block_first_key y"
    by (auto simp: in_set_conv_nth)
  show "map_of (concat bs) key = None" if "it = 0"
    using block_lookup [of "[]" "[]" bs key] assms(1) ys that by (simp add: block_first_key_def [of "[]"])
  show "it - 1 < length bs \<and> map_of (concat bs) key = map_of (bs ! (it - 1)) key" if nz: "it \<noteq> 0"
  proof -
    have l: "it - 1 < length bs" and su: "Suc (it - 1) = it" using nz le by auto
    then have split: "bs = take (it - 1) bs @ bs ! (it - 1) # drop it bs"
      using id_take_nth_drop [OF l] by simp
    have "bs ! (it - 1) \<noteq> [] \<or> take (it - 1) bs = []"
    proof (cases "it = 1")
      case False
      then obtain j where j: "it - 1 = Suc j" using nz by (cases "it - 1") auto
      then have "bs ! (it - 1) = tl bs ! j" "j < length (tl bs)" using l by (simp_all add: nth_tl)
      then show ?thesis using assms(2) by (metis nth_mem)
    qed simp
    then have "map_of (concat bs) key = map_of (bs ! (it - 1)) key"
      using block_lookup [of "take (it - 1) bs" "bs ! (it - 1)" "drop it bs" key] low [of "it - 1"] ys nz assms(1)
      unfolding split [symmetric] by simp
    with l show ?thesis ..
  qed
qed

lemma sst_get_reader:
  assumes "reader_on s rd es"
  shows "\<exists>a r. sst_get s rd key = (r, s\<lparr>answers := a\<rparr>)
     \<and> (r = ok (map_of es key) \<or> (\<exists>e. r = err READ_ERR (strerror e)) \<and> answers s \<noteq> [])
     \<and> (answers s = [] \<longrightarrow> a = [])"
proof -
  let ?bs = "sst_blocks es" and ?it = "upper_bound (index_of 0 (sst_blocks es)) key"
  note rd = assms [unfolded reader_on_def table_ok_def]
  have ord: "ordered (concat ?bs)" using rd by (simp add: concat_sst_blocks)
  note fb = find_block [OF ord sst_blocks_nonempty, of key, unfolded concat_sst_blocks]
  show ?thesis
  proof (cases "may_contain (sr_bloom rd) key \<and> ?it \<noteq> 0")
    case False
    then have "map_of es key = None" using rd fb(1) by (force simp: map_of_eq_None_iff)
    with False rd show ?thesis by (intro exI [of _ "answers s"]) (auto simp: sst_get_def)
  next
    case True
    let ?i = "?it - 1"
    from fb(2) True have i: "?i < length ?bs" "map_of es key = map_of (?bs ! ?i) key" by simp_all
    let ?b = "?bs ! ?i" and ?off = "length (block_image (concat (take (?it - 1) (sst_blocks es))))"
    have split: "?bs = take ?i ?bs @ ?b # drop (Suc ?i) ?bs" using i(1) by (rule id_take_nth_drop)
    obtain rest where img: "sst_image es (sr_bloom rd) = block_image (concat (take ?i ?bs)) @ block_image ?b @ rest"
      using sst_image_split [OF split] by blast
    obtain xs ys where es: "es = xs @ ?b @ ys"
      using arg_cong [OF split, of concat] by (simp only: concat_sst_blocks concat_append concat.simps(2))
    have sub: "set ?b \<subseteq> set es" and "ordered ?b"
      using arg_cong [OF es, of set] arg_cong [OF es, of ordered] rd by (auto simp: sorted_wrt_append)
    moreover have "\<forall>e \<in> set ?b. length (entry_image e) < 2 ^ 32"
      using sub rd entry_image_le [of _ es] sst_image_le [of es "sr_bloom rd"] by (meson le_less_trans subsetD)
    ultimately have scan: "scan_block (block_image ?b) (length (block_image ?b)) key 0 = ok (map_of es key)"
      using scan_block_image [of ?b "[]" key] i(2) by simp
    have read: "\<exists>a res. posix_read s (sr_fh rd) (length (block_image ?b)) (replicate (length (block_image ?b)) 0) ?off
         = (res, s\<lparr>answers := a\<rparr>)
       \<and> (res = ok (length (block_image ?b), block_image ?b)
          \<or> (\<exists>e. res = err READ_ERR (strerror e)) \<and> answers s \<noteq> [])
       \<and> (answers s = [] \<longrightarrow> a = [])"
      using posix_read_spec [of s "sr_fh rd" "sst_image es (sr_bloom rd)" "length (block_image ?b)"
          "replicate (length (block_image ?b)) 0" ?off] rd by (simp add: img overwrite_all)
    have "sst_get s rd key = attempt (posix_read s (sr_fh rd) (length (block_image ?b)) (replicate (length (block_image ?b)) 0) ?off)
            (\<lambda>(_, block_buffer) s. (scan_block block_buffer (length (block_image ?b)) key 0, s))"
      using True rd i(1) by (simp add: sst_get_def nth_index_of Let_def)
    with read scan show ?thesis by (auto simp: split: prod.splits)
  qed
qed

section \<open>Opening a table\<close>

lemma length_footer_image [simp]: "length (footer_image a b c d e) = 64"
  by (simp add: footer_image_def Let_def)

lemma footer_fields:
  fixes a b c d m
  defines "foot \<equiv> footer_image a b c d m"
  shows "take MAGIC_SIZE (drop MAGIC_BYTES_OFFSET foot) = MAGIC"
    and "decode_uint32 foot FOOTER_CHECKSUM_OFFSET = compute_crc_32 (take FOOTER_CHECKSUM_OFFSET foot)"
    and "decode_footer foot = \<lparr>index_block_offset = word_of_nat a, index_block_size = word_of_nat b,
       filter_block_offset = word_of_nat (a + b), filter_block_size = word_of_nat c,
       footer_entry_count = word_of_nat d, format_version = word_of_nat SSTABLE_FORMAT_VERSION,
       highest_sequence = m, footer_size_bytes = word_of_nat (a + b + c + FOOTER_SIZE)\<rparr>"
proof -
  let ?h = "footer_head a b c d m"
  have f: "foot = ?h @ be 4 (compute_crc_32 ?h) @ MAGIC @ be 4 (0 :: u32) @ be 2 (0 :: u16)"
    by (simp add: foot_def footer_image_def Let_def)
  show "take MAGIC_SIZE (drop MAGIC_BYTES_OFFSET foot) = MAGIC"
    by (simp add: f MAGIC_SIZE_def MAGIC_BYTES_OFFSET_def)
  have "decode_uint32 foot 46 = compute_crc_32 ?h" by (rule codec_simps) (simp_all add: f)
  then show "decode_uint32 foot FOOTER_CHECKSUM_OFFSET = compute_crc_32 (take FOOTER_CHECKSUM_OFFSET foot)"
    by (simp add: FOOTER_CHECKSUM_OFFSET_def f)
  have "decode_uint64 foot 0 = word_of_nat a" "decode_uint32 foot 8 = word_of_nat b"
      "decode_uint64 foot 12 = word_of_nat (a + b)" "decode_uint32 foot 20 = word_of_nat c"
      "decode_uint32 foot 24 = word_of_nat d" "decode_uint16 foot 28 = word_of_nat SSTABLE_FORMAT_VERSION"
      "decode_uint64 foot 30 = m" "decode_uint64 foot 38 = word_of_nat (a + b + c + FOOTER_SIZE)"
    by (rule codec_simps; simp add: f footer_head_def)+
  then show "decode_footer foot = \<lparr>index_block_offset = word_of_nat a, index_block_size = word_of_nat b,
       filter_block_offset = word_of_nat (a + b), filter_block_size = word_of_nat c,
       footer_entry_count = word_of_nat d, format_version = word_of_nat SSTABLE_FORMAT_VERSION,
       highest_sequence = m, footer_size_bytes = word_of_nat (a + b + c + FOOTER_SIZE)\<rparr>"
    by (simp add: decode_footer_def)
qed

lemma index_fits:
  assumes "length (block_image es) < 2 ^ 32"
  shows "\<forall>e \<in> set (index_of 0 (sst_blocks es)). index_entry_fits e"
proof
  fix e assume "e \<in> set (index_of 0 (sst_blocks es))"
  then obtain i where i: "i < length (sst_blocks es)" and e: "e = index_of 0 (sst_blocks es) ! i"
    by (auto simp: in_set_conv_nth)
  let ?b = "sst_blocks es ! i"
  have "concat (sst_blocks es) = concat (take i (sst_blocks es)) @ ?b @ concat (drop (Suc i) (sst_blocks es))"
    using arg_cong [OF id_take_nth_drop [OF i], of concat] by simp
  then have "length (block_image es) = length (block_image (concat (take i (sst_blocks es)))) + length (block_image ?b)
      + length (block_image (concat (drop (Suc i) (sst_blocks es))))"
    by (metis add.assoc block_image_simps(2) concat_sst_blocks length_append)
  moreover have "key_size (block_first_key ?b) \<le> length (block_image ?b)"
    using length_entry_image [of "hd ?b"] by (cases ?b) (auto simp: block_first_key_def key_size_def)
  ultimately show "index_entry_fits e"
    using assms i by (simp add: e nth_index_of index_entry_fits_def)
qed

lemma read_blocks_image:
  assumes "answers s = []" and "readable s fh" and "view s fh = Some (sst_image es f)" and "table_ok es f"
    and "index_block_offset ft = word_of_nat (length (block_image es))"
    and "index_block_size ft = word_of_nat (length (index_image es))"
    and "filter_block_size ft = word_of_nat (length (filter_image f))"
  shows "\<exists>rd. read_blocks s fh path ft = (ok rd, s) \<and> reader_on s rd es \<and> sr_footer rd = ft \<and> sr_fh rd = fh \<and> sr_bloom rd = f"
proof -
  let ?b = "length (block_image es)" and ?i = "length (index_image es)" and ?f = "length (filter_image f)"
  obtain rest where img: "sst_image es f = block_image es @ (index_image es @ filter_image f) @ rest"
    by (simp add: sst_image_def Let_def)
  have small: "?b + ?i + ?f < 2 ^ 32" using assms(4) by (simp add: table_ok_def img)
  have u: "unat (index_block_offset ft) = ?b" "unat (index_block_size ft) = ?i" "unat (filter_block_size ft) = ?f"
    unfolding assms(5-7) using small by (auto intro!: unat_word_of_nat_eq)
  have sum: "unat (index_block_size ft + filter_block_size ft) = ?i + ?f"
    using small by (simp add: unat_word_ariths u)
  have read: "posix_read s fh (?i + ?f) (replicate (?i + ?f) 0) ?b = (ok (?i + ?f, index_image es @ filter_image f), s)"
    using posix_read_ok [OF assms(1-3), of "?i + ?f" "replicate (?i + ?f) 0" ?b]
    by (simp add: img overwrite_all)
  have idx: "read_index (index_image es @ filter_image f) ?i 0 = ok (index_of 0 (sst_blocks es), ?i)"
    using read_index_image [OF index_fits, of es "[]" "filter_image f"] small by (simp add: index_image_def)
  have "decode_uint8 (index_image es @ filter_image f) ?i = word_of_nat (num_hashes f)"
    by (rule codec_simps) (simp_all add: filter_image_def)
  moreover have "take (?f - 1) (drop (?i + 1) (index_image es @ filter_image f)) = bit_array f"
    by (simp add: filter_image_def)
  moreover have "BloomFilter_load (bit_array f) (word_of_nat (num_hashes f)) = f"
    using assms(4) by (intro BloomFilter_load_same) (simp add: table_ok_def)
  moreover have "?f - 1 = length (bit_array f)" by (simp add: filter_image_def)
  ultimately show ?thesis
    using assms(2-4) by (simp add: read_blocks_def sum u read idx reader_on_def ok_def Let_def del: One_nat_def)
qed

text \<open>Without faults, opening the file of a table gives a reader on the table.\<close>

lemma SSTableReader_create_table:
  assumes "answers s = []" and "map_of (dir s) path = Some i" and "inodes s i = Some n" and "0 \<le> next_fd s"
    and "contents n = sst_image es f" and "table_ok es f"
  shows "\<exists>rd. SSTableReader_create s path = (ok rd, fs_opened s i Read) \<and> reader_on (fs_opened s i Read) rd es
     \<and> sr_fh rd = FileHandle (next_fd s) \<and> sr_bloom rd = f
     \<and> highest_sequence (sr_footer rd) = max_seq es
     \<and> unat (footer_entry_count (sr_footer rd)) = length es
     \<and> unat (footer_size_bytes (sr_footer rd)) = length (sst_image es f)"
proof -
  let ?s = "fs_opened s i Read" and ?fh = "FileHandle (next_fd s)" and ?img = "sst_image es f"
  let ?foot = "footer_image (length (block_image es)) (length (index_image es)) (length (filter_image f)) (length es) (max_seq es)"
  note h = fs_opened_handle [OF assms(3,4), of Read, unfolded assms(5)]
  have q: "answers ?s = []" by (simp add: assms(1))
  have img: "?img = (block_image es @ index_image es @ filter_image f) @ ?foot"
    by (simp add: sst_image_def Let_def)
  have small: "length ?img < 2 ^ 32" using assms(6) by (simp add: table_ok_def)
  have foot: "posix_read ?s ?fh FOOTER_SIZE (replicate FOOTER_SIZE 0) (length ?img - FOOTER_SIZE) = (ok (FOOTER_SIZE, ?foot), ?s)"
    using posix_read_ok [OF q _ h(1), of FOOTER_SIZE "replicate FOOTER_SIZE 0" "length ?img - FOOTER_SIZE"] h(2)
    by (simp add: img FOOTER_SIZE_def overwrite_all)
  let ?ft = "decode_footer ?foot"
  note ft = footer_fields [of "length (block_image es)" "length (index_image es)" "length (filter_image f)" "length es" "max_seq es"]
  obtain rd where rd: "read_blocks ?s ?fh path ?ft = (ok rd, ?s)" "reader_on ?s rd es" "sr_footer rd = ?ft"
      "sr_fh rd = ?fh" "sr_bloom rd = f"
    using read_blocks_image [OF q _ h(1) assms(6), of ?ft path] h(2) by (auto simp: ft(3))
  have n: "2 \<le> length (filter_image f)" "length es \<le> length ?img"
    using assms(6) by (auto simp: table_ok_def bloom_wf_def filter_image_def Suc_le_eq img length_entries_le)
  have "length (filter_image f) < 2 ^ 32" "length es < 2 ^ 32" using small n(2) by (simp_all add: img)
  then have "\<not> filter_block_size ?ft < 2" "unat (footer_entry_count ?ft) = length es"
    using n by (simp_all add: ft(3) word_less_nat_alt unat_word_of_nat_eq)
  moreover have "unat (footer_size_bytes ?ft) = length ?img"
  proof -
    have "footer_size_bytes ?ft = word_of_nat (length ?img)" by (simp add: ft(3) img FOOTER_SIZE_def add.assoc)
    moreover have "unat (word_of_nat (length ?img) :: u64) = length ?img"
      using small by (intro unat_word_of_nat_eq) simp
    ultimately show ?thesis by simp
  qed
  moreover have "FOOTER_SIZE \<le> length ?img" by (simp add: img FOOTER_SIZE_def)
  ultimately show ?thesis
    using rd posix_open_existing [OF assms(1,2), of Read] posix_file_size_ok [OF q h(1)] foot
    by (simp add: SSTableReader_create_def ft(1,2)) (simp add: ft(3))
qed

section \<open>Sizes\<close>

lemma length_sst_blocks: "length (sst_blocks es) \<le> length es + 1"
proof -
  have "length bs \<le> length (concat bs)" if "\<forall>b \<in> set bs. b \<noteq> []" for bs :: "entry list list"
    using that by (induction bs) (auto simp: Suc_le_eq add_increasing2 length_greater_0_conv [symmetric]
        simp del: length_greater_0_conv intro: add_le_mono order.trans)
  from this [of "tl (sst_blocks es)"] sst_blocks_nonempty [of es] concat_sst_blocks [of es] show ?thesis
    by (cases "sst_blocks es") auto
qed

lemma length_index_image: "length (index_image es) \<le> 16 * (length es + 1) + length (block_image es)"
proof -
  have "length (concat (map index_entry_image (index_of off bs))) \<le> 16 * length bs + length (block_image (concat bs))" for off bs
  proof (induction bs arbitrary: off)
    case (Cons b bs)
    have "key_size (block_first_key b) \<le> length (block_image b)"
      using length_entry_image [of "hd b"] by (cases b) (auto simp: block_first_key_def key_size_def)
    with Cons [of "off + length (block_image b)"] show ?case by (simp add: length_index_entry_image)
  qed simp
  from this [of 0 "sst_blocks es"] length_sst_blocks [of es] show ?thesis
    by (simp add: index_image_def concat_sst_blocks)
qed

lemma length_es_image: "17 * length es \<le> length (block_image es)"
  by (induction es) (auto simp: length_entry_image)

lemma table_ok_written:
  assumes "BloomFilter_create n (1 / 100) = ok f0" and "ordered es" and "length (block_image es) < 2 ^ 29" and "n < 2 ^ 24"
  shows "table_ok es (foldl bloom_add f0 (map fst es))"
proof -
  from assms(1) have "bloom_wf f0" using BloomFilter_create_wf [of n]
    by (cases "0 < n") (auto simp: BloomFilter_create_def abort_def ok_def)
  with bloom_add_all [OF this, of "map fst es"] assms(2)
    length_index_image [of es] length_es_image [of es] BloomFilter_create_size [OF assms(1)] assms(3,4)
  show ?thesis by (auto simp: table_ok_def sst_image_def filter_image_def Let_def)
qed

section \<open>From a writer to a reader\<close>

lemma fs_append_frame [simp]:
  "dir (fs_append s fh bs) = dir s" "next_fd (fs_append s fh bs) = next_fd s" "next_ino (fs_append s fh bs) = next_ino s"
  "subdirs (fs_append s fh bs) = subdirs s"
  by (simp_all add: fs_append_def split: option.splits)

lemma fs_sync_frame [simp]:
  "dir (fs_sync s fh) = dir s" "next_fd (fs_sync s fh) = next_fd s" "next_ino (fs_sync s fh) = next_ino s"
  "subdirs (fs_sync s fh) = subdirs s" "fds (fs_sync s fh) = fds s"
  by (simp_all add: fs_sync_def split: option.splits)

lemma inodes_written:
  assumes "fd_file s (fd fh) = Some (f, n)"
  shows "inodes (fs_sync (fs_append s fh bs) fh)
       = (inodes s)(of_ino f \<mapsto> \<lparr>contents = contents n @ bs, durable = contents n @ bs\<rparr>)"
proof -
  have "fs_sync (fs_append s fh bs) fh = (fs_append s fh bs)\<lparr>inodes := (inodes (fs_append s fh bs))
      (of_ino f \<mapsto> n\<lparr>contents := contents n @ bs, durable := contents n @ bs\<rparr>)\<rparr>"
    by (simp add: fs_sync_def fd_file_fs_append [OF assms])
  then show ?thesis by (cases n) (simp add: fs_append_def assms)
qed

lemma create_file_simps [simp]:
  "answers (create_file s p) = answers s" "dir (create_file s p) = dir s @ [(p, next_ino s)]"
  "inodes (create_file s p) = (inodes s)(next_ino s \<mapsto> \<lparr>contents = [], durable = []\<rparr>)"
  "next_fd (create_file s p) = next_fd s" "fds (create_file s p) = fds s" "subdirs (create_file s p) = subdirs s"
  "next_ino (create_file s p) = next_ino s + 1" "assertions (create_file s p) = assertions s"
  by (simp_all add: create_file_def)

text \<open>The state in which a new file has been created, filled with \<open>img\<close>, and synced.\<close>

definition fs_stored :: "fs \<Rightarrow> string \<Rightarrow> bytes \<Rightarrow> fs" where
  "fs_stored s path img =
     (let s1 = fs_opened (create_file s path) (next_ino s) Write; fh = FileHandle (next_fd s)
      in fs_sync (fs_append s1 fh img) fh)"

lemma fs_stored_simps [simp]:
  "answers (fs_stored s p img) = answers s" "dir (fs_stored s p img) = dir s @ [(p, next_ino s)]"
  "next_fd (fs_stored s p img) = next_fd s + 1" "subdirs (fs_stored s p img) = subdirs s"
  "next_ino (fs_stored s p img) = next_ino s + 1" "assertions (fs_stored s p img) = assertions s"
  "inodes (fs_stored s p img) = (inodes s)(next_ino s \<mapsto> \<lparr>contents = img, durable = img\<rparr>)"
proof -
  let ?s = "fs_opened (create_file s p) (next_ino s) Write"
  have "fd_file ?s (fd (FileHandle (next_fd s))) = Some (mode_file (next_ino s) Write, \<lparr>contents = [], durable = []\<rparr>)"
    using fd_file_fs_opened [of "create_file s p" "next_ino s" "\<lparr>contents = [], durable = []\<rparr>" Write] by simp
  from inodes_written [OF this, of img]
  show "inodes (fs_stored s p img) = (inodes s)(next_ino s \<mapsto> \<lparr>contents = img, durable = img\<rparr>)"
    by (simp add: fs_stored_def Let_def mode_file_def)
qed (simp_all add: fs_stored_def Let_def)

lemma sst_write_table:
  assumes "answers s = []" and "0 \<le> next_fd s" and "map_of (dir s) path = None" and "is_directory s (parent_of path)"
    and "BloomFilter_create n (1 / 100) = ok f0"
  shows "\<exists>w t st w'. SSTableWriter_create s path n = (ok w, t) \<and> sst_add_all (t, w) es = (Inr (), st)
     \<and> sst_finish st = (Inr (), (fs_stored s path (sst_image es (foldl bloom_add f0 (map fst es))), w'))"
proof -
  let ?s = "fs_opened (create_file s path) (next_ino s) Write" and ?fh = "FileHandle (next_fd s)"
  define w where "w = \<lparr>sw_fh = ?fh, sw_path = path, sw_buffer = [], current_block_first_key = Key [],
      current_file_offset = 0, current_block_start_offset = 0, sw_bloom = f0,
      sw_highest_sequence = 0, sw_index_entries = [], sw_entry_count = 0\<rparr>"
  have c: "SSTableWriter_create s path n = (ok w, ?s)"
    using posix_open_new [OF assms(1,3) _ assms(4), of Write] assms(5)
    by (simp add: SSTableWriter_create_def w_def ok_def)
  have "appendable ?s ?fh"
    using fs_opened_handle(3) [of "create_file s path" "next_ino s" "\<lparr>contents = [], durable = []\<rparr>" Write] assms(2) by simp
  then have "\<exists>st w'. sst_add_all (?s, w) es = (Inr (), st) \<and> sst_finish st
      = (Inr (), (fs_sync (fs_append ?s ?fh (sst_image es (foldl bloom_add f0 (map fst es)))) ?fh, w'))"
    using sst_write_quiet [of ?s w f0 es] assms(1,4)
    by (simp add: w_def sw_state_def block_first_key_def max_seq_def is_directory_def)
  with c show ?thesis by (auto simp: fs_stored_def Let_def)
qed

text \<open>Every small sorted table can be stored and opened.\<close>

lemma reader_exists:
  assumes "es \<noteq> []" and "ordered es" and "length (block_image es) < 2 ^ 28"
  shows "\<exists>s rd. answers s = [] \<and> reader_on s rd es"
proof -
  let ?s0 = "fs_empty [''d'']" and ?p = "''d/t''"
  obtain f0 where f0: "BloomFilter_create (length es) (1 / 100) = ok f0"
    using assms(1) BloomFilter_create_wf [of "length es"] by auto
  let ?f = "foldl bloom_add f0 (map fst es)"
  have ok: "table_ok es ?f"
    using table_ok_written [OF f0 assms(2)] assms(3) length_es_image [of es] by simp
  let ?u = "fs_stored ?s0 ?p (sst_image es ?f)"
  have "map_of (dir ?u) ?p = Some 0" by (simp add: fs_empty_def)
  from SSTableReader_create_table [OF _ this, of "\<lparr>contents = sst_image es ?f, durable = sst_image es ?f\<rparr>" es ?f] ok
  obtain rd where "reader_on (fs_opened ?u 0 Read) rd es" by (auto simp: fs_empty_def)
  moreover have "answers (fs_opened ?u 0 Read) = []" by (simp add: fs_empty_def)
  ultimately show ?thesis by blast
qed

section \<open>Properties\<close>

text \<open>
  C10. Under every schedule of faults and short reads, a lookup that reports success on an open
  table returns exactly the entry of the table and changes no file.
\<close>

theorem sst_get_exact:
  assumes "reader_on s rd es" and "sst_get s rd key = (ok v, t)"
  shows "v = map_of es key \<and> inodes t = inodes s \<and> dir t = dir s \<and> fds t = fds s"
  using sst_get_reader [OF assms(1), of key] assms(2) by auto

theorem sst_get_exact_witness:
  "\<exists>s rd v. reader_on s rd [(Key [1], v)] \<and> sst_get s rd (Key [1]) = (ok (Some v), s)"
proof -
  let ?v = "\<lparr>data = [2], is_tombstone = False, sequence = 3\<rparr>"
  obtain s rd where rd: "answers s = []" "reader_on s rd [(Key [1], ?v)]"
    using reader_exists [of "[(Key [1], ?v)]"] by (auto simp: length_entry_image key_size_def)
  obtain r where g: "sst_get s rd (Key [1]) = (ok r, s)"
    using sst_get_reader [OF rd(2), of "Key [1]"] rd(1) by (auto simp: answers_same)
  from sst_get_exact [OF rd(2) g] g rd show ?thesis by auto
qed

text \<open>
  C9. Without faults, writing a non-empty sorted table (of less than 256 MiB of entries) to a
  new file with SSTableWriter and opening the file with SSTableReader succeeds, and the reader
  answers every lookup with exactly what the table holds: the entry of a key in it, tombstones
  included, and nothing for every other key.
\<close>

theorem sst_write_read:
  assumes "answers s = []" and "0 \<le> next_fd s" and "map_of (dir s) path = None" and "is_directory s (parent_of path)"
    and "es \<noteq> []" and "sorted_wrt (<) (map fst es)" and "length (block_image es) < 2 ^ 28"
  shows "\<exists>w t st u w' rd x. SSTableWriter_create s path (length es) = (ok w, t)
     \<and> sst_add_all (t, w) es = (ok (), st) \<and> sst_finish st = (ok (), (u, w'))
     \<and> SSTableReader_create u path = (ok rd, x)
     \<and> (\<forall>key. sst_get x rd key = (ok (map_of es key), x))"
proof -
  from assms(5) obtain f0 where f0: "BloomFilter_create (length es) (1 / 100) = ok f0"
    using BloomFilter_create_wf [of "length es"] by auto
  let ?f = "foldl bloom_add f0 (map fst es)"
  let ?u = "fs_stored s path (sst_image es ?f)"
  from sst_write_table [OF assms(1-4) f0, of es] obtain w t st w' where w: "SSTableWriter_create s path (length es) = (ok w, t)"
      "sst_add_all (t, w) es = (Inr (), st)" "sst_finish st = (Inr (), (?u, w'))" by blast
  have ok: "table_ok es ?f"
    using table_ok_written [OF f0 assms(6)] assms(7) length_es_image [of es] by simp
  have "map_of (dir ?u) path = Some (next_ino s)" using assms(3) by (simp add: map_add_def)
  from SSTableReader_create_table [OF _ this, of _ es ?f] assms(1,2) ok
  obtain rd where rd: "SSTableReader_create ?u path = (ok rd, fs_opened ?u (next_ino s) Read)"
      "reader_on (fs_opened ?u (next_ino s) Read) rd es" by auto
  have "sst_get (fs_opened ?u (next_ino s) Read) rd key = (ok (map_of es key), fs_opened ?u (next_ino s) Read)" for key
    using sst_get_reader [OF rd(2), of key] assms(1) by (auto simp: answers_same)
  with w rd(1) show ?thesis unfolding ok_def by blast
qed

theorem sst_write_read_witness:
  "\<exists>w t st u w' rd x. SSTableWriter_create (fs_empty [''d'']) ''d/t'' 2 = (ok w, t)
     \<and> sst_add_all (t, w) [(Key [1], \<lparr>data = [7], is_tombstone = False, sequence = 4\<rparr>),
                           (Key [1, 0], \<lparr>data = [], is_tombstone = True, sequence = 5\<rparr>)] = (ok (), st)
     \<and> sst_finish st = (ok (), (u, w')) \<and> SSTableReader_create u ''d/t'' = (ok rd, x)
     \<and> sst_get x rd (Key [1, 0]) = (ok (Some \<lparr>data = [], is_tombstone = True, sequence = 5\<rparr>), x)
     \<and> sst_get x rd (Key [2]) = (ok None, x)"
proof -
  let ?es = "[(Key [1], \<lparr>data = [7], is_tombstone = False, sequence = 4\<rparr>),
              (Key [1, 0], \<lparr>data = [], is_tombstone = True, sequence = 5\<rparr>)]"
  have "length (block_image ?es) < 2 ^ 28" by (simp add: length_entry_image key_size_def)
  moreover have "parent_of ''d/t'' = ''d''" by (simp add: parent_of_def)
  ultimately obtain w t st u w' rd x where "SSTableWriter_create (fs_empty [''d'']) ''d/t'' (length ?es) = (ok w, t)"
     "sst_add_all (t, w) ?es = (ok (), st)" "sst_finish st = (ok (), (u, w'))" "SSTableReader_create u ''d/t'' = (ok rd, x)"
     "\<forall>key. sst_get x rd key = (ok (map_of ?es key), x)"
    using sst_write_read [of "fs_empty [''d'']" "''d/t''" ?es] by (auto simp: fs_empty_def is_directory_def)
  then show ?thesis
    by (intro exI [of _ w] exI [of _ t] exI [of _ st] exI [of _ u] exI [of _ w'] exI [of _ rd] exI [of _ x])
      (simp add: numeral_2_eq_2)
qed

end
