(* ===== verification/Hash_Map.thy ===== *)
theory Hash_Map
  imports Errors
begin

text \<open>
  The hash table of cache.cpp: chained buckets, doubled when there are more elements than buckets.
  Elements are handles, identified by numbers; \<open>kh\<close> gives the key and hash fields of a handle. A
  chain linked through \<open>next_hash\<close> is a list. The counters are natural numbers: the 32-bit ones of
  the code would need 2^31 cached tables to wrap.
\<close>

type_synonym key_hash = "nat \<Rightarrow> bytes \<times> u32"

record HashMap =
  hm_len :: nat
  hm_elems :: nat
  hm_list :: "nat list list"

definition slot :: "u32 \<Rightarrow> nat \<Rightarrow> nat" where
  "slot hash len = unat hash AND (len - 1)"

text \<open>\<open>find_pointer\<close> on a chain, with the three uses of the pointer it returns: read, overwrite, unlink.\<close>

fun chain_find :: "key_hash \<Rightarrow> bytes \<Rightarrow> u32 \<Rightarrow> nat list \<Rightarrow> nat option" where
  "chain_find kh key hash [] = None"
| "chain_find kh key hash (p # ps) =
     (if snd (kh p) \<noteq> hash \<or> key \<noteq> fst (kh p) then chain_find kh key hash ps else Some p)"

fun chain_put :: "key_hash \<Rightarrow> nat \<Rightarrow> nat list \<Rightarrow> nat list" where
  "chain_put kh e [] = [e]"
| "chain_put kh e (p # ps) =
     (if snd (kh p) \<noteq> snd (kh e) \<or> fst (kh e) \<noteq> fst (kh p) then p # chain_put kh e ps else e # ps)"

fun chain_unlink :: "key_hash \<Rightarrow> bytes \<Rightarrow> u32 \<Rightarrow> nat list \<Rightarrow> nat list" where
  "chain_unlink kh key hash [] = []"
| "chain_unlink kh key hash (p # ps) =
     (if snd (kh p) \<noteq> hash \<or> key \<noteq> fst (kh p) then p # chain_unlink kh key hash ps else ps)"

definition hm_chain :: "HashMap \<Rightarrow> u32 \<Rightarrow> nat list" where
  "hm_chain t hash = hm_list t ! slot hash (hm_len t)"

definition hm_lookup :: "key_hash \<Rightarrow> HashMap \<Rightarrow> bytes \<Rightarrow> u32 \<Rightarrow> nat option" where
  "hm_lookup kh t key hash = chain_find kh key hash (hm_chain t hash)"

function grow :: "nat \<Rightarrow> nat \<Rightarrow> nat" where
  "grow elems new_length = (if 0 < new_length \<and> new_length < elems then grow elems (new_length * 2) else new_length)"
  by pat_completeness auto
termination by (relation "measure (\<lambda>(elems, n). elems - n)") auto

declare grow.simps [simp del]

definition rehash :: "key_hash \<Rightarrow> nat \<Rightarrow> nat \<Rightarrow> nat list list \<Rightarrow> nat list list" where
  "rehash kh new_length h new_list =
     (let i = slot (snd (kh h)) new_length in new_list[i := h # new_list ! i])"

definition hm_resize :: "key_hash \<Rightarrow> HashMap \<Rightarrow> HashMap result" where
  "hm_resize kh t =
     (let new_length = grow (hm_elems t) 4;
          new_list = fold (rehash kh new_length) (concat (hm_list t)) (replicate new_length []);
          count = length (concat (hm_list t))
      in if hm_elems t \<noteq> count then abort ''assertion elems_ == count''
         else ok (t\<lparr>hm_list := new_list, hm_len := new_length\<rparr>))"

definition HashMap_create :: HashMap where
  "HashMap_create = \<lparr>hm_len = 4, hm_elems = 0, hm_list = replicate 4 []\<rparr>"

definition hm_insert :: "key_hash \<Rightarrow> nat \<Rightarrow> HashMap \<Rightarrow> (nat option \<times> HashMap) result" where
  "hm_insert kh e t =
     (let (key, hash) = kh e; i = slot hash (hm_len t);
          old = chain_find kh key hash (hm_list t ! i);
          t = t\<lparr>hm_list := (hm_list t)[i := chain_put kh e (hm_list t ! i)]\<rparr>
      in if old = None then
           let t = t\<lparr>hm_elems := hm_elems t + 1\<rparr> in
           if hm_elems t > hm_len t
           then (case hm_resize kh t of Inl failed \<Rightarrow> Inl failed | Inr t \<Rightarrow> ok (None, t))
           else ok (None, t)
         else ok (old, t))"

definition hm_remove :: "key_hash \<Rightarrow> bytes \<Rightarrow> u32 \<Rightarrow> HashMap \<Rightarrow> nat option \<times> HashMap" where
  "hm_remove kh key hash t =
     (let i = slot hash (hm_len t); r = chain_find kh key hash (hm_list t ! i)
      in if r = None then (None, t)
         else (r, t\<lparr>hm_list := (hm_list t)[i := chain_unlink kh key hash (hm_list t ! i)], hm_elems := hm_elems t - 1\<rparr>))"

section \<open>What a client relies on\<close>

locale handle_table =
  fixes inv :: "key_hash \<Rightarrow> 't \<Rightarrow> bool"
    and members :: "'t \<Rightarrow> nat set"
    and empty :: 't
    and lookup :: "key_hash \<Rightarrow> 't \<Rightarrow> bytes \<Rightarrow> u32 \<Rightarrow> nat option"
    and insert_op :: "key_hash \<Rightarrow> nat \<Rightarrow> 't \<Rightarrow> (nat option \<times> 't) result"
    and remove_op :: "key_hash \<Rightarrow> bytes \<Rightarrow> u32 \<Rightarrow> 't \<Rightarrow> nat option \<times> 't"
  assumes inv_empty: "inv kh empty" and members_empty: "members empty = {}"
    and inv_cong: "inv kh t \<Longrightarrow> (\<And>e. e \<in> members t \<Longrightarrow> kh' e = kh e) \<Longrightarrow> inv kh' t"
    and lookup_iff: "inv kh t \<Longrightarrow> lookup kh t key hash = Some e \<longleftrightarrow> e \<in> members t \<and> kh e = (key, hash)"
    and insert_ok: "inv kh t \<Longrightarrow> e \<notin> members t \<Longrightarrow> \<exists>t'. insert_op kh e t = Inr (lookup kh t (fst (kh e)) (snd (kh e)), t')
        \<and> inv kh t' \<and> members t' = insert e (members t - {x. kh x = kh e})"
    and remove_ok: "inv kh t \<Longrightarrow> \<exists>t'. remove_op kh key hash t = (lookup kh t key hash, t')
        \<and> inv kh t' \<and> members t' = members t - {x. kh x = (key, hash)}"
begin

lemma lookup_None: "inv kh t \<Longrightarrow> lookup kh t key hash = None \<longleftrightarrow> (\<forall>e \<in> members t. kh e \<noteq> (key, hash))"
  using lookup_iff [of kh t key hash] by (metis not_Some_eq)

lemma unique: "inv kh t \<Longrightarrow> e \<in> members t \<Longrightarrow> x \<in> members t \<Longrightarrow> kh x = kh e \<Longrightarrow> x = e"
  using lookup_iff [of kh t "fst (kh e)" "snd (kh e)"] by (metis option.inject prod.collapse)

lemma remove_member:
  assumes "inv kh t" and "e \<in> members t" and "kh e = (key, hash)"
  shows "\<exists>t'. remove_op kh key hash t = (Some e, t') \<and> inv kh t' \<and> members t' = members t - {e}"
proof -
  have "lookup kh t key hash = Some e" using assms by (simp add: lookup_iff)
  moreover have "members t - {x. kh x = (key, hash)} = members t - {e}"
    using unique [OF assms(1,2)] assms(3) by auto
  ultimately show ?thesis using remove_ok [OF assms(1), of key hash] by auto
qed

lemma insert_member:
  assumes "inv kh t" and "e \<notin> members t"
  shows "\<exists>old t'. insert_op kh e t = Inr (old, t') \<and> inv kh t' \<and> members t' = insert e (members t - set_option old)
     \<and> old = lookup kh t (fst (kh e)) (snd (kh e))"
proof -
  obtain t' where t': "insert_op kh e t = Inr (lookup kh t (fst (kh e)) (snd (kh e)), t')" "inv kh t'"
      "members t' = insert e (members t - {x. kh x = kh e})"
    using insert_ok [OF assms] by blast
  have "members t - {x. kh x = kh e} = members t - set_option (lookup kh t (fst (kh e)) (snd (kh e)))"
    by (auto simp: elem_set lookup_iff [OF assms(1)])
  with t' show ?thesis by auto
qed

end

section \<open>The chained table\<close>

definition hm_members :: "HashMap \<Rightarrow> nat set" where
  "hm_members t = set (concat (hm_list t))"

definition placed :: "key_hash \<Rightarrow> nat \<Rightarrow> nat list list \<Rightarrow> bool" where
  "placed kh n l \<longleftrightarrow> 0 < n \<and> length l = n \<and> (\<forall>i < n. distinct (l ! i) \<and> (\<forall>e \<in> set (l ! i). slot (snd (kh e)) n = i))"

definition hm_inv :: "key_hash \<Rightarrow> HashMap \<Rightarrow> bool" where
  "hm_inv kh t \<longleftrightarrow> placed kh (hm_len t) (hm_list t) \<and> hm_elems t = length (concat (hm_list t))
     \<and> inj_on kh (hm_members t)"

lemma slot_less: "0 < n \<Longrightarrow> slot h n < n"
proof -
  assume "0 < n"
  have "int (slot h n) \<le> int (n - 1)" unfolding slot_def of_nat_and_eq by (rule AND_upper2) simp
  then show ?thesis using \<open>0 < n\<close> by simp
qed

lemma placed_distinct: "placed kh n l \<Longrightarrow> distinct (concat l)"
proof -
  have "distinct (concat l)" if "\<forall>i < length l. distinct (l ! i) \<and> (\<forall>e \<in> set (l ! i). f e = i + k)" for f :: "nat \<Rightarrow> nat" and k
    using that
  proof (induction l arbitrary: k)
    case (Cons c l)
    have c: "distinct c" "\<forall>e \<in> set c. f e = k" using Cons.prems by force+
    have "\<forall>i < length l. distinct (l ! i) \<and> (\<forall>e \<in> set (l ! i). f e = i + Suc k)" using Cons.prems by force
    then have "distinct (concat l)" and "\<forall>e \<in> set (concat l). k < f e"
      using Cons.IH by (auto simp: in_set_conv_nth [of _ l])
    with c show ?case by (auto simp del: set_concat) 
  qed simp
  from this [of "\<lambda>e. slot (snd (kh e)) n" 0] show "placed kh n l \<Longrightarrow> distinct (concat l)"
    by (simp add: placed_def)
qed

lemma length_concat_update:
  assumes "i < length l"
  shows "length (concat (l[i := c])) + length (l ! i) = length (concat l) + length c"
proof -
  have "l = take i l @ l ! i # drop (Suc i) l" by (rule id_take_nth_drop [OF assms])
  then have "length (concat l) = length (concat (take i l)) + (length (l ! i) + length (concat (drop (Suc i) l)))"
    by (metis concat.simps(2) concat_append length_append)
  then show ?thesis by (simp add: upd_conv_take_nth_drop [OF assms])
qed

lemma placed_update:
  assumes "placed kh n l" and "i < n" and "distinct c" and "\<forall>e \<in> set c. slot (snd (kh e)) n = i"
  shows "placed kh n (l[i := c])" and "set (concat (l[i := c])) = set (concat l) - set (l ! i) \<union> set c"
proof -
  show "placed kh n (l[i := c])" using assms by (auto simp: placed_def nth_list_update)
  have i: "i < length l" using assms(1,2) by (simp add: placed_def)
  have l: "concat l = concat (take i l) @ l ! i @ concat (drop (Suc i) l)"
    using arg_cong [OF id_take_nth_drop [OF i], of concat] by simp
  from placed_distinct [OF assms(1)] have "distinct (concat (take i l) @ l ! i @ concat (drop (Suc i) l))" unfolding l .
  moreover from l have "set (concat l) = set (concat (take i l)) \<union> set (l ! i) \<union> set (concat (drop (Suc i) l))"
    by (metis set_append sup_assoc)
  moreover have "concat (l[i := c]) = concat (take i l) @ c @ concat (drop (Suc i) l)"
    by (simp add: upd_conv_take_nth_drop [OF i])
  ultimately show "set (concat (l[i := c])) = set (concat l) - set (l ! i) \<union> set c"
    by (auto simp del: set_concat)
qed

lemma placed_member:
  assumes "placed kh n l" and "e \<in> set (concat l)"
  shows "e \<in> set (l ! slot (snd (kh e)) n)"
  using assms by (auto simp: placed_def in_set_conv_nth [of _ l])

lemma rehash_all:
  assumes "placed kh n l" and "distinct xs" and "set xs \<inter> set (concat l) = {}"
  shows "placed kh n (fold (rehash kh n) xs l) \<and> set (concat (fold (rehash kh n) xs l)) = set xs \<union> set (concat l)
     \<and> length (concat (fold (rehash kh n) xs l)) = length xs + length (concat l)"
  using assms
proof (induction xs arbitrary: l)
  case (Cons x xs)
  let ?i = "slot (snd (kh x)) n" 
  let ?l = "l[?i := x # l ! ?i]"
  have i: "?i < n" "length l = n" using Cons.prems(1) by (auto simp: placed_def slot_less)
  have "l ! ?i \<in> set l" using i by simp
  then have "x \<notin> set (l ! ?i)" "set (l ! ?i) \<subseteq> set (concat l)" using Cons.prems(3) by auto
  with Cons.prems(1) i(1) have c: "distinct (x # l ! ?i)" "\<forall>e \<in> set (x # l ! ?i). slot (snd (kh e)) n = ?i"
    by (auto simp: placed_def)
  note p = placed_update [OF Cons.prems(1) i(1) c]
  have s: "set (concat ?l) = insert x (set (concat l))" using p(2) \<open>set (l ! ?i) \<subseteq> set (concat l)\<close> by auto
  have "length (concat ?l) = Suc (length (concat l))" using length_concat_update [of ?i l "x # l ! ?i"] i by simp
  moreover have "set xs \<inter> set (concat ?l) = {}" using Cons.prems(2,3) s by auto
  moreover have "fold (rehash kh n) (x # xs) l = fold (rehash kh n) xs ?l" by (simp add: rehash_def Let_def)
  ultimately show ?case using Cons.IH [OF p(1)] Cons.prems(2) s by simp
qed simp

lemma grow_pos: "0 < n \<Longrightarrow> 0 < grow elems n"
  by (induction elems n rule: grow.induct) (subst grow.simps, simp)

lemma hm_resize_ok:
  assumes "hm_inv kh t"
  shows "\<exists>t'. hm_resize kh t = ok t' \<and> hm_inv kh t' \<and> hm_members t' = hm_members t"
proof -
  let ?n = "grow (hm_elems t) 4"
  have n: "0 < ?n" by (rule grow_pos) simp
  have e: "placed kh ?n (replicate ?n [])" using n by (simp add: placed_def)
  have d: "distinct (concat (hm_list t))" using assms by (auto simp: hm_inv_def intro: placed_distinct)
  have z: "set (concat (replicate ?n [])) = ({} :: nat set)" "length (concat (replicate ?n [] :: nat list list)) = 0" by simp_all
  from rehash_all [OF e d] z assms show ?thesis
    by (auto simp: hm_resize_def Let_def hm_inv_def hm_members_def)
qed

section \<open>Chains\<close>

lemma chain_find_iff:
  "inj_on kh (set ps) \<Longrightarrow> chain_find kh key hash ps = Some e \<longleftrightarrow> e \<in> set ps \<and> kh e = (key, hash)"
  by (induction ps) (auto simp: inj_on_def prod_eq_iff)

lemma chain_find_None: "chain_find kh key hash ps = None \<longleftrightarrow> (\<forall>e \<in> set ps. kh e \<noteq> (key, hash))"
  by (induction ps) (auto simp: prod_eq_iff)

lemma chain_put_simps:
  assumes "inj_on kh (set ps)" and "distinct ps" and "e \<notin> set ps"
  shows "set (chain_put kh e ps) = insert e (set ps - {x. kh x = kh e})" and "distinct (chain_put kh e ps)"
    and "length (chain_put kh e ps) = length ps + (if chain_find kh (fst (kh e)) (snd (kh e)) ps = None then 1 else 0)"
  using assms by (induction ps) (auto simp: inj_on_def prod_eq_iff)

lemma chain_unlink_simps:
  assumes "inj_on kh (set ps)" and "distinct ps"
  shows "set (chain_unlink kh key hash ps) = set ps - {x. kh x = (key, hash)}" and "distinct (chain_unlink kh key hash ps)"
    and "length ps = length (chain_unlink kh key hash ps) + (if chain_find kh key hash ps = None then 0 else 1)"
  using assms by (induction ps) (auto simp: inj_on_def prod_eq_iff)

lemma hm_chain_inj:
  assumes "hm_inv kh t"
  shows "slot h (hm_len t) < hm_len t" and "inj_on kh (set (hm_list t ! slot h (hm_len t)))" and "distinct (hm_list t ! slot h (hm_len t))"
    and "set (hm_list t ! slot h (hm_len t)) \<subseteq> hm_members t"
    and "e \<in> hm_members t \<Longrightarrow> kh e = (k, h) \<Longrightarrow> e \<in> set (hm_list t ! slot h (hm_len t))"
proof -
  show less: "slot h (hm_len t) < hm_len t" using assms by (simp add: hm_inv_def placed_def slot_less)
  then have "hm_list t ! slot h (hm_len t) \<in> set (hm_list t)" using assms by (simp add: hm_inv_def placed_def)
  then show sub: "set (hm_list t ! slot h (hm_len t)) \<subseteq> hm_members t" by (auto simp: hm_members_def)
  then show "inj_on kh (set (hm_list t ! slot h (hm_len t)))" using assms by (auto simp: hm_inv_def intro: inj_on_subset)
  show "distinct (hm_list t ! slot h (hm_len t))" using assms less by (simp add: hm_inv_def placed_def)
  show "e \<in> set (hm_list t ! slot h (hm_len t))" if "e \<in> hm_members t" "kh e = (k, h)"
    using placed_member [of kh "hm_len t" "hm_list t" e] assms that by (simp add: hm_inv_def hm_members_def)
qed

lemma hm_lookup_iff:
  assumes "hm_inv kh t"
  shows "hm_lookup kh t key hash = Some e \<longleftrightarrow> e \<in> hm_members t \<and> kh e = (key, hash)"
  using chain_find_iff [OF hm_chain_inj(2) [OF assms], of key hash hash e] hm_chain_inj(4) [OF assms, of hash]
    hm_chain_inj(5) [OF assms, of e key hash]
  by (auto simp: hm_lookup_def hm_chain_def)

text \<open>Replacing the chain of a hash.\<close>

lemma hm_update:
  assumes "hm_inv kh t" and "distinct c" and "\<forall>e \<in> set c. slot (snd (kh e)) (hm_len t) = slot hash (hm_len t)"
    and "inj_on kh (hm_members t - set (hm_list t ! slot hash (hm_len t)) \<union> set c)"
    and "n + length (hm_list t ! slot hash (hm_len t)) = hm_elems t + length c"
  shows "hm_inv kh (t\<lparr>hm_list := (hm_list t)[slot hash (hm_len t) := c], hm_elems := n\<rparr>)
     \<and> hm_members (t\<lparr>hm_list := (hm_list t)[slot hash (hm_len t) := c], hm_elems := n\<rparr>)
       = hm_members t - set (hm_list t ! slot hash (hm_len t)) \<union> set c"
proof -
  let ?i = "slot hash (hm_len t)"
  have p: "placed kh (hm_len t) (hm_list t)" "hm_elems t = length (concat (hm_list t))" "?i < length (hm_list t)"
    using assms(1) hm_chain_inj(1) [OF assms(1), of hash] by (simp_all add: hm_inv_def placed_def)
  note u = placed_update [OF p(1) hm_chain_inj(1) [OF assms(1)] assms(2,3)]
  have "n = length (concat ((hm_list t)[?i := c]))" using length_concat_update [OF p(3), of c] p(2) assms(5) by simp
  with u assms(4) show ?thesis by (simp add: hm_inv_def hm_members_def del: set_concat)
qed

lemma hm_insert_ok:
  assumes "hm_inv kh t" and "e \<notin> hm_members t"
  shows "\<exists>t'. hm_insert kh e t = Inr (hm_lookup kh t (fst (kh e)) (snd (kh e)), t')
     \<and> hm_inv kh t' \<and> hm_members t' = insert e (hm_members t - {x. kh x = kh e})"
proof -
  obtain key hash where k: "kh e = (key, hash)" by (cases "kh e")
  let ?i = "slot hash (hm_len t)"
  let ?c = "hm_list t ! ?i" and ?old = "hm_lookup kh t key hash"
  note ch = hm_chain_inj [OF assms(1), where h = hash]
  have ne: "e \<notin> set ?c" using ch(4) assms(2) by blast
  note put = chain_put_simps [OF ch(2,3) ne, unfolded k fst_conv snd_conv]
  have gone: "hm_members t - set ?c \<union> set (chain_put kh e ?c) = insert e (hm_members t - {x. kh x = kh e})"
    unfolding put(1) k using ch(4) ch(5) by blast
  have inj: "inj_on kh (insert e (hm_members t - {x. kh x = kh e}))"
    using assms(1) by (auto simp: hm_inv_def inj_on_def)
  have slots: "\<forall>x \<in> set (chain_put kh e ?c). slot (snd (kh x)) (hm_len t) = ?i"
    using assms(1) ch(1) k by (auto simp: put(1) hm_inv_def placed_def)
  let ?n = "hm_elems t + (if ?old = None then 1 else 0)"
  let ?t = "t\<lparr>hm_list := (hm_list t)[?i := chain_put kh e ?c], hm_elems := ?n\<rparr>"
  have t: "hm_inv kh ?t \<and> hm_members ?t = insert e (hm_members t - {x. kh x = kh e})"
    using hm_update [OF assms(1) put(2) slots _, unfolded gone, OF inj, of ?n] put(3)
    by (simp add: hm_lookup_def hm_chain_def)
  show ?thesis
  proof (cases "?old = None \<and> ?n > hm_len t")
    case True
    with hm_resize_ok [OF conjunct1 [OF t]] t k show ?thesis
      by (auto simp: hm_insert_def Let_def hm_lookup_def hm_chain_def ok_def)
  next
    case False
    have "hm_insert kh e t = ok (?old, ?t)"
      using False by (auto simp: hm_insert_def Let_def hm_lookup_def hm_chain_def k)
    with t k show ?thesis by (simp add: ok_def)
  qed
qed

lemma hm_remove_ok:
  assumes "hm_inv kh t"
  shows "\<exists>t'. hm_remove kh key hash t = (hm_lookup kh t key hash, t')
     \<and> hm_inv kh t' \<and> hm_members t' = hm_members t - {x. kh x = (key, hash)}"
proof (cases "hm_lookup kh t key hash = None")
  case True
  then have "hm_members t - {x. kh x = (key, hash)} = hm_members t" using hm_lookup_iff [OF assms, of key hash] by auto
  with True assms show ?thesis by (simp add: hm_remove_def Let_def hm_lookup_def hm_chain_def)
next
  case False
  let ?i = "slot hash (hm_len t)"
  let ?c = "hm_list t ! ?i"
  note ch = hm_chain_inj [OF assms(1), where h = hash]
  note un = chain_unlink_simps [OF ch(2,3), of key hash]
  have gone: "hm_members t - set ?c \<union> set (chain_unlink kh key hash ?c) = hm_members t - {x. kh x = (key, hash)}"
    unfolding un(1) using ch(4) ch(5) by blast
  have inj: "inj_on kh (hm_members t - {x. kh x = (key, hash)})" using assms by (auto simp: hm_inv_def inj_on_def)
  have slots: "\<forall>x \<in> set (chain_unlink kh key hash ?c). slot (snd (kh x)) (hm_len t) = ?i"
    using assms(1) ch(1) by (auto simp: un(1) hm_inv_def placed_def)
  let ?t = "t\<lparr>hm_list := (hm_list t)[?i := chain_unlink kh key hash ?c], hm_elems := hm_elems t - 1\<rparr>"
  have "hm_elems t - 1 + length ?c = hm_elems t + length (chain_unlink kh key hash ?c)"
  proof -
    have "?c \<noteq> []" using False by (auto simp: hm_lookup_def hm_chain_def)
    moreover have "length (concat (hm_list t)) \<ge> length ?c"
      using length_concat_update [of ?i "hm_list t" "[]"] ch(1) assms by (simp add: hm_inv_def placed_def)
    ultimately have "hm_elems t > 0" using assms by (cases ?c) (simp_all add: hm_inv_def Suc_le_eq del: length_concat concat_eq_Nil_conv length_greater_0_conv)
    then show ?thesis using un(3) False by (auto simp: hm_lookup_def hm_chain_def)
  qed
  note up = hm_update [OF assms un(2) slots _ this, unfolded gone, OF inj]
  have "hm_remove kh key hash t = (hm_lookup kh t key hash, ?t)"
    using False by (simp add: hm_remove_def Let_def hm_lookup_def hm_chain_def del: not_None_eq)
  with up show ?thesis by (intro exI [of _ ?t]) simp
qed

lemma hm_inv_cong:
  assumes "hm_inv kh t" and "\<And>e. e \<in> hm_members t \<Longrightarrow> kh' e = kh e"
  shows "hm_inv kh' t"
proof -
  have "e \<in> hm_members t" if "e \<in> set (hm_list t ! i)" "i < hm_len t" for e i
    using that assms(1) by (auto simp: hm_members_def hm_inv_def placed_def intro!: bexI [of _ "hm_list t ! i"])
  moreover have "inj_on kh' (hm_members t)" using assms by (auto simp: hm_inv_def inj_on_def)
  ultimately show ?thesis using assms by (auto simp: hm_inv_def placed_def)
qed

interpretation hm: handle_table hm_inv hm_members HashMap_create hm_lookup hm_insert hm_remove
proof unfold_locales
  show "hm_inv kh HashMap_create" "hm_members HashMap_create = {}" for kh
    by (auto simp: hm_inv_def placed_def hm_members_def HashMap_create_def)
qed (fact hm_inv_cong hm_lookup_iff hm_insert_ok hm_remove_ok)+

end
