(* ===== verification/Lru_Cache.thy ===== *)
theory Lru_Cache
  imports Hash_Map Hash
begin

text \<open>
  The LRU cache of cache.cpp. Allocated handles live in a store, addressed by numbers that are never
  reused; a circular list headed by a sentinel is the list of its handles, oldest first. The
  ghost field \<open>deleted\<close> records the calls of the deleter, oldest first, each with the number of the
  handle. Assertions, and uses of a freed handle, are \<open>Abort\<close>s. Each operation runs under the mutex
  of its shard. Sizes and charges are \<open>size_t\<close> and wrap. The reference count is a natural number
  where the code has an \<open>uint32_t\<close>: the two agree as long as a handle has less than \<open>2 ^ 32\<close>
  references at a time, and the model says nothing about a cache with more.
\<close>

record 'v LRUHandle =
  lh_key :: bytes
  lh_hash :: u32
  lh_value :: 'v
  lh_charge :: u64
  lh_in_cache :: bool
  lh_refs :: nat

record Stats =
  total_evictions :: u64
  total_inserts :: u64
  total_misses :: u64
  total_hits :: u64

record 'v LRUCache =
  capacity :: u64
  usage :: u64
  lru :: "nat list"
  in_use :: "nat list"
  handles :: "nat \<Rightarrow> 'v LRUHandle option"
  next_handle :: nat
  table :: HashMap
  stats :: Stats
  deleted :: "(nat \<times> bytes \<times> 'v) list"

definition LRUCache_create :: "u64 \<Rightarrow> 'v LRUCache" where
  "LRUCache_create cap =
     \<lparr>capacity = cap, usage = 0, lru = [], in_use = [], handles = (\<lambda>_. None), next_handle = 0, table = HashMap_create,
      stats = \<lparr>total_evictions = 0, total_inserts = 0, total_misses = 0, total_hits = 0\<rparr>, deleted = []\<rparr>"

definition handle_kh :: "(nat \<Rightarrow> 'v LRUHandle option) \<Rightarrow> key_hash" where
  "handle_kh hs e = (case hs e of Some h \<Rightarrow> (lh_key h, lh_hash h) | None \<Rightarrow> ([], 0))"

section \<open>Lists and reference counts\<close>

definition LRU_remove :: "nat \<Rightarrow> 'v LRUCache \<Rightarrow> 'v LRUCache" where
  "LRU_remove e c = c\<lparr>lru := remove1 e (lru c), in_use := remove1 e (in_use c)\<rparr>"

definition LRU_append_lru :: "nat \<Rightarrow> 'v LRUCache \<Rightarrow> 'v LRUCache" where
  "LRU_append_lru e c = c\<lparr>lru := lru c @ [e]\<rparr>"

definition LRU_append_in_use :: "nat \<Rightarrow> 'v LRUCache \<Rightarrow> 'v LRUCache" where
  "LRU_append_in_use e c = c\<lparr>in_use := in_use c @ [e]\<rparr>"

definition lru_ref :: "nat \<Rightarrow> 'v LRUCache \<Rightarrow> unit result \<times> 'v LRUCache" where
  "lru_ref e c =
     (case handles c e of
        None \<Rightarrow> (abort ''use of a freed handle'', c)
      | Some h \<Rightarrow>
          let c = (if lh_refs h = 1 \<and> lh_in_cache h then LRU_append_in_use e (LRU_remove e c) else c)
          in (ok (), c\<lparr>handles := (handles c)(e \<mapsto> h\<lparr>lh_refs := lh_refs h + 1\<rparr>)\<rparr>))"

definition lru_unref :: "nat \<Rightarrow> 'v LRUCache \<Rightarrow> unit result \<times> 'v LRUCache" where
  "lru_unref e c =
     (case handles c e of
        None \<Rightarrow> (abort ''use of a freed handle'', c)
      | Some h \<Rightarrow>
          if lh_refs h = 0 then (abort ''assertion e->refs > 0'', c)
          else
            let h = h\<lparr>lh_refs := lh_refs h - 1\<rparr>; c = c\<lparr>handles := (handles c)(e \<mapsto> h)\<rparr> in
            if lh_refs h = 0 then
              if lh_in_cache h then (abort ''assertion !e->in_cache'', c)
              else (ok (), c\<lparr>deleted := deleted c @ [(e, lh_key h, lh_value h)], handles := (handles c)(e := None)\<rparr>)
            else if lh_in_cache h \<and> lh_refs h = 1 then (ok (), LRU_append_lru e (LRU_remove e c))
            else (ok (), c))"

definition finish_erase :: "nat option \<Rightarrow> 'v LRUCache \<Rightarrow> bool result \<times> 'v LRUCache" where
  "finish_erase eo c =
     (case eo of
        None \<Rightarrow> (ok False, c)
      | Some e \<Rightarrow>
          (case handles c e of
             None \<Rightarrow> (abort ''use of a freed handle'', c)
           | Some h \<Rightarrow>
               if \<not> lh_in_cache h then (abort ''assertion e->in_cache'', c)
               else
                 let c = LRU_remove e c;
                     c = c\<lparr>handles := (handles c)(e \<mapsto> h\<lparr>lh_in_cache := False\<rparr>), usage := usage c - lh_charge h\<rparr>
                 in attempt (lru_unref e c) (\<lambda>_ c. (ok True, c))))"

section \<open>Operations\<close>

definition bump_hits :: "'v LRUCache \<Rightarrow> 'v LRUCache" where
  "bump_hits c = c\<lparr>stats := (stats c)\<lparr>total_hits := total_hits (stats c) + 1\<rparr>\<rparr>"

definition bump_misses :: "'v LRUCache \<Rightarrow> 'v LRUCache" where
  "bump_misses c = c\<lparr>stats := (stats c)\<lparr>total_misses := total_misses (stats c) + 1\<rparr>\<rparr>"

definition bump_inserts :: "'v LRUCache \<Rightarrow> 'v LRUCache" where
  "bump_inserts c = c\<lparr>stats := (stats c)\<lparr>total_inserts := total_inserts (stats c) + 1\<rparr>\<rparr>"

definition bump_evictions :: "'v LRUCache \<Rightarrow> 'v LRUCache" where
  "bump_evictions c = c\<lparr>stats := (stats c)\<lparr>total_evictions := total_evictions (stats c) + 1\<rparr>\<rparr>"

definition table_remove :: "bytes \<Rightarrow> u32 \<Rightarrow> 'v LRUCache \<Rightarrow> nat option \<times> 'v LRUCache" where
  "table_remove key hash c =
     (let (r, t) = hm_remove (handle_kh (handles c)) key hash (table c) in (r, c\<lparr>table := t\<rparr>))"

definition lru_lookup :: "bytes \<Rightarrow> u32 \<Rightarrow> 'v LRUCache \<Rightarrow> nat option result \<times> 'v LRUCache" where
  "lru_lookup key hash c =
     (case hm_lookup (handle_kh (handles c)) (table c) key hash of
        Some e \<Rightarrow> attempt (lru_ref e (bump_hits c)) (\<lambda>_ c. (ok (Some e), c))
      | None \<Rightarrow> (ok None, bump_misses c))"

definition lru_release :: "nat \<Rightarrow> 'v LRUCache \<Rightarrow> unit result \<times> 'v LRUCache" where
  "lru_release e c = lru_unref e c"

fun evict_loop :: "nat \<Rightarrow> 'v LRUCache \<Rightarrow> unit result \<times> 'v LRUCache" where
  "evict_loop fuel c =
     (if usage c > capacity c \<and> lru c \<noteq> [] then
        (case fuel of
           0 \<Rightarrow> (abort ''out of fuel'', c)
         | Suc fuel \<Rightarrow>
             let old = hd (lru c) in
             (case handles c old of
                None \<Rightarrow> (abort ''use of a freed handle'', c)
              | Some h \<Rightarrow>
                  if lh_refs h \<noteq> 1 then (abort ''assertion old->refs == 1'', c)
                  else
                    let (r, c) = table_remove (lh_key h) (lh_hash h) c in
                    attempt (finish_erase r c) (\<lambda>erased c.
                      evict_loop fuel (if erased then bump_evictions c else c))))
      else (ok (), c))"

declare evict_loop.simps [simp del]

definition lru_insert :: "bytes \<Rightarrow> u32 \<Rightarrow> 'v \<Rightarrow> u64 \<Rightarrow> 'v LRUCache \<Rightarrow> nat result \<times> 'v LRUCache" where
  "lru_insert key hash val charge c =
     (let e = next_handle c;
          h = \<lparr>lh_key = key, lh_hash = hash, lh_value = val, lh_charge = charge, lh_in_cache = False, lh_refs = 1\<rparr>;
          c = c\<lparr>next_handle := e + 1, handles := (handles c)(e \<mapsto> h)\<rparr>
      in attempt
          (if capacity c > 0 then
             let c = LRU_append_in_use e (c\<lparr>handles := (handles c)(e \<mapsto> h\<lparr>lh_refs := lh_refs h + 1, lh_in_cache := True\<rparr>)\<rparr>);
                 c = c\<lparr>usage := usage c + charge\<rparr>
             in (case hm_insert (handle_kh (handles c)) e (table c) of
                   Inl f \<Rightarrow> (Inl f, c)
                 | Inr (old, t) \<Rightarrow>
                     attempt (finish_erase old (c\<lparr>table := t\<rparr>)) (\<lambda>_ c. (ok (), bump_inserts c)))
           else (ok (), c))
          (\<lambda>_ c. attempt (evict_loop (length (lru c)) c) (\<lambda>_ c. (ok e, c))))"

definition lru_erase :: "bytes \<Rightarrow> u32 \<Rightarrow> 'v LRUCache \<Rightarrow> unit result \<times> 'v LRUCache" where
  "lru_erase key hash c =
     (let (r, c) = table_remove key hash c in
      attempt (finish_erase r c) (\<lambda>erased c. (ok (), if erased then bump_evictions c else c)))"

fun lru_prune :: "nat \<Rightarrow> 'v LRUCache \<Rightarrow> unit result \<times> 'v LRUCache" where
  "lru_prune fuel c =
     (if lru c \<noteq> [] then
        (case fuel of
           0 \<Rightarrow> (abort ''out of fuel'', c)
         | Suc fuel \<Rightarrow>
             let e = hd (lru c) in
             (case handles c e of
                None \<Rightarrow> (abort ''use of a freed handle'', c)
              | Some h \<Rightarrow>
                  if lh_refs h \<noteq> 1 then (abort ''assertion e->refs == 1'', c)
                  else
                    let (r, c) = table_remove (lh_key h) (lh_hash h) c in
                    attempt (finish_erase r c) (\<lambda>erased c.
                      if \<not> erased then (abort ''assertion erased'', c) else lru_prune fuel c)))
      else (ok (), c))"

declare lru_prune.simps [simp del]

definition lru_total_charge :: "'v LRUCache \<Rightarrow> u64" where
  "lru_total_charge c = usage c"

definition lru_stats_snapshot :: "'v LRUCache \<Rightarrow> Stats" where
  "lru_stats_snapshot c = stats c"

section \<open>Invariant\<close>

text \<open>
  Idle cached handles have one reference (the cache's) and are in \<open>lru\<close>; pinned ones have more and
  are in \<open>in_use\<close>; the table holds exactly the cached handles. \<open>lru_inv_but X\<close> is the invariant
  while the handles \<open>X\<close> are in a list but not in the table.
\<close>

definition cached :: "'v LRUCache \<Rightarrow> nat list" where
  "cached c = lru c @ in_use c"

definition handle_ok :: "'v LRUCache \<Rightarrow> nat \<Rightarrow> 'v LRUHandle \<Rightarrow> bool" where
  "handle_ok c e h \<longleftrightarrow> e < next_handle c \<and> 1 \<le> lh_refs h
     \<and> (lh_in_cache h \<longleftrightarrow> e \<in> set (lru c) \<union> set (in_use c))
     \<and> (e \<in> set (lru c) \<longrightarrow> lh_refs h = 1) \<and> (e \<in> set (in_use c) \<longrightarrow> 2 \<le> lh_refs h)"

definition lru_inv_but :: "nat set \<Rightarrow> 'v LRUCache \<Rightarrow> bool" where
  "lru_inv_but X c \<longleftrightarrow> distinct (cached c) \<and> set (cached c) \<subseteq> dom (handles c)
     \<and> (\<forall>e h. handles c e = Some h \<longrightarrow> handle_ok c e h)
     \<and> hm_inv (handle_kh (handles c)) (table c) \<and> hm_members (table c) = set (cached c) - X
     \<and> usage c = (\<Sum>e \<in> set (cached c). lh_charge (the (handles c e)))
     \<and> distinct (map fst (deleted c)) \<and> fst ` set (deleted c) = {..<next_handle c} - dom (handles c)"

abbreviation lru_inv :: "'v LRUCache \<Rightarrow> bool" where
  "lru_inv \<equiv> lru_inv_but {}"

lemma lru_inv_create: "lru_inv (LRUCache_create cap)"
  using hm.inv_empty by (simp add: lru_inv_but_def LRUCache_create_def cached_def hm.members_empty)

lemma handle_kh_update [simp]:
  "hs e = Some h \<Longrightarrow> lh_key h' = lh_key h \<Longrightarrow> lh_hash h' = lh_hash h \<Longrightarrow> handle_kh (hs(e \<mapsto> h')) = handle_kh hs"
  by (auto simp: handle_kh_def fun_eq_iff)

lemma sum_handles_cong:
  "(\<And>x. x \<in> S \<Longrightarrow> lh_charge (the (hs' x)) = lh_charge (the (hs x))) \<Longrightarrow>
   (\<Sum>x \<in> S. lh_charge (the (hs' x))) = (\<Sum>x \<in> S. lh_charge (the (hs x)))"
  by (rule sum.cong) auto

text \<open>What the operations leave alone; \<open>moved\<close> is a change of the lists and of one reference count.\<close>

definition moved :: "nat \<Rightarrow> nat \<Rightarrow> 'v LRUCache \<Rightarrow> 'v LRUCache \<Rightarrow> bool" where
  "moved e n c c' \<longleftrightarrow> (\<exists>h l u. handles c e = Some h \<and> c' = c\<lparr>lru := l, in_use := u, handles := (handles c)(e \<mapsto> h\<lparr>lh_refs := n\<rparr>)\<rparr>
     \<and> set l \<union> set u = set (cached c) \<and> distinct (l @ u)
     \<and> set l - {e} = set (lru c) - {e} \<and> set u - {e} = set (in_use c) - {e}
     \<and> (e \<in> set (cached c) \<longrightarrow> (e \<in> set l \<longleftrightarrow> n = 1)))"

lemma moved_inv:
  assumes "moved e n c c'" and "lru_inv_but X c" and "1 \<le> n"
  shows "lru_inv_but X c'" and "handles c' = (handles c)(e \<mapsto> (the (handles c e))\<lparr>lh_refs := n\<rparr>)"
    and "usage c' = usage c" and "capacity c' = capacity c" and "table c' = table c" and "deleted c' = deleted c"
    and "set (cached c') = set (cached c)" and "next_handle c' = next_handle c" and "stats c' = stats c"
proof -
  obtain h l u where m: "handles c e = Some h" "c' = c\<lparr>lru := l, in_use := u, handles := (handles c)(e \<mapsto> h\<lparr>lh_refs := n\<rparr>)\<rparr>"
      "set l \<union> set u = set (cached c)" "distinct (l @ u)" "set l - {e} = set (lru c) - {e}" "set u - {e} = set (in_use c) - {e}"
      "e \<in> set (cached c) \<longrightarrow> (e \<in> set l \<longleftrightarrow> n = 1)"
    using assms(1) unfolding moved_def by blast
  show simps: "handles c' = (handles c)(e \<mapsto> (the (handles c e))\<lparr>lh_refs := n\<rparr>)"
    "usage c' = usage c" "capacity c' = capacity c" "table c' = table c" "deleted c' = deleted c" "next_handle c' = next_handle c"
    "set (cached c') = set (cached c)" "stats c' = stats c"
    using m by (simp_all add: cached_def)
  have ok: "handle_ok c' x k" if "handles c' x = Some k" for x k
  proof (cases "x = e")
    case True
    have o: "handle_ok c e h" using assms(2) m(1) by (simp add: lru_inv_but_def)
    have k: "k = h\<lparr>lh_refs := n\<rparr>" using that m(1) True simps(1) by simp
    show ?thesis using o m(2-4,7) assms(3) unfolding True k handle_ok_def cached_def by auto
  next
    case False
    then have "handles c x = Some k" using that simps(1) by simp
    then have "handle_ok c x k" using assms(2) by (simp add: lru_inv_but_def)
    moreover have "x \<in> set l \<longleftrightarrow> x \<in> set (lru c)" "x \<in> set u \<longleftrightarrow> x \<in> set (in_use c)" using m(5,6) False by blast+
    ultimately show ?thesis using m(2) by (simp add: handle_ok_def)
  qed
  have "(\<Sum>x \<in> set (cached c). lh_charge (the (handles c' x))) = (\<Sum>x \<in> set (cached c). lh_charge (the (handles c x)))"
    by (rule sum_handles_cong) (simp add: simps(1) m(1))
  moreover have "dom (handles c') = dom (handles c)" using m(1,2) by auto
  ultimately show "lru_inv_but X c'"
    using assms(2) m(1,2,4) ok simps by (auto simp: lru_inv_but_def cached_def)
qed

lemma remove1_cached:
  assumes "distinct (cached c)"
  shows "set (remove1 e (lru c)) = set (lru c) - {e}" and "set (remove1 e (in_use c)) = set (in_use c) - {e}"
    and "distinct (remove1 e (lru c))" and "distinct (remove1 e (in_use c))"
  using assms by (simp_all add: cached_def)

lemma lru_ref_moved:
  assumes "lru_inv_but X c" and "handles c e = Some h"
  shows "\<exists>c'. lru_ref e c = (ok (), c') \<and> moved e (lh_refs h + 1) c c'"
proof -
  have o: "handle_ok c e h" and d: "distinct (cached c)" using assms by (auto simp: lru_inv_but_def)
  note r = remove1_cached [OF d, of e]
  show ?thesis
  proof (cases "lh_refs h = 1 \<and> lh_in_cache h")
    case True
    let ?l = "remove1 e (lru c)" and ?u = "remove1 e (in_use c) @ [e]"
    have "lru_ref e c = (ok (), c\<lparr>lru := ?l, in_use := ?u, handles := (handles c)(e \<mapsto> h\<lparr>lh_refs := lh_refs h + 1\<rparr>)\<rparr>)"
      using assms(2) True by (simp add: lru_ref_def LRU_append_in_use_def LRU_remove_def Let_def)
    moreover have "moved e (lh_refs h + 1) c (c\<lparr>lru := ?l, in_use := ?u, handles := (handles c)(e \<mapsto> h\<lparr>lh_refs := lh_refs h + 1\<rparr>)\<rparr>)"
      unfolding moved_def
      by (rule exI [of _ h], rule exI [of _ ?l], rule exI [of _ ?u]) (use assms(2) o d r True in \<open>auto simp: cached_def handle_ok_def\<close>)
    ultimately show ?thesis by blast
  next
    case False
    have "lru_ref e c = (ok (), c\<lparr>lru := lru c, in_use := in_use c, handles := (handles c)(e \<mapsto> h\<lparr>lh_refs := lh_refs h + 1\<rparr>)\<rparr>)"
      using assms(2) False by (simp add: lru_ref_def Let_def) auto
    moreover have "moved e (lh_refs h + 1) c (c\<lparr>lru := lru c, in_use := in_use c, handles := (handles c)(e \<mapsto> h\<lparr>lh_refs := lh_refs h + 1\<rparr>)\<rparr>)"
      unfolding moved_def
      by (rule exI [of _ h], rule exI [of _ "lru c"], rule exI [of _ "in_use c"]) (use assms(2) o d False in \<open>auto simp: cached_def handle_ok_def\<close>)
    ultimately show ?thesis by blast
  qed
qed

lemma lru_inv_butD:
  assumes "lru_inv_but X c"
  shows "distinct (cached c)" and "handles c e = Some h \<Longrightarrow> handle_ok c e h" and "e \<in> set (cached c) \<Longrightarrow> \<exists>h. handles c e = Some h"
    and "hm_inv (handle_kh (handles c)) (table c)" and "hm_members (table c) = set (cached c) - X"
    and "usage c = (\<Sum>e \<in> set (cached c). lh_charge (the (handles c e)))" and "finite (dom (handles c))"
    and "distinct (map fst (deleted c))" and "fst ` set (deleted c) = {..<next_handle c} - dom (handles c)"
proof -
  note d = assms [unfolded lru_inv_but_def]
  show "handles c e = Some h \<Longrightarrow> handle_ok c e h" using d by blast
  show "e \<in> set (cached c) \<Longrightarrow> \<exists>h. handles c e = Some h" using d by blast
  have "dom (handles c) \<subseteq> {..<next_handle c}" using d by (auto simp: handle_ok_def)
  then show "finite (dom (handles c))" by (rule finite_subset) simp
qed (use assms in \<open>simp_all add: lru_inv_but_def\<close>)

lemma lru_unref_moved:
  assumes "lru_inv_but X c" and "handles c e = Some h" and "2 \<le> lh_refs h"
  shows "\<exists>c'. lru_unref e c = (ok (), c') \<and> moved e (lh_refs h - 1) c c'"
proof -
  have o: "handle_ok c e h" and d: "distinct (cached c)" using lru_inv_butD [OF assms(1)] assms(2) by simp_all
  note r = remove1_cached [OF d, of e]
  show ?thesis
  proof (cases "lh_in_cache h \<and> lh_refs h = 2")
    case True
    let ?l = "remove1 e (lru c) @ [e]" and ?u = "remove1 e (in_use c)"
    have "lru_unref e c = (ok (), c\<lparr>lru := ?l, in_use := ?u, handles := (handles c)(e \<mapsto> h\<lparr>lh_refs := lh_refs h - 1\<rparr>)\<rparr>)"
      using assms(2) True by (simp add: lru_unref_def LRU_append_lru_def LRU_remove_def Let_def)
    moreover have "moved e (lh_refs h - 1) c (c\<lparr>lru := ?l, in_use := ?u, handles := (handles c)(e \<mapsto> h\<lparr>lh_refs := lh_refs h - 1\<rparr>)\<rparr>)"
      unfolding moved_def
      by (rule exI [of _ h], rule exI [of _ ?l], rule exI [of _ ?u]) (use assms(2) o d r True in \<open>auto simp: cached_def handle_ok_def\<close>)
    ultimately show ?thesis by (intro exI conjI)
  next
    case False
    let ?c = "c\<lparr>lru := lru c, in_use := in_use c, handles := (handles c)(e \<mapsto> h\<lparr>lh_refs := lh_refs h - 1\<rparr>)\<rparr>"
    have "lru_unref e c = (ok (), ?c)"
      using assms(2,3) False by (auto simp: lru_unref_def Let_def)
    moreover have "moved e (lh_refs h - 1) c ?c"
      unfolding moved_def
      by (rule exI [of _ h], rule exI [of _ "lru c"], rule exI [of _ "in_use c"])
        (use assms(2,3) o d False in \<open>auto simp: cached_def handle_ok_def\<close>)
    ultimately show ?thesis by (intro exI conjI)
  qed
qed

text \<open>Freeing a handle that is in no list.\<close>

definition freed :: "nat \<Rightarrow> 'v LRUCache \<Rightarrow> 'v LRUCache" where
  "freed e c = c\<lparr>deleted := deleted c @ [(e, lh_key (the (handles c e)), lh_value (the (handles c e)))], handles := (handles c)(e := None)\<rparr>"

lemma lru_unref_freed:
  "handles c e = Some h \<Longrightarrow> lh_refs h = 1 \<Longrightarrow> \<not> lh_in_cache h \<Longrightarrow> lru_unref e c = (ok (), freed e c)"
  by (simp add: lru_unref_def Let_def freed_def)

lemma freed_simps [simp]:
  "lru (freed e c) = lru c" "in_use (freed e c) = in_use c" "cached (freed e c) = cached c" "handles (freed e c) = (handles c)(e := None)"
  "usage (freed e c) = usage c" "capacity (freed e c) = capacity c" "table (freed e c) = table c" "stats (freed e c) = stats c"
  "next_handle (freed e c) = next_handle c"
  by (simp_all add: freed_def cached_def)

lemma freed_inv:
  assumes "lru_inv c" and "handles c e = Some h" and "\<not> lh_in_cache h"
  shows "lru_inv (freed e c)"
proof -
  note i = lru_inv_butD [OF assms(1)]
  have e: "e \<notin> set (cached c)" using i(2) [OF assms(2)] assms(3) by (auto simp: handle_ok_def cached_def)
  have "hm_inv (handle_kh ((handles c)(e := None))) (table c)"
    by (rule hm.inv_cong [OF i(4)]) (use i(5) e in \<open>auto simp: handle_kh_def\<close>)
  moreover have "(\<Sum>x \<in> set (cached c). lh_charge (the (((handles c)(e := None)) x))) = usage c"
    unfolding i(6) by (rule sum_handles_cong) (use e in auto)
  moreover have "distinct (map fst (deleted (freed e c)))"
    using i(8,9) assms(2) by (auto simp: freed_def)
  moreover have "fst ` set (deleted (freed e c)) = {..<next_handle c} - dom ((handles c)(e := None))"
    using i(2) [OF assms(2)] i(9) by (auto simp: freed_def handle_ok_def)
  ultimately show ?thesis
    using i e assms(2) unfolding lru_inv_but_def
    by (auto simp: handle_ok_def freed_def cached_def)
qed

section \<open>Erasing\<close>

text \<open>References held outside the cache; what an erasure does to the store of handles.\<close>

definition pins :: "'v LRUHandle \<Rightarrow> nat" where
  "pins h = lh_refs h - (if lh_in_cache h then 1 else 0)"

definition same_entry :: "'v LRUHandle \<Rightarrow> 'v LRUHandle \<Rightarrow> bool" where
  "same_entry h k \<longleftrightarrow> lh_key h = lh_key k \<and> lh_hash h = lh_hash k \<and> lh_value h = lh_value k \<and> lh_charge h = lh_charge k"

definition entry_le :: "'v LRUHandle option \<Rightarrow> 'v LRUHandle option \<Rightarrow> bool" where
  "entry_le a b \<longleftrightarrow> (case b of None \<Rightarrow> (\<forall>h. a = Some h \<longrightarrow> pins h = 0)
      | Some k \<Rightarrow> (\<exists>h. a = Some h \<and> same_entry h k \<and> pins k = pins h))"

definition store_le :: "'v LRUCache \<Rightarrow> 'v LRUCache \<Rightarrow> bool" where
  "store_le c c' \<longleftrightarrow> (\<forall>x. entry_le (handles c x) (handles c' x))"

lemma entry_le_refl [simp]: "entry_le a a"
  by (auto simp: entry_le_def same_entry_def split: option.splits)

lemma entry_le_trans: "entry_le a b \<Longrightarrow> entry_le b d \<Longrightarrow> entry_le a d"
  by (cases a; cases b; cases d) (auto simp: entry_le_def same_entry_def)

lemma store_le_refl [simp]: "store_le c c"
  by (simp add: store_le_def)

lemma store_le_trans: "store_le c d \<Longrightarrow> store_le d e \<Longrightarrow> store_le c e"
  unfolding store_le_def using entry_le_trans by blast

lemma store_le_update:
  "handles d = (handles c)(e := b) \<Longrightarrow> entry_le (handles c e) b \<Longrightarrow> store_le c d"
  by (simp add: store_le_def)

definition dropped :: "nat \<Rightarrow> 'v LRUCache \<Rightarrow> 'v LRUCache \<Rightarrow> bool" where
  "dropped e c c' \<longleftrightarrow> lru_inv c' \<and> lru c' = remove1 e (lru c) \<and> in_use c' = remove1 e (in_use c) \<and> capacity c' = capacity c
     \<and> usage c' = usage c - lh_charge (the (handles c e)) \<and> table c' = table c \<and> stats c' = stats c
     \<and> next_handle c' = next_handle c \<and> store_le c c'
     \<and> (\<forall>x. x \<noteq> e \<longrightarrow> handles c' x = handles c x)"

lemma finish_erase_dropped:
  assumes "lru_inv_but {e} c" and "e \<in> set (cached c)"
  shows "\<exists>c'. finish_erase (Some e) c = (ok True, c') \<and> dropped e c c'"
proof -
  note i = lru_inv_butD [OF assms(1)]
  obtain h where h: "handles c e = Some h" using i(3) [OF assms(2)] by blast
  have o: "lh_in_cache h" "1 \<le> lh_refs h" using i(2) [OF h] assms(2) by (auto simp: handle_ok_def cached_def)
  let ?h = "h\<lparr>lh_in_cache := False\<rparr>"
  define d where "d = c\<lparr>lru := remove1 e (lru c), in_use := remove1 e (in_use c), handles := (handles c)(e \<mapsto> ?h), usage := usage c - lh_charge h\<rparr>"
  have ds: "lru d = remove1 e (lru c)" "in_use d = remove1 e (in_use c)" "handles d = (handles c)(e \<mapsto> ?h)" "usage d = usage c - lh_charge h"
      "capacity d = capacity c" "table d = table c" "stats d = stats c" "next_handle d = next_handle c" "deleted d = deleted c"
    by (simp_all add: d_def)
  note r = remove1_cached [OF i(1), of e]
  have cd: "set (cached d) = set (cached c) - {e}" "distinct (cached d)" using r i(1) by (auto simp: cached_def ds)
  have ok: "handle_ok d x k" if "handles d x = Some k" for x k
  proof (cases "x = e")
    case True
    then have "k = ?h" using that by (simp add: ds)
    then show ?thesis using i(2) [OF h] True r(1,2) unfolding handle_ok_def ds by simp
  next
    case False
    then have "handles c x = Some k" using that by (simp add: ds)
    from i(2) [OF this] False r(1,2) show ?thesis unfolding handle_ok_def ds by simp
  qed
  have sum: "usage d = (\<Sum>x \<in> set (cached d). lh_charge (the (handles d x)))"
  proof -
    have "(\<Sum>x \<in> set (cached d). lh_charge (the (handles d x))) = (\<Sum>x \<in> set (cached c) - {e}. lh_charge (the (handles c x)))"
      unfolding cd(1) ds by (rule sum.cong) auto
    also have "\<dots> = usage c - lh_charge h" unfolding i(6) using h assms(2) by (simp add: sum_diff1)
    finally show ?thesis by (simp add: ds)
  qed
  have "dom (handles d) = dom (handles c)" using h by (auto simp: ds)
  then have inv: "lru_inv d"
    using i(3) i(4,5,8,9) cd ok sum h unfolding lru_inv_but_def by (auto simp: ds)
  have hd: "handles d e = Some ?h" "\<not> lh_in_cache ?h" by (simp_all add: ds)
  have fe: "finish_erase (Some e) c = attempt (lru_unref e d) (\<lambda>_ c. (ok True, c))"
    using h o by (simp add: finish_erase_def LRU_remove_def Let_def d_def)
  show ?thesis
  proof (cases "lh_refs h = 1")
    case True
    then have "finish_erase (Some e) c = (ok True, freed e d)" using fe lru_unref_freed [OF hd(1)] by simp
    moreover have "dropped e c (freed e d)"
      unfolding dropped_def using freed_inv [OF inv hd] True h o
        store_le_update [of "freed e d" c e None] by (simp add: ds entry_le_def pins_def)
    ultimately show ?thesis by (intro exI conjI)
  next
    case False
    let ?d = "d\<lparr>handles := (handles d)(e \<mapsto> ?h\<lparr>lh_refs := lh_refs h - 1\<rparr>)\<rparr>"
    have u: "lru_unref e d = (ok (), ?d)" using hd False o by (auto simp: lru_unref_def Let_def)
    have "lru_inv ?d"
      using lru_unref_moved [OF inv hd(1)] moved_inv(1) [OF _ inv, of e "lh_refs h - 1"] False o u by auto
    then have "dropped e c ?d"
      unfolding dropped_def using h o store_le_update [of ?d c e "Some (?h\<lparr>lh_refs := lh_refs h - 1\<rparr>)"]
      by (simp add: ds entry_le_def pins_def same_entry_def)
    then show ?thesis using fe u by auto
  qed
qed

lemma table_remove_member:
  assumes "lru_inv c" and "e \<in> set (cached c)" and "handles c e = Some h"
  shows "\<exists>t. table_remove (lh_key h) (lh_hash h) c = (Some e, c\<lparr>table := t\<rparr>) \<and> lru_inv_but {e} (c\<lparr>table := t\<rparr>)"
proof -
  note i = lru_inv_butD [OF assms(1)]
  have "handle_kh (handles c) e = (lh_key h, lh_hash h)" using assms(3) by (simp add: handle_kh_def)
  with hm.remove_member [OF i(4), of e "lh_key h" "lh_hash h"] i(5) assms(2) obtain t where
    t: "hm_remove (handle_kh (handles c)) (lh_key h) (lh_hash h) (table c) = (Some e, t)" "hm_inv (handle_kh (handles c)) t"
      "hm_members t = hm_members (table c) - {e}" by auto
  moreover have "lru_inv_but {e} (c\<lparr>table := t\<rparr>)"
    using assms(1) t(2,3) i(5) by (auto simp: lru_inv_but_def cached_def handle_ok_def)
  ultimately show ?thesis by (auto simp: table_remove_def)
qed

lemma erase_member:
  assumes "lru_inv c" and "e \<in> set (cached c)" and "handles c e = Some h"
  shows "\<exists>t c'. table_remove (lh_key h) (lh_hash h) c = (Some e, c\<lparr>table := t\<rparr>)
     \<and> finish_erase (Some e) (c\<lparr>table := t\<rparr>) = (ok True, c') \<and> dropped e (c\<lparr>table := t\<rparr>) c'"
proof -
  obtain t where t: "table_remove (lh_key h) (lh_hash h) c = (Some e, c\<lparr>table := t\<rparr>)" "lru_inv_but {e} (c\<lparr>table := t\<rparr>)"
    using table_remove_member [OF assms] by blast
  with finish_erase_dropped [OF t(2)] assms(2) show ?thesis by (auto simp: cached_def)
qed

lemma stats_irrelevant [simp]:
  "lru_inv_but X (c\<lparr>stats := st\<rparr>) = lru_inv_but X c" "cached (c\<lparr>stats := st\<rparr>) = cached c"
  "store_le c (d\<lparr>stats := st\<rparr>) = store_le c d" "store_le (c\<lparr>stats := st\<rparr>) d = store_le c d"
  by (simp_all add: lru_inv_but_def cached_def handle_ok_def store_le_def)

lemma table_irrelevant [simp]: "store_le (c\<lparr>table := t\<rparr>) d = store_le c d" "cached (c\<lparr>table := t\<rparr>) = cached c"
  by (simp_all add: store_le_def cached_def)

lemmas bump_defs = bump_hits_def bump_misses_def bump_inserts_def bump_evictions_def

text \<open>Taking the oldest idle handle out.\<close>

lemma oldest_erased:
  assumes "lru_inv c" and "lru c = e # es"
  obtains h t d where "handles c e = Some h" and "lh_refs h = 1" and "table_remove (lh_key h) (lh_hash h) c = (Some e, c\<lparr>table := t\<rparr>)"
    and "finish_erase (Some e) (c\<lparr>table := t\<rparr>) = (ok True, d)" and "lru_inv d" and "lru d = es" and "in_use d = in_use c"
    and "capacity d = capacity c" and "next_handle d = next_handle c" and "store_le c d" and "\<forall>x. x \<noteq> e \<longrightarrow> handles d x = handles c x"
proof -
  note i = lru_inv_butD [OF assms(1)]
  have m: "e \<in> set (cached c)" using assms(2) by (simp add: cached_def)
  obtain h where h: "handles c e = Some h" using i(3) [OF m] by blast
  have refs: "lh_refs h = 1" using i(2) [OF h] assms(2) by (simp add: handle_ok_def)
  obtain t d where e: "table_remove (lh_key h) (lh_hash h) c = (Some e, c\<lparr>table := t\<rparr>)"
      "finish_erase (Some e) (c\<lparr>table := t\<rparr>) = (ok True, d)" "dropped e (c\<lparr>table := t\<rparr>) d"
    using erase_member [OF assms(1) m h] by blast
  have "remove1 e (in_use c) = in_use c" using i(1) assms(2) by (simp add: cached_def remove1_idem)
  with e(3) assms(2) show thesis by (intro that [OF h refs e(1,2)]) (simp_all add: dropped_def)
qed

definition evicted :: "'v LRUCache \<Rightarrow> 'v LRUCache \<Rightarrow> bool" where
  "evicted c d \<longleftrightarrow> lru_inv d \<and> in_use d = in_use c \<and> capacity d = capacity c \<and> next_handle d = next_handle c \<and> store_le c d
     \<and> (\<exists>n. lru d = drop n (lru c) \<and> (\<forall>x. x \<notin> set (take n (lru c)) \<longrightarrow> handles d x = handles c x))"

lemma evicted_refl: "lru_inv c \<Longrightarrow> evicted c c"
  unfolding evicted_def by (auto intro!: exI [of _ 0])

lemma evicted_step:
  assumes "lru c = e # es" and "lru d = es" and "in_use d = in_use c" and "capacity d = capacity c" and "next_handle d = next_handle c"
    and "store_le c d" and "\<forall>x. x \<noteq> e \<longrightarrow> handles d x = handles c x" and "evicted d d'"
  shows "evicted c d'"
proof -
  obtain n where n: "lru d' = drop n es" "\<forall>x. x \<notin> set (take n es) \<longrightarrow> handles d' x = handles d x"
    using assms(2,8) by (auto simp: evicted_def)
  then have "lru d' = drop (Suc n) (lru c) \<and> (\<forall>x. x \<notin> set (take (Suc n) (lru c)) \<longrightarrow> handles d' x = handles c x)"
    using assms(1,7) by simp
  with assms(3-6,8) store_le_trans [OF assms(6), of d'] show ?thesis unfolding evicted_def by auto
qed

lemma evict_loop_evicted:
  assumes "lru_inv c" and "length (lru c) \<le> fuel"
  shows "\<exists>d. evict_loop fuel c = (ok (), d) \<and> evicted c d \<and> (usage d \<le> capacity d \<or> lru d = [])"
  using assms
proof (induction fuel arbitrary: c)
  case 0
  then show ?case by (simp add: evict_loop.simps evicted_refl)
next
  case (Suc fuel)
  show ?case
  proof (cases "usage c > capacity c \<and> lru c \<noteq> []")
    case False
    then show ?thesis using Suc.prems(1) by (subst evict_loop.simps) (auto simp: evicted_refl)
  next
    case True
    then obtain e es where l: "lru c = e # es" by (cases "lru c") auto
    from Suc.prems(1) l obtain h t d where o: "handles c e = Some h" "lh_refs h = 1"
        "table_remove (lh_key h) (lh_hash h) c = (Some e, c\<lparr>table := t\<rparr>)" "finish_erase (Some e) (c\<lparr>table := t\<rparr>) = (ok True, d)"
        "lru_inv d" "lru d = es" "in_use d = in_use c" "capacity d = capacity c" "next_handle d = next_handle c" "store_le c d"
        "\<forall>x. x \<noteq> e \<longrightarrow> handles d x = handles c x"
      by (rule oldest_erased)
    let ?d = "bump_evictions d"
    have b: "lru_inv ?d" "lru ?d = es" "in_use ?d = in_use c" "capacity ?d = capacity c" "next_handle ?d = next_handle c" "store_le c ?d"
        "\<forall>x. x \<noteq> e \<longrightarrow> handles ?d x = handles c x"
      using o(5-11) by (simp_all add: bump_defs)
    have "length (lru ?d) \<le> fuel" using Suc.prems(2) l b(2) by simp
    from Suc.IH [OF b(1) this] obtain d' where d': "evict_loop fuel ?d = (ok (), d')" "evicted ?d d'" "usage d' \<le> capacity d' \<or> lru d' = []"
      by blast
    have "evict_loop (Suc fuel) c = (ok (), d')"
      using True o l d'(1) by (subst evict_loop.simps) simp
    with d' evicted_step [OF l b(2-7)] show ?thesis by blast
  qed
qed

lemma lru_prune_evicted:
  assumes "lru_inv c" and "length (lru c) \<le> fuel"
  shows "\<exists>d. lru_prune fuel c = (ok (), d) \<and> evicted c d \<and> lru d = []"
  using assms
proof (induction fuel arbitrary: c)
  case 0
  then show ?case by (simp add: lru_prune.simps evicted_refl)
next
  case (Suc fuel)
  show ?case
  proof (cases "lru c")
    case Nil
    then show ?thesis using Suc.prems(1) by (subst lru_prune.simps) (auto simp: evicted_refl)
  next
    case (Cons e es)
    from Suc.prems(1) Cons obtain h t d where o: "handles c e = Some h" "lh_refs h = 1"
        "table_remove (lh_key h) (lh_hash h) c = (Some e, c\<lparr>table := t\<rparr>)" "finish_erase (Some e) (c\<lparr>table := t\<rparr>) = (ok True, d)"
        "lru_inv d" "lru d = es" "in_use d = in_use c" "capacity d = capacity c" "next_handle d = next_handle c" "store_le c d"
        "\<forall>x. x \<noteq> e \<longrightarrow> handles d x = handles c x"
      by (rule oldest_erased)
    have "length (lru d) \<le> fuel" using Suc.prems(2) Cons o(6) by simp
    from Suc.IH [OF o(5) this] obtain d' where d': "lru_prune fuel d = (ok (), d')" "evicted d d'" "lru d' = []" by blast
    have "lru_prune (Suc fuel) c = (ok (), d')"
      using o Cons d'(1) by (subst lru_prune.simps) simp
    with d' evicted_step [OF Cons o(6-11)] show ?thesis by blast
  qed
qed

section \<open>Lookup, release, erase\<close>

lemma lru_lookup_miss:
  "hm_lookup (handle_kh (handles c)) (table c) key hash = None \<Longrightarrow> lru_lookup key hash c = (ok None, bump_misses c)"
  by (simp add: lru_lookup_def)

lemma lru_lookup_hit:
  assumes "lru_inv c" and "hm_lookup (handle_kh (handles c)) (table c) key hash = Some e"
  shows "\<exists>h c'. handles c e = Some h \<and> lh_key h = key \<and> lh_hash h = hash \<and> lru_lookup key hash c = (ok (Some e), c') \<and> lru_inv c'
     \<and> handles c' = (handles c)(e \<mapsto> h\<lparr>lh_refs := lh_refs h + 1\<rparr>) \<and> capacity c' = capacity c \<and> usage c' = usage c \<and> table c' = table c
     \<and> deleted c' = deleted c"
proof -
  note i = lru_inv_butD [OF assms(1)]
  have e: "e \<in> set (cached c)" "handle_kh (handles c) e = (key, hash)"
    using assms(2) hm.lookup_iff [OF i(4)] i(5) by auto
  then obtain h where h: "handles c e = Some h" "lh_key h = key" "lh_hash h = hash" using i(3) by (force simp: handle_kh_def)
  have b: "lru_inv (bump_hits c)" "handles (bump_hits c) e = Some h" using assms(1) h(1) by (simp_all add: bump_defs)
  obtain c' where c': "lru_ref e (bump_hits c) = (ok (), c')" "moved e (lh_refs h + 1) (bump_hits c) c'"
    using lru_ref_moved [OF b] by blast
  note m = moved_inv [OF c'(2) b(1)]
  have "lru_lookup key hash c = (ok (Some e), c')" using assms(2) c'(1) by (simp add: lru_lookup_def)
  with h m show ?thesis by (simp add: bump_defs)
qed

lemma lru_release_ok:
  assumes "lru_inv c" and "handles c e = Some h" and "0 < pins h"
  shows "\<exists>c'. lru_release e c = (ok (), c') \<and> lru_inv c' \<and> capacity c' = capacity c
     \<and> handles c' = (handles c)(e := (if lh_refs h = 1 then None else Some (h\<lparr>lh_refs := lh_refs h - 1\<rparr>)))"
proof (cases "lh_refs h = 1")
  case True
  then have n: "\<not> lh_in_cache h" using assms(3) by (auto simp: pins_def)
  from lru_unref_freed [OF assms(2) True n] freed_inv [OF assms(1,2) n] True show ?thesis by (simp add: lru_release_def)
next
  case False
  then have two: "2 \<le> lh_refs h" using assms(3) by (auto simp: pins_def split: if_splits)
  obtain c' where c': "lru_unref e c = (ok (), c')" "moved e (lh_refs h - 1) c c'"
    using lru_unref_moved [OF assms(1,2) two] by blast
  have "1 \<le> lh_refs h - 1" using two by simp
  note m = moved_inv [OF c'(2) assms(1) this]
  with c'(1) False assms(2) show ?thesis by (simp add: lru_release_def)
qed

lemma lru_erase_ok:
  assumes "lru_inv c"
  shows "\<exists>c'. lru_erase key hash c = (ok (), c') \<and> lru_inv c' \<and> capacity c' = capacity c \<and> store_le c c'
     \<and> hm_lookup (handle_kh (handles c')) (table c') key hash = None"
proof -
  note i = lru_inv_butD [OF assms]
  obtain t where t: "hm_remove (handle_kh (handles c)) key hash (table c) = (hm_lookup (handle_kh (handles c)) (table c) key hash, t)"
      "hm_inv (handle_kh (handles c)) t" "hm_members t = hm_members (table c) - {x. handle_kh (handles c) x = (key, hash)}"
    using hm.remove_ok [OF i(4), of key hash] by blast
  show ?thesis
  proof (cases "hm_lookup (handle_kh (handles c)) (table c) key hash")
    case None
    then have "hm_members t = hm_members (table c)" using t(3) hm.lookup_None [OF i(4), of key hash] by auto
    then have "lru_inv (c\<lparr>table := t\<rparr>)" using assms t(2) by (simp add: lru_inv_but_def cached_def handle_ok_def)
    moreover have "hm_lookup (handle_kh (handles c)) t key hash = None" using t(3) hm.lookup_None [OF t(2)] by auto
    ultimately show ?thesis using t(1) None
      by (simp add: lru_erase_def table_remove_def finish_erase_def store_le_def)
  next
    case (Some e)
    have e: "e \<in> set (cached c)" "handle_kh (handles c) e = (key, hash)" using Some hm.lookup_iff [OF i(4)] i(5) by auto
    then obtain h where h: "handles c e = Some h" "lh_key h = key" "lh_hash h = hash" using i(3) by (force simp: handle_kh_def)
    obtain t' c' where r: "table_remove key hash c = (Some e, c\<lparr>table := t'\<rparr>)"
        "finish_erase (Some e) (c\<lparr>table := t'\<rparr>) = (ok True, c')" "dropped e (c\<lparr>table := t'\<rparr>) c'"
      using erase_member [OF assms e(1) h(1)] h by blast
    have t': "t' = t" using r(1) t(1) by (auto simp: table_remove_def dest: arg_cong [of _ _ table])
    have kh: "handle_kh (handles c') x = handle_kh (handles c) x" if "x \<in> hm_members t" for x
      using r(3) that t(3) e(2) by (auto simp: dropped_def handle_kh_def)
    have "hm_inv (handle_kh (handles c')) t" by (rule hm.inv_cong [OF t(2) kh])
    then have "hm_lookup (handle_kh (handles c')) t key hash = None"
      using hm.lookup_None kh t(3) by auto
    with r t' show ?thesis by (simp add: lru_erase_def dropped_def bump_defs)
  qed
qed

section \<open>Insertion\<close>

lemma fresh_handle:
  assumes "lru_inv_but X c"
  shows "handles c (next_handle c) = None" and "next_handle c \<notin> set (cached c)" and "next_handle c \<notin> hm_members (table c)"
proof -
  note i = lru_inv_butD [OF assms]
  show n: "handles c (next_handle c) = None" using i(2) [of "next_handle c"] by (cases "handles c (next_handle c)") (auto simp: handle_ok_def)
  then show "next_handle c \<notin> set (cached c)" using i(3) [of "next_handle c"] by auto
  then show "next_handle c \<notin> hm_members (table c)" using i(5) by simp
qed

lemma new_handle_inv:
  assumes "lru_inv c" and "lh_refs h = 1" and "\<not> lh_in_cache h"
  shows "lru_inv (c\<lparr>next_handle := next_handle c + 1, handles := (handles c)(next_handle c \<mapsto> h)\<rparr>)"
proof -
  note i = lru_inv_butD [OF assms(1)] and f = fresh_handle [OF assms(1)]
  have "hm_inv (handle_kh ((handles c)(next_handle c \<mapsto> h))) (table c)"
    by (rule hm.inv_cong [OF i(4)]) (use f(3) in \<open>auto simp: handle_kh_def\<close>)
  moreover have "(\<Sum>x \<in> set (cached c). lh_charge (the (((handles c)(next_handle c \<mapsto> h)) x))) = usage c"
    unfolding i(6) by (rule sum_handles_cong) (use f(2) in auto)
  moreover have "fst ` set (deleted c) = {..<Suc (next_handle c)} - insert (next_handle c) (dom (handles c))"
    using i(9) by auto
  moreover have "handle_ok (c\<lparr>next_handle := next_handle c + 1, handles := (handles c)(next_handle c \<mapsto> h)\<rparr>) x k"
    if "((handles c)(next_handle c \<mapsto> h)) x = Some k" for x k
    using that i(2) [of x k] assms(2,3) f(2) by (auto simp: handle_ok_def cached_def split: if_splits)
  ultimately show ?thesis using i f unfolding lru_inv_but_def by (auto simp: cached_def)
qed

lemma new_cached_inv:
  assumes "lru_inv c" and "lh_refs h = 2" and "lh_in_cache h"
  shows "lru_inv_but {next_handle c} (c\<lparr>next_handle := next_handle c + 1, handles := (handles c)(next_handle c \<mapsto> h),
     in_use := in_use c @ [next_handle c], usage := usage c + lh_charge h\<rparr>)" (is "lru_inv_but _ ?d")
proof -
  note i = lru_inv_butD [OF assms(1)] and f = fresh_handle [OF assms(1)]
  have "hm_inv (handle_kh ((handles c)(next_handle c \<mapsto> h))) (table c)"
    by (rule hm.inv_cong [OF i(4)]) (use f(3) in \<open>auto simp: handle_kh_def\<close>)
  moreover have "(\<Sum>x \<in> insert (next_handle c) (set (cached c)). lh_charge (the (((handles c)(next_handle c \<mapsto> h)) x))) = usage c + lh_charge h"
  proof -
    have "(\<Sum>x \<in> set (cached c). lh_charge (the (((handles c)(next_handle c \<mapsto> h)) x))) = usage c"
      unfolding i(6) by (rule sum_handles_cong) (use f(2) in auto)
    then show ?thesis using f(2) by simp
  qed
  moreover have "fst ` set (deleted c) = {..<Suc (next_handle c)} - insert (next_handle c) (dom (handles c))"
    using i(9) by auto
  moreover have "handle_ok ?d x k" if "((handles c)(next_handle c \<mapsto> h)) x = Some k" for x k
    using that i(2) [of x k] assms(2,3) f(2) by (auto simp: handle_ok_def cached_def split: if_splits)
  moreover have "set (cached ?d) = insert (next_handle c) (set (cached c))" "distinct (cached ?d)"
    using i(1) f(2) by (auto simp: cached_def)
  ultimately show ?thesis using i f unfolding lru_inv_but_def by auto
qed

definition new_handle :: "bytes \<Rightarrow> u32 \<Rightarrow> 'v \<Rightarrow> u64 \<Rightarrow> bool \<Rightarrow> 'v LRUHandle" where
  "new_handle key hash val charge cached_now =
     \<lparr>lh_key = key, lh_hash = hash, lh_value = val, lh_charge = charge, lh_in_cache = cached_now, lh_refs = (if cached_now then 2 else 1)\<rparr>"

text \<open>The state after the new handle went into the table and the one it replaces was erased.\<close>

lemma insert_replaced:
  fixes key hash charge and val :: 'v
  assumes "lru_inv c" and "0 < capacity c"
  defines "e \<equiv> next_handle c" and "h \<equiv> new_handle key hash val charge True"
  obtains old t d where "hm_insert (handle_kh ((handles c)(e \<mapsto> h))) e (table c) = Inr (old, t)"
    and "finish_erase old (c\<lparr>next_handle := e + 1, handles := (handles c)(e \<mapsto> h), in_use := in_use c @ [e],
          usage := usage c + charge, table := t\<rparr>) = (ok (old \<noteq> None), d)"
    and "lru_inv d" and "capacity d = capacity c" and "next_handle d = e + 1" and "handles d e = Some h"
    and "\<forall>x. x \<noteq> e \<longrightarrow> entry_le (handles c x) (handles d x)"
proof -
  let ?hs = "(handles c)(e \<mapsto> h)"
  let ?d = "c\<lparr>next_handle := e + 1, handles := ?hs, in_use := in_use c @ [e], usage := usage c + charge\<rparr>"
  have inv: "lru_inv_but {e} ?d"
    using new_cached_inv [OF assms(1), of h] by (simp add: e_def h_def new_handle_def)
  note i = lru_inv_butD [OF assms(1)] and f = fresh_handle [OF assms(1), folded e_def] and di = lru_inv_butD [OF inv]
  have hi: "hm_inv (handle_kh ?hs) (table c)" using di(4) by simp
  obtain old t where t: "hm_insert (handle_kh ?hs) e (table c) = Inr (old, t)" "hm_inv (handle_kh ?hs) t"
      "hm_members t = insert e (hm_members (table c) - set_option old)"
      "old = hm_lookup (handle_kh ?hs) (table c) (fst (handle_kh ?hs e)) (snd (handle_kh ?hs e))"
    using hm.insert_member [OF hi f(3)] by blast
  have mem: "hm_members (table c) = set (cached c)" using i(5) by simp
  have cd: "set (cached ?d) = insert e (set (cached c))" by (auto simp: cached_def)
  show thesis
  proof (cases old)
    case None
    have "lru_inv (?d\<lparr>table := t\<rparr>)"
      using inv t(2,3) None mem cd by (simp add: lru_inv_but_def cached_def handle_ok_def)
    moreover have "finish_erase old (?d\<lparr>table := t\<rparr>) = (ok (old \<noteq> None), ?d\<lparr>table := t\<rparr>)" using None by (simp add: finish_erase_def)
    ultimately show thesis by (intro that [OF t(1), of "?d\<lparr>table := t\<rparr>"]) simp_all
  next
    case (Some q)
    then have q: "q \<in> set (cached c)" "q \<noteq> e"
      using t(4) hm.lookup_iff [OF hi, of _ _ q] mem f(2) by auto
    have "hm_members t = set (cached ?d) - {q}" using t(3) Some mem cd q by auto
    then have b: "lru_inv_but {q} (?d\<lparr>table := t\<rparr>)"
      using inv t(2) by (simp add: lru_inv_but_def cached_def handle_ok_def)
    have "q \<in> set (cached (?d\<lparr>table := t\<rparr>))" using q cd by (simp add: cached_def)
    from finish_erase_dropped [OF b this] obtain d where d: "finish_erase (Some q) (?d\<lparr>table := t\<rparr>) = (ok True, d)"
        "dropped q (?d\<lparr>table := t\<rparr>) d" by blast
    have le: "entry_le (handles c x) (handles d x)" if "x \<noteq> e" for x
    proof -
      have "entry_le (?hs x) (handles d x)" using d(2) by (simp add: dropped_def store_le_def)
      then show ?thesis using that by simp
    qed
    have "handles d e = Some h" using d(2) q(2) by (simp add: dropped_def)
    with d le Some show thesis by (intro that [OF t(1), of d]) (simp_all add: dropped_def)
  qed
qed

lemma lru_insert_ok:
  assumes "lru_inv c"
  shows "\<exists>c' k. lru_insert key hash val charge c = (ok (next_handle c), c') \<and> lru_inv c' \<and> capacity c' = capacity c
     \<and> next_handle c' = next_handle c + 1
     \<and> handles c' (next_handle c) = Some k \<and> lh_key k = key \<and> lh_hash k = hash \<and> lh_value k = val \<and> pins k = 1 \<and> (0 < capacity c \<longrightarrow> lh_in_cache k)
     \<and> (\<forall>x. x \<noteq> next_handle c \<longrightarrow> entry_le (handles c x) (handles c' x))
     \<and> (usage c' \<le> capacity c' \<or> lru c' = [])"
proof -
  let ?e = "next_handle c"
  have fin: "\<exists>c' k. attempt (evict_loop (length (lru d)) d) (\<lambda>_ c. (ok ?e, c)) = (ok ?e, c') \<and> lru_inv c' \<and> capacity c' = capacity c
     \<and> next_handle c' = ?e + 1
     \<and> handles c' ?e = Some k \<and> lh_key k = key \<and> lh_hash k = hash \<and> lh_value k = val \<and> pins k = 1 \<and> (0 < capacity c \<longrightarrow> lh_in_cache k)
     \<and> (\<forall>x. x \<noteq> ?e \<longrightarrow> entry_le (handles c x) (handles c' x)) \<and> (usage c' \<le> capacity c' \<or> lru c' = [])"
    if d: "lru_inv d" "capacity d = capacity c" "next_handle d = ?e + 1" "handles d ?e = Some (new_handle key hash val charge b)"
      "\<forall>x. x \<noteq> ?e \<longrightarrow> entry_le (handles c x) (handles d x)" "0 < capacity c \<Longrightarrow> b" for d b
  proof -
    obtain c' where c': "evict_loop (length (lru d)) d = (ok (), c')" "evicted d c'" "usage c' \<le> capacity c' \<or> lru c' = []"
      using evict_loop_evicted [OF d(1) order_refl] by blast
    have le: "entry_le (handles d x) (handles c' x)" for x using c'(2) by (simp add: evicted_def store_le_def)
    have "pins (new_handle key hash val charge b) = 1" by (simp add: pins_def new_handle_def)
    then obtain k where k: "handles c' ?e = Some k" "same_entry (new_handle key hash val charge b) k" "pins k = 1"
      using le [of ?e] d(4) by (auto simp: entry_le_def split: option.splits)
    have "\<forall>x. x \<noteq> ?e \<longrightarrow> entry_le (handles c x) (handles c' x)" using d(5) le entry_le_trans by blast
    moreover have "lh_in_cache k" if "b"
    proof -
      have "?e \<in> set (in_use d)" using lru_inv_butD(2) [OF d(1,4)] \<open>b\<close> by (auto simp: handle_ok_def new_handle_def)
      then have "?e \<in> set (in_use c')" "lru_inv c'" using c'(2) by (simp_all add: evicted_def)
      then show ?thesis using lru_inv_butD(2) [OF _ k(1)] by (auto simp: handle_ok_def)
    qed
    ultimately show ?thesis using c' k d by (auto simp: evicted_def same_entry_def new_handle_def)
  qed
  show ?thesis
  proof (cases "0 < capacity c")
    case False
    let ?d = "c\<lparr>next_handle := ?e + 1, handles := (handles c)(?e \<mapsto> new_handle key hash val charge False)\<rparr>"
    have "lru_inv ?d" by (rule new_handle_inv [OF assms]) (simp_all add: new_handle_def)
    moreover have "lru_insert key hash val charge c = attempt (evict_loop (length (lru ?d)) ?d) (\<lambda>_ c. (ok ?e, c))"
      using False by (simp add: lru_insert_def Let_def new_handle_def)
    ultimately show ?thesis using fin [of ?d False] False by simp
  next
    case True
    obtain old t d where r: "hm_insert (handle_kh ((handles c)(?e \<mapsto> new_handle key hash val charge True))) ?e (table c) = Inr (old, t)"
      "finish_erase old (c\<lparr>next_handle := ?e + 1, handles := (handles c)(?e \<mapsto> new_handle key hash val charge True), in_use := in_use c @ [?e],
          usage := usage c + charge, table := t\<rparr>) = (ok (old \<noteq> None), d)"
      "lru_inv d" "capacity d = capacity c" "next_handle d = ?e + 1" "handles d ?e = Some (new_handle key hash val charge True)"
      "\<forall>x. x \<noteq> ?e \<longrightarrow> entry_le (handles c x) (handles d x)"
      by (rule insert_replaced [OF assms True])
    have "lru_insert key hash val charge c = attempt (evict_loop (length (lru (bump_inserts d))) (bump_inserts d)) (\<lambda>_ c. (ok ?e, c))"
      using True r(1,2) by (simp add: lru_insert_def Let_def new_handle_def LRU_append_in_use_def numeral_2_eq_2)
    with fin [of "bump_inserts d" True] r(3-7) show ?thesis by (simp add: bump_defs)
  qed
qed

section \<open>What a handle holds\<close>

definition lru_holds :: "'v LRUCache \<Rightarrow> nat \<Rightarrow> bytes \<times> u32 \<Rightarrow> 'v \<Rightarrow> nat \<Rightarrow> bool" where
  "lru_holds c e kh v n \<longleftrightarrow> (\<exists>h. handles c e = Some h \<and> (lh_key h, lh_hash h) = kh \<and> lh_value h = v \<and> pins h = n)"

lemma entry_le_holds:
  assumes "entry_le (handles c e) (handles c' e)"
  shows "lru_holds c' e kh v n \<Longrightarrow> lru_holds c e kh v n" and "lru_holds c e kh v n \<Longrightarrow> 0 < n \<Longrightarrow> lru_holds c' e kh v n"
  using assms by (auto simp: lru_holds_def entry_le_def same_entry_def split: option.splits)

lemma pins_ref: "1 \<le> lh_refs h \<Longrightarrow> pins (h\<lparr>lh_refs := lh_refs h + 1\<rparr>) = pins h + 1"
  "0 < pins h \<Longrightarrow> pins (h\<lparr>lh_refs := lh_refs h - 1\<rparr>) = pins h - 1"
  by (auto simp: pins_def)

lemma lru_lookup_holds:
  assumes "lru_inv c"
  shows "\<exists>r c'. lru_lookup key hash c = (ok r, c') \<and> lru_inv c' \<and> capacity c' = capacity c
     \<and> (case r of None \<Rightarrow> \<forall>e. lru_holds c' e = lru_holds c e
        | Some e \<Rightarrow> (\<exists>v n. lru_holds c e (key, hash) v n \<and> lru_holds c' e (key, hash) v (n + 1)) \<and> (\<forall>x. x \<noteq> e \<longrightarrow> lru_holds c' x = lru_holds c x))"
proof (cases "hm_lookup (handle_kh (handles c)) (table c) key hash")
  case None
  from lru_lookup_miss [OF this] assms show ?thesis by (simp add: bump_defs lru_holds_def fun_eq_iff)
next
  case (Some e)
  from lru_lookup_hit [OF assms this] obtain h c' where h: "handles c e = Some h" "lh_key h = key" "lh_hash h = hash"
      "lru_lookup key hash c = (ok (Some e), c')" "lru_inv c'" "handles c' = (handles c)(e \<mapsto> h\<lparr>lh_refs := lh_refs h + 1\<rparr>)"
      "capacity c' = capacity c" by blast
  have r: "1 \<le> lh_refs h" using lru_inv_butD(2) [OF assms h(1)] by (simp add: handle_ok_def)
  have "lru_holds c e (key, hash) (lh_value h) (pins h)" using h by (simp add: lru_holds_def)
  moreover have "lru_holds c' e (key, hash) (lh_value h) (pins h + 1)" using h pins_ref(1) [OF r] by (simp add: lru_holds_def)
  moreover have "\<forall>x. x \<noteq> e \<longrightarrow> lru_holds c' x = lru_holds c x" using h by (simp add: lru_holds_def fun_eq_iff)
  ultimately show ?thesis using h by auto
qed

lemma lru_release_holds:
  assumes "lru_inv c" and "lru_holds c e kh v (Suc n)"
  shows "\<exists>c'. lru_release e c = (ok (), c') \<and> lru_inv c' \<and> capacity c' = capacity c \<and> (\<forall>x. x \<noteq> e \<longrightarrow> lru_holds c' x = lru_holds c x)
     \<and> (\<forall>kh' v' n'. lru_holds c' e kh' v' n' \<longrightarrow> (kh', v', n') = (kh, v, n)) \<and> (0 < n \<longrightarrow> lru_holds c' e kh v n)"
proof -
  obtain h where h: "handles c e = Some h" "(lh_key h, lh_hash h) = kh" "lh_value h = v" "pins h = Suc n"
    using assms(2) by (auto simp: lru_holds_def)
  have p: "0 < pins h" using h(4) by simp
  obtain c' where c': "lru_release e c = (ok (), c')" "lru_inv c'" "capacity c' = capacity c"
      "handles c' = (handles c)(e := (if lh_refs h = 1 then None else Some (h\<lparr>lh_refs := lh_refs h - 1\<rparr>)))"
    using lru_release_ok [OF assms(1) h(1) p] by blast
  moreover have "n = 0" if "lh_refs h = 1" using h(4) that by (auto simp: pins_def split: if_splits)
  ultimately show ?thesis using h pins_ref(2) [OF p] by (intro exI [of _ c']) (auto simp: lru_holds_def fun_eq_iff)
qed

lemma lru_find_cached:
  assumes "lru_inv c" and "handles c e = Some h" and "lh_in_cache h"
  shows "hm_lookup (handle_kh (handles c)) (table c) (lh_key h) (lh_hash h) = Some e"
proof -
  note i = lru_inv_butD [OF assms(1)]
  have "e \<in> hm_members (table c)" using i(2) [OF assms(2)] assms(3) i(5) by (simp add: handle_ok_def cached_def)
  then show ?thesis using hm.lookup_iff [OF i(4)] assms(2) by (simp add: handle_kh_def)
qed

end
