(* ===== verification/Sharded_Cache.thy ===== *)
theory Sharded_Cache
  imports Lru_Cache
begin

text \<open>
  The sharded cache of cache.cpp, behind the interface of cache.h. A handle is the address of an
  \<open>LRUHandle\<close> in its shard together with its hash field, which \<open>release\<close> reads to find the shard.
  The interface is the locale \<open>pinned_cache\<close>; its client lemmas serve the table cache.
\<close>

type_synonym handle = "u32 \<times> nat"

record 'v Cache =
  shards :: "'v LRUCache list"
  last_id :: u64

definition hash_sv :: "bytes \<Rightarrow> u32" where
  "hash_sv k = Hash k (length k) 0"

definition shard :: "'v Cache \<Rightarrow> u32 \<Rightarrow> nat" where
  "shard c hash = unat hash mod length (shards c)"

definition NewLRUCache :: "u64 \<Rightarrow> nat \<Rightarrow> 'v Cache result" where
  "NewLRUCache cap num_shards =
     (if num_shards = 0 then abort ''division by zero''
      else
        let per_shard = (cap + (word_of_nat num_shards - 1)) div word_of_nat num_shards
        in ok \<lparr>shards = replicate num_shards (LRUCache_create per_shard), last_id = 0\<rparr>)"

text \<open>An operation of one shard.\<close>

definition on_shard :: "nat \<Rightarrow> ('v LRUCache \<Rightarrow> 'r \<times> 'v LRUCache) \<Rightarrow> 'v Cache \<Rightarrow> 'r \<times> 'v Cache" where
  "on_shard i f c = (case f (shards c ! i) of (r, s) \<Rightarrow> (r, c\<lparr>shards := (shards c)[i := s]\<rparr>))"

definition cache_insert :: "bytes \<Rightarrow> 'v \<Rightarrow> u64 \<Rightarrow> 'v Cache \<Rightarrow> handle result \<times> 'v Cache" where
  "cache_insert key val charge c =
     (let hash = hash_sv key in
      attempt (on_shard (shard c hash) (lru_insert key hash val charge) c) (\<lambda>e c. (ok (hash, e), c)))"

definition cache_lookup :: "bytes \<Rightarrow> 'v Cache \<Rightarrow> handle option result \<times> 'v Cache" where
  "cache_lookup key c =
     (let hash = hash_sv key in
      attempt (on_shard (shard c hash) (lru_lookup key hash) c) (\<lambda>r c. (ok (map_option (Pair hash) r), c)))"

definition cache_release :: "handle \<Rightarrow> 'v Cache \<Rightarrow> unit result \<times> 'v Cache" where
  "cache_release h c = on_shard (shard c (fst h)) (lru_release (snd h)) c"

definition cache_erase :: "bytes \<Rightarrow> 'v Cache \<Rightarrow> unit result \<times> 'v Cache" where
  "cache_erase key c =
     (let hash = hash_sv key in on_shard (shard c hash) (lru_erase key hash) c)"

definition cache_value :: "handle \<Rightarrow> 'v Cache \<Rightarrow> 'v result" where
  "cache_value h c =
     (case handles (shards c ! shard c (fst h)) (snd h) of
        None \<Rightarrow> abort ''use of a freed handle'' | Some k \<Rightarrow> ok (lh_value k))"

definition cache_new_id :: "'v Cache \<Rightarrow> u64 \<times> 'v Cache" where
  "cache_new_id c = (last_id c + 1, c\<lparr>last_id := last_id c + 1\<rparr>)"

fun prune_shards :: "nat \<Rightarrow> 'v Cache \<Rightarrow> unit result \<times> 'v Cache" where
  "prune_shards 0 c = (ok (), c)"
| "prune_shards (Suc i) c =
     attempt (prune_shards i c) (\<lambda>_ c. on_shard i (\<lambda>s. lru_prune (length (lru s)) s) c)"

definition cache_prune :: "'v Cache \<Rightarrow> unit result \<times> 'v Cache" where
  "cache_prune c = prune_shards (length (shards c)) c"

definition cache_total_charge :: "'v Cache \<Rightarrow> u64" where
  "cache_total_charge c = sum_list (map lru_total_charge (shards c))"

definition cache_get_stats :: "'v Cache \<Rightarrow> Stats" where
  "cache_get_stats c =
     fold (\<lambda>s total. \<lparr>total_evictions = total_evictions total + total_evictions (lru_stats_snapshot s),
                      total_inserts = total_inserts total + total_inserts (lru_stats_snapshot s),
                      total_misses = total_misses total + total_misses (lru_stats_snapshot s),
                      total_hits = total_hits total + total_hits (lru_stats_snapshot s)\<rparr>)
       (shards c) \<lparr>total_evictions = 0, total_inserts = 0, total_misses = 0, total_hits = 0\<rparr>"

section \<open>The interface\<close>

text \<open>
  \<open>holds c h k v n\<close>: the handle \<open>h\<close> is alive, for the key \<open>k\<close> and the value \<open>v\<close>, with \<open>n\<close> references
  outside the cache.
\<close>

locale pinned_cache =
  fixes inv :: "'c \<Rightarrow> bool"
    and holds :: "'c \<Rightarrow> 'h \<Rightarrow> bytes \<Rightarrow> 'v \<Rightarrow> nat \<Rightarrow> bool"
    and lookup_op :: "bytes \<Rightarrow> 'c \<Rightarrow> 'h option result \<times> 'c"
    and insert_op :: "bytes \<Rightarrow> 'v \<Rightarrow> u64 \<Rightarrow> 'c \<Rightarrow> 'h result \<times> 'c"
    and release_op :: "'h \<Rightarrow> 'c \<Rightarrow> unit result \<times> 'c"
    and erase_op :: "bytes \<Rightarrow> 'c \<Rightarrow> unit result \<times> 'c"
    and value_op :: "'h \<Rightarrow> 'c \<Rightarrow> 'v result"
  assumes lookup_ok: "inv c \<Longrightarrow> \<exists>r c'. lookup_op k c = (ok r, c') \<and> inv c' \<and>
      (case r of None \<Rightarrow> \<forall>h. holds c' h = holds c h
       | Some h \<Rightarrow> (\<exists>v n. holds c h k v n \<and> holds c' h k v (n + 1)) \<and> (\<forall>x. x \<noteq> h \<longrightarrow> holds c' x = holds c x))"
    and insert_ok: "inv c \<Longrightarrow> \<exists>h c'. insert_op k v charge c = (ok h, c') \<and> inv c' \<and> holds c' h k v 1
      \<and> (\<forall>k v n. \<not> holds c h k v n)
      \<and> (\<forall>x k v n. x \<noteq> h \<longrightarrow> (holds c' x k v n \<longrightarrow> holds c x k v n) \<and> (holds c x k v n \<longrightarrow> 0 < n \<longrightarrow> holds c' x k v n))"
    and release_ok: "inv c \<Longrightarrow> holds c h k v (Suc n) \<Longrightarrow> \<exists>c'. release_op h c = (ok (), c') \<and> inv c'
      \<and> (\<forall>x. x \<noteq> h \<longrightarrow> holds c' x = holds c x) \<and> (\<forall>k' v' n'. holds c' h k' v' n' \<longrightarrow> (k', v', n') = (k, v, n))
      \<and> (0 < n \<longrightarrow> holds c' h k v n)"
    and erase_ok: "inv c \<Longrightarrow> \<exists>c'. erase_op k c = (ok (), c') \<and> inv c'
      \<and> (\<forall>x k v n. (holds c' x k v n \<longrightarrow> holds c x k v n) \<and> (holds c x k v n \<longrightarrow> 0 < n \<longrightarrow> holds c' x k v n))"
    and unique: "holds c h k v n \<Longrightarrow> holds c h k' v' n' \<Longrightarrow> (k', v', n') = (k, v, n)"
    and value_ok: "holds c h k v n \<Longrightarrow> value_op h c = ok v"
begin

definition all_hold :: "(bytes \<Rightarrow> 'v \<Rightarrow> bool) \<Rightarrow> 'c \<Rightarrow> bool" where
  "all_hold P c \<longleftrightarrow> (\<forall>h k v n. holds c h k v n \<longrightarrow> P k v)"

definition still_pinned :: "'c \<Rightarrow> 'c \<Rightarrow> bool" where
  "still_pinned c c' \<longleftrightarrow> (\<forall>x k v n. holds c x k v (Suc n) \<longrightarrow> (\<exists>m \<ge> n. holds c' x k v (Suc m)))"

lemma still_pinned_trans: "still_pinned a b \<Longrightarrow> still_pinned b c \<Longrightarrow> still_pinned a c"
  unfolding still_pinned_def by (meson order_trans)

lemma still_pinned_refl: "still_pinned c c"
  unfolding still_pinned_def by blast

lemma pin_hit:
  assumes "inv c" and "all_hold P c" and "lookup_op k c = (ok (Some h), c')"
  shows "inv c' \<and> all_hold P c' \<and> still_pinned c c' \<and> (\<exists>v n. P k v \<and> holds c' h k v (Suc n) \<and> value_op h c' = ok v)"
proof -
  from lookup_ok [OF assms(1), of k] assms(3) obtain v n where l: "inv c'" "holds c h k v n" "holds c' h k v (Suc n)"
      "\<forall>x. x \<noteq> h \<longrightarrow> holds c' x = holds c x" by auto
  have p: "P k v" using l(2) assms(2) by (auto simp: all_hold_def)
  have "all_hold P c'" unfolding all_hold_def
  proof (intro allI impI)
    fix x k' v' n' assume x: "holds c' x k' v' n'"
    show "P k' v'"
    proof (cases "x = h")
      case True
      with unique [OF l(3)] x p show ?thesis by blast
    next
      case False
      with l(4) x assms(2) show ?thesis unfolding all_hold_def by metis
    qed
  qed
  moreover have "still_pinned c c'" unfolding still_pinned_def
  proof (intro allI impI)
    fix x k' v' n' assume x: "holds c x k' v' (Suc n')"
    show "\<exists>m \<ge> n'. holds c' x k' v' (Suc m)"
    proof (cases "x = h")
      case True
      with unique [OF l(2)] x have "k' = k" "v' = v" "Suc n' = n" by blast+
      then show ?thesis using l(3) True by (intro exI [of _ n]) auto
    next
      case False
      with l(4) x show ?thesis by (metis order_refl)
    qed
  qed
  ultimately show ?thesis using l p value_ok [OF l(3)] by blast
qed

lemma pin_miss:
  assumes "inv c" and "all_hold P c" and "lookup_op k c = (ok None, c')"
  shows "inv c' \<and> all_hold P c' \<and> still_pinned c c'"
  using lookup_ok [OF assms(1), of k] assms(2,3) still_pinned_refl by (auto simp: all_hold_def still_pinned_def)

lemma pin_insert:
  assumes "inv c" and "all_hold P c" and "P k v"
  shows "\<exists>h c'. insert_op k v charge c = (ok h, c') \<and> inv c' \<and> all_hold P c' \<and> still_pinned c c' \<and> holds c' h k v 1
     \<and> value_op h c' = ok v"
proof -
  from insert_ok [OF assms(1), of k v charge] obtain h c' where i: "insert_op k v charge c = (ok h, c')" "inv c'" "holds c' h k v 1"
      "\<forall>k v n. \<not> holds c h k v n"
      "\<forall>x k v n. x \<noteq> h \<longrightarrow> (holds c' x k v n \<longrightarrow> holds c x k v n) \<and> (holds c x k v n \<longrightarrow> 0 < n \<longrightarrow> holds c' x k v n)"
    by auto
  have "all_hold P c'" unfolding all_hold_def
  proof (intro allI impI)
    fix x k' v' n' assume x: "holds c' x k' v' n'"
    show "P k' v'"
    proof (cases "x = h")
      case True
      with unique [OF i(3)] x assms(3) show ?thesis by blast
    next
      case False
      with i(5) x assms(2) show ?thesis unfolding all_hold_def by blast
    qed
  qed
  moreover have "still_pinned c c'" unfolding still_pinned_def using i(4,5) by (metis order_refl zero_less_Suc)
  ultimately show ?thesis using i value_ok [OF i(3)] by blast
qed

lemma unpin:
  assumes "inv c" and "all_hold P c" and "holds c h k v (Suc n)"
  shows "\<exists>c'. release_op h c = (ok (), c') \<and> inv c' \<and> all_hold P c' \<and> (\<forall>x. x \<noteq> h \<longrightarrow> holds c' x = holds c x)
     \<and> (0 < n \<longrightarrow> holds c' h k v n)"
proof -
  from release_ok [OF assms(1,3)] obtain c' where r: "release_op h c = (ok (), c')" "inv c'" "\<forall>x. x \<noteq> h \<longrightarrow> holds c' x = holds c x"
      "\<forall>k' v' n'. holds c' h k' v' n' \<longrightarrow> (k', v', n') = (k, v, n)" "0 < n \<longrightarrow> holds c' h k v n" by auto
  have p: "P k v" using assms(2,3) by (auto simp: all_hold_def)
  have "all_hold P c'" unfolding all_hold_def
  proof (intro allI impI)
    fix x k' v' n' assume x: "holds c' x k' v' n'"
    show "P k' v'"
    proof (cases "x = h")
      case True
      with r(4) x p show ?thesis by blast
    next
      case False
      with r(3) x assms(2) show ?thesis unfolding all_hold_def by metis
    qed
  qed
  with r show ?thesis by blast
qed

lemma erase_keeps:
  assumes "inv c" and "all_hold P c"
  shows "\<exists>c'. erase_op k c = (ok (), c') \<and> inv c' \<and> all_hold P c' \<and> still_pinned c c'"
proof -
  from erase_ok [OF assms(1), of k] obtain c' where e: "erase_op k c = (ok (), c')" "inv c'"
      "\<forall>x k v n. (holds c' x k v n \<longrightarrow> holds c x k v n) \<and> (holds c x k v n \<longrightarrow> 0 < n \<longrightarrow> holds c' x k v n)" by auto
  have "all_hold P c'" using e(3) assms(2) unfolding all_hold_def by blast
  moreover have "still_pinned c c'" unfolding still_pinned_def using e(3) by (metis order_refl zero_less_Suc)
  ultimately show ?thesis using e by blast
qed

end

section \<open>The shards implement the interface\<close>

definition cache_inv :: "'v Cache \<Rightarrow> bool" where
  "cache_inv c \<longleftrightarrow> shards c \<noteq> [] \<and> (\<forall>s \<in> set (shards c). lru_inv s)"

definition cache_holds :: "'v Cache \<Rightarrow> handle \<Rightarrow> bytes \<Rightarrow> 'v \<Rightarrow> nat \<Rightarrow> bool" where
  "cache_holds c h k v n \<longleftrightarrow> lru_holds (shards c ! shard c (fst h)) (snd h) (k, fst h) v n"

lemma cache_invD: "cache_inv c \<Longrightarrow> shard c h < length (shards c) \<and> lru_inv (shards c ! shard c h)"
  by (auto simp: cache_inv_def shard_def intro!: nth_mem)

lemma on_shard_eq:
  assumes "f (shards c ! i) = (r, s)" and "cache_inv c" and "i < length (shards c)" and "lru_inv s"
  shows "on_shard i f c = (r, c\<lparr>shards := (shards c)[i := s]\<rparr>)" and "cache_inv (c\<lparr>shards := (shards c)[i := s]\<rparr>)"
  using assms set_update_subset_insert [of "shards c" i s] by (auto simp: on_shard_def cache_inv_def)

lemma shard_update [simp]: "shard (c\<lparr>shards := (shards c)[i := s]\<rparr>) h = shard c h"
  by (simp add: shard_def)

lemma cache_holds_update:
  assumes "i < length (shards c)"
  shows "cache_holds (c\<lparr>shards := (shards c)[i := s]\<rparr>) h k v n =
    (if shard c (fst h) = i then lru_holds s (snd h) (k, fst h) v n else cache_holds c h k v n)"
  using assms by (simp add: cache_holds_def nth_list_update)

lemma lru_holds_unique: "lru_holds c e kh v n \<Longrightarrow> lru_holds c e kh' v' n' \<Longrightarrow> kh' = kh \<and> v' = v \<and> n' = n"
  by (auto simp: lru_holds_def)

lemma shard_frame:
  assumes "i < length (shards c)" and "\<forall>x. x \<noteq> e \<longrightarrow> lru_holds s x = lru_holds (shards c ! i) x" and "shard c g = i"
    and "\<And>k g' v n. lru_holds (shards c ! i) e (k, g') v n \<Longrightarrow> g' = g" and "\<And>k g' v n. lru_holds s e (k, g') v n \<Longrightarrow> g' = g"
    and "x \<noteq> (g, e)"
  shows "cache_holds (c\<lparr>shards := (shards c)[i := s]\<rparr>) x = cache_holds c x"
proof (intro ext)
  fix k v n
  obtain g' b where x: "x = (g', b)" by (cases x)
  show "cache_holds (c\<lparr>shards := (shards c)[i := s]\<rparr>) x k v n = cache_holds c x k v n"
  proof (cases "shard c g' = i")
    case True
    have "lru_holds s b (k, g') v n = lru_holds (shards c ! i) b (k, g') v n"
    proof (cases "b = e")
      case b: True
      then have "g' \<noteq> g" using assms(6) x by simp
      then show ?thesis using assms(4,5) b by blast
    qed (use assms(2) in simp)
    then show ?thesis using True x by (simp add: cache_holds_update [OF assms(1)] cache_holds_def [of c])
  qed (simp add: cache_holds_update [OF assms(1)] x)
qed

lemma cache_lookup_ok:
  assumes "cache_inv c"
  shows "\<exists>r c'. cache_lookup k c = (ok r, c') \<and> cache_inv c' \<and>
      (case r of None \<Rightarrow> \<forall>h. cache_holds c' h = cache_holds c h
       | Some h \<Rightarrow> (\<exists>v n. cache_holds c h k v n \<and> cache_holds c' h k v (n + 1)) \<and> (\<forall>x. x \<noteq> h \<longrightarrow> cache_holds c' x = cache_holds c x))"
proof -
  let ?h = "hash_sv k" and ?i = "shard c (hash_sv k)"
  have i: "?i < length (shards c)" "lru_inv (shards c ! ?i)" using cache_invD [OF assms] by auto
  from lru_lookup_holds [OF i(2), of k ?h] obtain r s where l: "lru_lookup k ?h (shards c ! ?i) = (ok r, s)" "lru_inv s"
     "case r of None \<Rightarrow> \<forall>e. lru_holds s e = lru_holds (shards c ! ?i) e
        | Some e \<Rightarrow> (\<exists>v n. lru_holds (shards c ! ?i) e (k, ?h) v n \<and> lru_holds s e (k, ?h) v (n + 1)) \<and> (\<forall>x. x \<noteq> e \<longrightarrow> lru_holds s x = lru_holds (shards c ! ?i) x)"
    by blast
  let ?c = "c\<lparr>shards := (shards c)[?i := s]\<rparr>"
  note o = on_shard_eq [of "lru_lookup k ?h", OF l(1) assms i(1) l(2)] and u = cache_holds_update [OF i(1), of s]
  have eq: "cache_lookup k c = (ok (map_option (Pair ?h) r), ?c)"
    by (simp add: cache_lookup_def Let_def o(1))
  show ?thesis
  proof (cases r)
    case None
    then have "cache_holds ?c h = cache_holds c h" for h using l(3) by (simp add: u fun_eq_iff cache_holds_def [of c])
    with eq o(2) None show ?thesis by simp
  next
    case (Some e)
    with l(3) obtain v n where v: "lru_holds (shards c ! ?i) e (k, ?h) v n" "lru_holds s e (k, ?h) v (n + 1)"
        "\<forall>x. x \<noteq> e \<longrightarrow> lru_holds s x = lru_holds (shards c ! ?i) x" by auto
    have "\<forall>x. x \<noteq> (?h, e) \<longrightarrow> cache_holds ?c x = cache_holds c x"
      using shard_frame [OF i(1) v(3) refl] lru_holds_unique [OF v(1)] lru_holds_unique [OF v(2)] by blast
    moreover have "cache_holds c (?h, e) k v n" "cache_holds ?c (?h, e) k v (n + 1)" using v(1,2) by (simp_all add: u cache_holds_def [of c])
    ultimately show ?thesis using eq o(2) Some by auto
  qed
qed

lemma cache_release_ok:
  assumes "cache_inv c" and "cache_holds c h k v (Suc n)"
  shows "\<exists>c'. cache_release h c = (ok (), c') \<and> cache_inv c' \<and> (\<forall>x. x \<noteq> h \<longrightarrow> cache_holds c' x = cache_holds c x)
     \<and> (\<forall>k' v' n'. cache_holds c' h k' v' n' \<longrightarrow> (k', v', n') = (k, v, n)) \<and> (0 < n \<longrightarrow> cache_holds c' h k v n)"
proof -
  obtain g e where h: "h = (g, e)" by (cases h)
  let ?i = "shard c g"
  have i: "?i < length (shards c)" "lru_inv (shards c ! ?i)" using cache_invD [OF assms(1)] by auto
  have old: "lru_holds (shards c ! ?i) e (k, g) v (Suc n)" using assms(2) h by (simp add: cache_holds_def)
  from lru_release_holds [OF i(2) old] obtain s where s: "lru_release e (shards c ! ?i) = (ok (), s)" "lru_inv s"
      "\<forall>x. x \<noteq> e \<longrightarrow> lru_holds s x = lru_holds (shards c ! ?i) x"
      "\<forall>kh' v' n'. lru_holds s e kh' v' n' \<longrightarrow> (kh', v', n') = ((k, g), v, n)" "0 < n \<longrightarrow> lru_holds s e (k, g) v n" by auto
  let ?c = "c\<lparr>shards := (shards c)[?i := s]\<rparr>"
  note o = on_shard_eq [of "lru_release e", OF s(1) assms(1) i(1) s(2)] and u = cache_holds_update [OF i(1), of s]
  have "\<forall>x. x \<noteq> h \<longrightarrow> cache_holds ?c x = cache_holds c x"
    using shard_frame [OF i(1) s(3) refl] lru_holds_unique [OF old] s(4) h by blast
  moreover have "\<forall>k' v' n'. cache_holds ?c h k' v' n' \<longrightarrow> (k', v', n') = (k, v, n)" using s(4) h by (simp add: u)
  moreover have "0 < n \<longrightarrow> cache_holds ?c h k v n" using s(5) h by (simp add: u)
  ultimately show ?thesis using o h by (auto simp: cache_release_def)
qed

lemma cache_insert_ok:
  assumes "cache_inv c"
  shows "\<exists>h c'. cache_insert k v charge c = (ok h, c') \<and> cache_inv c' \<and> cache_holds c' h k v 1 \<and> (\<forall>k v n. \<not> cache_holds c h k v n)
     \<and> (\<forall>x k v n. x \<noteq> h \<longrightarrow> (cache_holds c' x k v n \<longrightarrow> cache_holds c x k v n) \<and> (cache_holds c x k v n \<longrightarrow> 0 < n \<longrightarrow> cache_holds c' x k v n))"
proof -
  let ?h = "hash_sv k" and ?i = "shard c (hash_sv k)"
  have i: "?i < length (shards c)" "lru_inv (shards c ! ?i)" using cache_invD [OF assms] by auto
  let ?s = "shards c ! ?i"
  let ?e = "next_handle ?s"
  from lru_insert_ok [OF i(2), of k ?h v charge] obtain s q where s: "lru_insert k ?h v charge ?s = (ok ?e, s)" "lru_inv s"
      "handles s ?e = Some q" "lh_key q = k" "lh_hash q = ?h" "lh_value q = v" "pins q = 1"
      "\<forall>x. x \<noteq> ?e \<longrightarrow> entry_le (handles ?s x) (handles s x)" by blast
  let ?c = "c\<lparr>shards := (shards c)[?i := s]\<rparr>"
  note o = on_shard_eq [of "lru_insert k ?h v charge", OF s(1) assms i(1) s(2)] and u = cache_holds_update [OF i(1), of s]
  have none: "\<not> lru_holds ?s ?e kh v n" for kh v n using fresh_handle(1) [OF i(2)] by (simp add: lru_holds_def)
  have new: "lru_holds s ?e (k, ?h) v 1" using s(3-7) by (simp add: lru_holds_def)
  have "(cache_holds ?c x k' v' n \<longrightarrow> cache_holds c x k' v' n) \<and> (cache_holds c x k' v' n \<longrightarrow> 0 < n \<longrightarrow> cache_holds ?c x k' v' n)"
    if "x \<noteq> (?h, ?e)" for x k' v' n
  proof (cases "shard c (fst x) = ?i \<and> snd x = ?e")
    case True
    then have "fst x \<noteq> ?h" using that by (cases x) auto
    then show ?thesis using True lru_holds_unique [OF new] none by (auto simp: u cache_holds_def [of c])
  next
    case False
    then show ?thesis using entry_le_holds [of ?s "snd x" s] s(8) by (auto simp: u cache_holds_def [of c])
  qed
  moreover have "cache_holds ?c (?h, ?e) k v 1" using new by (simp add: u)
  moreover have "\<not> cache_holds c (?h, ?e) k' v' n" for k' v' n using none by (simp add: cache_holds_def)
  ultimately show ?thesis using o by (auto simp: cache_insert_def Let_def)
qed

lemma cache_erase_ok:
  assumes "cache_inv c"
  shows "\<exists>c'. cache_erase k c = (ok (), c') \<and> cache_inv c'
     \<and> (\<forall>x k v n. (cache_holds c' x k v n \<longrightarrow> cache_holds c x k v n) \<and> (cache_holds c x k v n \<longrightarrow> 0 < n \<longrightarrow> cache_holds c' x k v n))"
proof -
  let ?h = "hash_sv k" and ?i = "shard c (hash_sv k)"
  have i: "?i < length (shards c)" "lru_inv (shards c ! ?i)" using cache_invD [OF assms] by auto
  from lru_erase_ok [OF i(2), of k ?h] obtain s where s: "lru_erase k ?h (shards c ! ?i) = (ok (), s)" "lru_inv s" "store_le (shards c ! ?i) s"
    by blast
  note o = on_shard_eq [of "lru_erase k ?h", OF s(1) assms i(1) s(2)] and u = cache_holds_update [OF i(1), of s]
  show ?thesis
    using o entry_le_holds [of "shards c ! ?i" _ s] s(3) by (auto simp: cache_erase_def Let_def u store_le_def cache_holds_def [of c])
qed

interpretation sc: pinned_cache cache_inv cache_holds cache_lookup cache_insert cache_release cache_erase cache_value
proof unfold_locales
  show "(k', v', n') = (k, v, n)" if "cache_holds c h k v n" "cache_holds c h k' v' n'" for c :: "'v Cache" and h k v n k' v' n'
    using lru_holds_unique [OF that(1) [unfolded cache_holds_def] that(2) [unfolded cache_holds_def]] by simp
  show "cache_value h c = ok v" if "cache_holds c h k v n" for c :: "'v Cache" and h k v n
    using that by (auto simp: cache_holds_def lru_holds_def cache_value_def)
qed (fact cache_lookup_ok cache_insert_ok cache_release_ok cache_erase_ok)+

section \<open>Pruning\<close>

definition holds_shrink :: "'v Cache \<Rightarrow> 'v Cache \<Rightarrow> bool" where
  "holds_shrink c c' \<longleftrightarrow> (\<forall>x k v n. (cache_holds c' x k v n \<longrightarrow> cache_holds c x k v n) \<and> (cache_holds c x k v n \<longrightarrow> 0 < n \<longrightarrow> cache_holds c' x k v n))"

lemma holds_shrinkD: "holds_shrink c c' \<Longrightarrow> cache_holds c x k v (Suc n) \<Longrightarrow> cache_holds c' x k v (Suc n)"
  unfolding holds_shrink_def using zero_less_Suc by blast

lemma holds_shrink_trans: "holds_shrink a b \<Longrightarrow> holds_shrink b c \<Longrightarrow> holds_shrink a c"
  unfolding holds_shrink_def by blast

lemma prune_shards_ok:
  assumes "cache_inv c" and "i \<le> length (shards c)"
  shows "\<exists>c'. prune_shards i c = (ok (), c') \<and> cache_inv c' \<and> length (shards c') = length (shards c)
     \<and> holds_shrink c c' \<and> (\<forall>j < i. lru (shards c' ! j) = [])"
  using assms(2)
proof (induction i)
  case 0
  then show ?case using assms(1) by (simp add: holds_shrink_def)
next
  case (Suc i)
  then obtain d where d: "prune_shards i c = (ok (), d)" "cache_inv d" "length (shards d) = length (shards c)" "holds_shrink c d"
      "\<forall>j < i. lru (shards d ! j) = []" by auto
  have i: "i < length (shards d)" using Suc.prems d(3) by simp
  then have inv: "lru_inv (shards d ! i)" using d(2) by (simp add: cache_inv_def)
  obtain s where s: "lru_prune (length (lru (shards d ! i))) (shards d ! i) = (ok (), s)" "evicted (shards d ! i) s" "lru s = []"
    using lru_prune_evicted [OF inv order_refl] by blast
  have si: "lru_inv s" and le: "\<And>x. entry_le (handles (shards d ! i) x) (handles s x)" using s(2) by (auto simp: evicted_def store_le_def)
  note o = on_shard_eq [of "\<lambda>s. lru_prune (length (lru s)) s", OF s(1) d(2) i si] and u = cache_holds_update [OF i, of s]
  let ?c = "d\<lparr>shards := (shards d)[i := s]\<rparr>"
  have "holds_shrink d ?c"
    unfolding holds_shrink_def using entry_le_holds [OF le] by (simp add: u cache_holds_def [of d])
  note holds_shrink_trans [OF d(4) this]
  moreover have "\<forall>j < Suc i. lru (shards ?c ! j) = []" using d(5) s(3) i by (auto simp: nth_list_update less_Suc_eq)
  ultimately show ?case using o d(1,3) by simp
qed

section \<open>Use by clients\<close>

text \<open>A client may call every operation at any time, and release only what it holds.\<close>

inductive cache_reachable :: "'v Cache \<Rightarrow> bool" where
  cache_new: "NewLRUCache cap n = ok c \<Longrightarrow> cache_reachable c"
| cache_inserted: "cache_reachable c \<Longrightarrow> cache_reachable (snd (cache_insert k v charge c))"
| cache_looked_up: "cache_reachable c \<Longrightarrow> cache_reachable (snd (cache_lookup k c))"
| cache_released: "cache_reachable c \<Longrightarrow> cache_holds c h k v (Suc n) \<Longrightarrow> cache_reachable (snd (cache_release h c))"
| cache_erased: "cache_reachable c \<Longrightarrow> cache_reachable (snd (cache_erase k c))"
| cache_pruned: "cache_reachable c \<Longrightarrow> cache_reachable (snd (cache_prune c))"

lemma cache_reachable_inv: "cache_reachable c \<Longrightarrow> cache_inv c"
proof (induction rule: cache_reachable.induct)
  case (cache_new cap n c)
  then show ?case using lru_inv_create by (auto simp: NewLRUCache_def Let_def cache_inv_def split: if_splits)
next
  case (cache_inserted c k v charge)
  from cache_insert_ok [OF cache_inserted.IH, of k v charge] show ?case by (elim exE conjE) simp
next
  case (cache_looked_up c k)
  from cache_lookup_ok [OF cache_looked_up.IH, of k] show ?case by (elim exE conjE) simp
next
  case (cache_released c h k v n)
  from cache_release_ok [OF cache_released.IH cache_released.hyps(2)] show ?case by (elim exE conjE) simp
next
  case (cache_erased c k)
  from cache_erase_ok [OF cache_erased.IH, of k] show ?case by (elim exE conjE) simp
next
  case (cache_pruned c)
  from prune_shards_ok [OF cache_pruned.IH order_refl] show ?case unfolding cache_prune_def by (elim exE conjE) simp
qed

lemma demo_cache: "\<exists>c :: nat Cache. NewLRUCache 10 4 = ok c \<and> cache_reachable c \<and> (\<forall>s \<in> set (shards c). capacity s = 3)"
proof -
  let ?c = "\<lparr>shards = replicate 4 (LRUCache_create 3), last_id = 0\<rparr> :: nat Cache"
  have "NewLRUCache 10 4 = ok ?c" by (simp add: NewLRUCache_def)
  from this cache_new [OF this] show ?thesis by (intro exI [of _ ?c]) (simp add: LRUCache_create_def)
qed

lemma unat_sum: "unat (sum f S :: u64) = (\<Sum>x \<in> S. unat (f x)) mod 2 ^ 64"
proof (induction S rule: infinite_finite_induct)
  case (insert x S)
  then show ?case by (simp add: unat_word_ariths mod_add_right_eq)
qed simp_all

section \<open>Properties\<close>



text \<open>
  C33. An entry a caller holds stays readable, with the same value and the same number of
  holders, when anything is inserted, erased or pruned.
\<close>

theorem cache_pinned_survives:
  assumes "cache_reachable c" and "cache_holds c h k v (Suc n)"
  shows "cache_holds (snd (cache_insert k' v' charge c)) h k v (Suc n)
     \<and> cache_holds (snd (cache_erase k' c)) h k v (Suc n) \<and> cache_holds (snd (cache_prune c)) h k v (Suc n)"
proof -
  note inv = cache_reachable_inv [OF assms(1)]
  obtain g d where d: "cache_insert k' v' charge c = (ok g, d)" "\<forall>k v n. \<not> cache_holds c g k v n"
      "\<forall>x k v n. x \<noteq> g \<longrightarrow> (cache_holds d x k v n \<longrightarrow> cache_holds c x k v n) \<and> (cache_holds c x k v n \<longrightarrow> 0 < n \<longrightarrow> cache_holds d x k v n)"
    using cache_insert_ok [OF inv, of k' v' charge] by (elim exE conjE)
  have "h \<noteq> g" using assms(2) d(2) by blast
  then have "cache_holds (snd (cache_insert k' v' charge c)) h k v (Suc n)"
    unfolding d(1) snd_conv using d(3) assms(2) zero_less_Suc by blast
  moreover obtain d where d: "cache_erase k' c = (ok (), d)"
      "\<forall>x k v n. (cache_holds d x k v n \<longrightarrow> cache_holds c x k v n) \<and> (cache_holds c x k v n \<longrightarrow> 0 < n \<longrightarrow> cache_holds d x k v n)"
    using cache_erase_ok [OF inv, of k'] by (elim exE conjE)
  then have "cache_holds (snd (cache_erase k' c)) h k v (Suc n)"
    unfolding d(1) snd_conv using assms(2) zero_less_Suc by blast
  moreover have "cache_holds (snd (cache_prune c)) h k v (Suc n)"
    using prune_shards_ok [OF inv order_refl] holds_shrinkD [OF _ assms(2)] unfolding cache_prune_def by (elim exE conjE) simp
  ultimately show ?thesis by blast
qed

theorem cache_pinned_survives_witness:
  "\<exists>(c :: nat Cache) h. cache_holds c h [7] 1 1 \<and> cache_holds (snd (cache_erase [7] c)) h [7] 1 1"
proof -
  obtain c :: "nat Cache" where c: "cache_reachable c" using demo_cache by (elim exE conjE)
  from cache_insert_ok [OF cache_reachable_inv [OF c], of "[7]" 1 2] obtain h d
    where d: "cache_insert [7] 1 2 c = (ok h, d)" "cache_holds d h [7] 1 (Suc 0)" by auto
  have "cache_reachable d" using cache_inserted [OF c, of "[7]" 1 2] d(1) by simp
  from cache_pinned_survives [OF this d(2), of "[7]"] d(2) show ?thesis by (intro exI [of _ d] exI [of _ h]) simp
qed

text \<open>
  C34. In a shard with positive capacity, a lookup right after an insert finds the inserted
  entry.
\<close>

theorem cache_insert_lookup:
  assumes "cache_reachable c" and "0 < capacity (shards c ! shard c (hash_sv k))" and "cache_insert k v charge c = (ok h, d)"
  shows "\<exists>e. cache_lookup k d = (ok (Some h), e) \<and> cache_value h e = ok v"
proof -
  let ?h = "hash_sv k" and ?i = "shard c (hash_sv k)"
  note inv = cache_reachable_inv [OF assms(1)]
  have i: "?i < length (shards c)" "lru_inv (shards c ! ?i)" using cache_invD [OF inv] by auto
  let ?e = "next_handle (shards c ! ?i)"
  from lru_insert_ok [OF i(2), of k ?h v charge] obtain s q where s: "lru_insert k ?h v charge (shards c ! ?i) = (ok ?e, s)" "lru_inv s"
      "handles s ?e = Some q" "lh_key q = k" "lh_hash q = ?h" "lh_value q = v" "lh_in_cache q" using assms(2) by blast
  note o = on_shard_eq [of "lru_insert k ?h v charge", OF s(1) inv i(1) s(2)]
  have d: "h = (?h, ?e)" "d = c\<lparr>shards := (shards c)[?i := s]\<rparr>" using assms(3) o by (auto simp: cache_insert_def Let_def)
  have "hm_lookup (handle_kh (handles s)) (table s) k ?h = Some ?e" using lru_find_cached [OF s(2,3,7)] s(4,5) by simp
  from lru_lookup_hit [OF s(2) this] obtain s' where s': "lru_lookup k ?h s = (ok (Some ?e), s')" "lru_inv s'"
      "handles s' ?e = Some (q\<lparr>lh_refs := lh_refs q + 1\<rparr>)" using s(3) by auto
  show ?thesis
    using s' s(6) i(1) by (simp add: cache_lookup_def cache_value_def on_shard_def d Let_def)
qed

theorem cache_insert_lookup_witness:
  "\<exists>(c :: nat Cache) h d e. cache_insert [7] 1 2 c = (ok h, d) \<and> cache_lookup [7] d = (ok (Some h), e) \<and> cache_value h e = ok 1"
proof -
  obtain c :: "nat Cache" where c: "cache_reachable c" "\<forall>s \<in> set (shards c). capacity s = 3" using demo_cache by (elim exE conjE)
  from cache_insert_ok [OF cache_reachable_inv [OF c(1)], of "[7]" 1 2] obtain h d where d: "cache_insert [7] 1 2 c = (ok h, d)" by auto
  have "0 < capacity (shards c ! shard c (hash_sv [7]))"
    using c(2) cache_invD [OF cache_reachable_inv [OF c(1)], of "hash_sv [7]"] by simp
  from cache_insert_lookup [OF c(1) this d] d show ?thesis by blast
qed

text \<open>
  C35. In every reachable state the usage of a shard is the sum of the charges of its cached
  entries modulo 2^64; the deleter was called at most once for each handle, and the handles it
  was called for are exactly the ones that were allocated and are not stored any more; and all
  entries of the LRU list have exactly one reference.
\<close>

theorem cache_accounting:
  assumes "cache_reachable c" and "s \<in> set (shards c)"
  shows "unat (lru_total_charge s) = (\<Sum>e \<in> set (lru s) \<union> set (in_use s). unat (lh_charge (the (handles s e)))) mod 2 ^ 64
     \<and> distinct (map fst (deleted s))
     \<and> fst ` set (deleted s) \<union> dom (handles s) = {..<next_handle s} \<and> fst ` set (deleted s) \<inter> dom (handles s) = {}
     \<and> (\<forall>e \<in> set (lru s). \<exists>h. handles s e = Some h \<and> lh_refs h = 1)"
proof -
  have inv: "lru_inv s" using cache_reachable_inv [OF assms(1)] assms(2) by (simp add: cache_inv_def)
  note i = lru_inv_butD [OF inv]
  have "\<forall>e \<in> set (lru s). \<exists>h. handles s e = Some h \<and> lh_refs h = 1"
  proof
    fix e assume e: "e \<in> set (lru s)"
    then obtain h where "handles s e = Some h" using i(3) [of e] by (auto simp: cached_def)
    with i(2) [OF this] e show "\<exists>h. handles s e = Some h \<and> lh_refs h = 1" by (auto simp: handle_ok_def)
  qed
  moreover have "fst ` set (deleted s) \<union> dom (handles s) = {..<next_handle s}"
    using i(2) i(9) by (auto simp: handle_ok_def)
  moreover have "fst ` set (deleted s) \<inter> dom (handles s) = {}" using i(9) by auto
  moreover have "unat (lru_total_charge s) = (\<Sum>e \<in> set (lru s) \<union> set (in_use s). unat (lh_charge (the (handles s e)))) mod 2 ^ 64"
    using i(6) unat_sum [of "\<lambda>e. lh_charge (the (handles s e))"] by (simp add: lru_total_charge_def cached_def)
  ultimately show ?thesis using i(8) by blast
qed

theorem cache_accounting_witness:
  "\<exists>(c :: nat Cache) s h. s \<in> set (shards c) \<and> handles s 0 = Some h \<and> lh_value h = 1
     \<and> fst ` set (deleted s) \<union> dom (handles s) = {..<next_handle s} \<and> fst ` set (deleted s) \<inter> dom (handles s) = {}"
proof -
  obtain c :: "nat Cache" where c: "NewLRUCache 10 4 = ok c" "cache_reachable c" using demo_cache by (elim exE conjE)
  let ?h = "hash_sv [7]" and ?i = "shard c (hash_sv [7])"
  have i: "?i < length (shards c)" "lru_inv (shards c ! ?i)" using cache_invD [OF cache_reachable_inv [OF c(2)]] by auto
  have z: "next_handle (shards c ! ?i) = 0" using c(1) i(1) by (auto simp: NewLRUCache_def LRUCache_create_def)
  from lru_insert_ok [OF i(2), of "[7]" ?h 1 2] z obtain s q where s: "lru_insert [7] ?h 1 2 (shards c ! ?i) = (ok 0, s)"
      "handles s 0 = Some q" "lh_value q = 1" by auto
  let ?d = "c\<lparr>shards := (shards c)[?i := s]\<rparr>"
  have d: "snd (cache_insert [7] 1 2 c) = ?d" using s(1) by (simp add: cache_insert_def on_shard_def Let_def)
  have m: "s \<in> set (shards ?d)" using i(1) by (simp add: set_update_memI)
  from cache_accounting [OF cache_inserted [OF c(2), of "[7]" 1 2, unfolded d] m] s m show ?thesis by blast
qed

text \<open>
  After an insert the usage of the shard is within its capacity or no entry is left that
  could be evicted.
\<close>

theorem cache_insert_bound:
  assumes "cache_reachable c" and "cache_insert k v charge c = (ok h, d)"
  shows "case shards d ! shard d (hash_sv k) of s \<Rightarrow> usage s \<le> capacity s \<or> lru s = []"
proof -
  let ?h = "hash_sv k" and ?i = "shard c (hash_sv k)"
  note inv = cache_reachable_inv [OF assms(1)]
  have i: "?i < length (shards c)" "lru_inv (shards c ! ?i)" using cache_invD [OF inv] by auto
  from lru_insert_ok [OF i(2), of k ?h v charge] obtain s where s: "lru_insert k ?h v charge (shards c ! ?i) = (ok (next_handle (shards c ! ?i)), s)"
      "lru_inv s" "usage s \<le> capacity s \<or> lru s = []" by blast
  note o = on_shard_eq [of "lru_insert k ?h v charge", OF s(1) inv i(1) s(2)]
  have "d = c\<lparr>shards := (shards c)[?i := s]\<rparr>" using assms(2) o by (auto simp: cache_insert_def Let_def)
  with s(3) i(1) show ?thesis by simp
qed

theorem cache_insert_bound_witness:
  "\<exists>(c :: nat Cache) h d s. cache_insert [7] 1 2 c = (ok h, d) \<and> s = shards d ! shard d (hash_sv [7]) \<and> (usage s \<le> capacity s \<or> lru s = [])"
proof -
  obtain c :: "nat Cache" where c: "cache_reachable c" using demo_cache by (elim exE conjE)
  from cache_insert_ok [OF cache_reachable_inv [OF c], of "[7]" 1 2] obtain h d where d: "cache_insert [7] 1 2 c = (ok h, d)" by auto
  from cache_insert_bound [OF c d] d show ?thesis
    by (intro exI [of _ c] exI [of _ h] exI [of _ d] exI [of _ "shards d ! shard d (hash_sv [7])"]) simp
qed

end
