(* ===== verification/Table_Cache.thy ===== *)
theory Table_Cache
  imports Sstable_Reader Sharded_Cache
begin

text \<open>
  table_cache.cpp: readers of table files, opened on a miss and kept in the LRU cache. The state is
  the file system and the cache. A \<open>shared_ptr\<close> to a reader is the reader together with the cache
  handle its deleter releases. Closing the descriptor of a destroyed reader is not modelled: no
  operation can observe it, since descriptors are not reused.
\<close>

type_synonym tc_state = "fs \<times> SSTableReader Cache"

definition encode_key :: "SSTableId \<Rightarrow> bytes" where
  "encode_key sid = fst (encode_uint64 (id_value sid) (replicate 8 0) 0)"

definition TableCache_create :: "string \<Rightarrow> SSTableReader Cache \<Rightarrow> SSTableReader Cache result" where
  "TableCache_create data_dir cache =
     (if trim_string data_dir = '''' then err BAD_CONFIG ''Invalid data directory.'' else ok cache)"

definition make_reader_return :: "handle \<Rightarrow> tc_state \<Rightarrow> (SSTableReader \<times> handle) result \<times> tc_state" where
  "make_reader_return h st =
     (case cache_value h (snd st) of Inl e \<Rightarrow> (Inl e, st) | Inr rd \<Rightarrow> (ok (rd, h), st))"

definition tc_get :: "string \<Rightarrow> SSTableId \<Rightarrow> tc_state \<Rightarrow> (SSTableReader \<times> handle) result \<times> tc_state" where
  "tc_get data_dir sid st =
     (let (s, c) = st; key = encode_key sid in
      case cache_lookup key c of
        (Inl e, c) \<Rightarrow> (Inl e, (s, c))
      | (Inr (Some h), c) \<Rightarrow> make_reader_return h (s, c)
      | (Inr None, c) \<Rightarrow>
          (case SSTableReader_create s (sst_path data_dir (id_value sid)) of
             (Inl e, s) \<Rightarrow> (Inl e, (s, c))
           | (Inr owned, s) \<Rightarrow>
               (case cache_insert key owned (word_of_nat (sr_memory_usage owned)) c of
                  (Inl e, c) \<Rightarrow> (Inl e, (s, c))
                | (Inr h, c) \<Rightarrow> make_reader_return h (s, c))))"

text \<open>The end of the life of a \<open>shared_ptr\<close> that \<open>get\<close> returned.\<close>

definition tc_release :: "handle \<Rightarrow> tc_state \<Rightarrow> unit result \<times> tc_state" where
  "tc_release h st = (case cache_release h (snd st) of (r, c) \<Rightarrow> (r, (fst st, c)))"

definition tc_evict :: "SSTableId \<Rightarrow> tc_state \<Rightarrow> unit result \<times> tc_state" where
  "tc_evict sid st = (case cache_erase (encode_key sid) (snd st) of (r, c) \<Rightarrow> (r, (fst st, c)))"

definition tc_get_stats :: "tc_state \<Rightarrow> Stats" where
  "tc_get_stats st = cache_get_stats (snd st)"

section \<open>Pins\<close>

text \<open>
  The handles a client holds, with multiplicity: each of them is alive and has at least as many
  references outside the cache as the client holds.
\<close>

context pinned_cache
begin

definition pinned :: "'c \<Rightarrow> 'h multiset \<Rightarrow> bool" where
  "pinned c H \<longleftrightarrow> (\<forall>h \<in># H. \<exists>k v m. holds c h k v m \<and> count H h \<le> m)"

lemma pinned_empty [simp]: "pinned c {#}"
  by (simp add: pinned_def)

lemma pinned_mono:
  assumes "pinned c H" and "\<And>x k v n. holds c x k v n \<Longrightarrow> 0 < n \<Longrightarrow> \<exists>m \<ge> n. holds c' x k v m"
  shows "pinned c' H"
proof -
  have "\<exists>k v m. holds c' h k v m \<and> count H h \<le> m" if h: "h \<in># H" for h
  proof -
    from assms(1) h obtain k v m where m: "holds c h k v m" "count H h \<le> m" by (auto simp: pinned_def)
    moreover have "0 < m" using m(2) h by (auto simp: count_greater_zero_iff [symmetric] simp del: count_greater_zero_iff)
    ultimately show ?thesis using assms(2) [of h k v m] by (meson order_trans)
  qed
  then show ?thesis by (simp add: pinned_def)
qed

lemma pinned_add:
  assumes "pinned c H" and "holds c' h k v (Suc n)" and "\<And>k v m. holds c h k v m \<Longrightarrow> m \<le> n"
    and "\<And>x k v m. x \<noteq> h \<Longrightarrow> holds c x k v m \<Longrightarrow> 0 < m \<Longrightarrow> holds c' x k v m"
  shows "pinned c' (add_mset h H)"
proof -
  have "count H h \<le> n"
  proof (cases "h \<in># H")
    case True
    with assms(1) obtain k v m where "holds c h k v m" "count H h \<le> m" by (auto simp: pinned_def)
    with assms(3) show ?thesis by (meson order_trans)
  qed (simp add: not_in_iff)
  moreover have "\<exists>k v m. holds c' x k v m \<and> count H x \<le> m" if x: "x \<in># H" "x \<noteq> h" for x
  proof -
    from assms(1) x obtain k v m where m: "holds c x k v m" "count H x \<le> m" by (auto simp: pinned_def)
    moreover have "0 < m" using m(2) x by (auto simp: count_greater_zero_iff [symmetric] simp del: count_greater_zero_iff)
    ultimately show ?thesis using assms(4) x(2) by blast
  qed
  ultimately show ?thesis using assms(2) by (auto simp: pinned_def)
qed

lemma pinned_hit:
  assumes "inv c" and "lookup_op k c = (ok (Some h), c')" and "pinned c H"
  shows "pinned c' (add_mset h H)"
proof -
  from lookup_ok [OF assms(1), of k] assms(2) obtain v n where l: "holds c h k v n" "holds c' h k v (Suc n)"
      "\<forall>x. x \<noteq> h \<longrightarrow> holds c' x = holds c x" by auto
  from pinned_add [OF assms(3) l(2)] unique [OF l(1)] l(3) show ?thesis by (metis order_refl prod.inject)
qed

lemma pinned_miss: "inv c \<Longrightarrow> lookup_op k c = (ok None, c') \<Longrightarrow> pinned c H \<Longrightarrow> pinned c' H"
  using lookup_ok [of c k] by (auto simp: pinned_def)

lemma pinned_insert:
  assumes "inv c" and "insert_op k v charge c = (ok h, c')" and "pinned c H"
  shows "pinned c' (add_mset h H)"
proof -
  from insert_ok [OF assms(1), of k v charge] assms(2) have i: "holds c' h k v (Suc 0)" "\<forall>k v n. \<not> holds c h k v n"
      "\<forall>x k v n. x \<noteq> h \<longrightarrow> (holds c' x k v n \<longrightarrow> holds c x k v n) \<and> (holds c x k v n \<longrightarrow> 0 < n \<longrightarrow> holds c' x k v n)" by auto
  show ?thesis by (rule pinned_add [OF assms(3) i(1)]) (use i(2,3) in blast)+
qed

lemma pinned_erase:
  assumes "inv c" and "erase_op k c = (ok (), c')" and "pinned c H"
  shows "pinned c' H"
proof (rule pinned_mono [OF assms(3)])
  fix x k v n assume "holds c x k v n" "0 < n"
  with erase_ok [OF assms(1), of k] assms(2) have "holds c' x k v n" using erase_ok [OF assms(1)] by (metis Pair_inject)
  then show "\<exists>m \<ge> n. holds c' x k v m" by blast
qed

lemma pinned_release:
  assumes "inv c" and "all_hold P c" and "pinned c (add_mset h H)"
  shows "\<exists>c'. release_op h c = (ok (), c') \<and> inv c' \<and> all_hold P c' \<and> pinned c' H"
proof -
  from assms(3) have "\<exists>k v m. holds c h k v m \<and> count (add_mset h H) h \<le> m" by (simp add: pinned_def)
  then obtain k v m where m: "holds c h k v m" "Suc (count H h) \<le> m" by auto
  then obtain n where n: "m = Suc n" by (cases m) auto
  from unpin [OF assms(1,2) m(1) [unfolded n]] obtain c' where r: "release_op h c = (ok (), c')" "inv c'" "all_hold P c'"
      "\<forall>x. x \<noteq> h \<longrightarrow> holds c' x = holds c x" "0 < n \<longrightarrow> holds c' h k v n" by (elim exE conjE)
  have "\<exists>k v m. holds c' x k v m \<and> count H x \<le> m" if x: "x \<in># H" for x
  proof (cases "x = h")
    case True
    have "0 < count H h" using x True by (simp only: count_greater_zero_iff)
    moreover have le: "count H h \<le> n" using m(2) n by simp
    ultimately have "0 < n" by (rule less_le_trans)
    with le show ?thesis using True r(5) by blast
  next
    case False
    have "\<exists>k v m. holds c x k v m \<and> count (add_mset h H) x \<le> m" using assms(3) x by (simp add: pinned_def)
    then have "\<exists>k v m. holds c x k v m \<and> count H x \<le> m" using False by simp
    with False r(4) show ?thesis by simp
  qed
  then have "pinned c' H" by (simp add: pinned_def)
  with r show ?thesis by blast
qed

end

section \<open>Readers that stay valid\<close>

definition kept :: "fs \<Rightarrow> fs \<Rightarrow> bool" where
  "kept s t \<longleftrightarrow> (\<forall>rd tbl. reader_on s rd tbl \<longrightarrow> reader_on t rd tbl)"

lemma kept_refl [simp]: "kept s s"
  by (simp add: kept_def)

lemma kept_trans: "kept s t \<Longrightarrow> kept t u \<Longrightarrow> kept s u"
  by (simp add: kept_def)

lemma kept_fd_file:
  assumes "\<And>d f n. fd_file s d = Some (f, n) \<Longrightarrow> of_readable f \<Longrightarrow> \<exists>m. fd_file t d = Some (f, m) \<and> contents m = contents n"
  shows "kept s t"
proof -
  have "readable t fh \<and> view t fh = view s fh" if "readable s fh" for fh
  proof -
    from that obtain f n where f: "fd fh \<noteq> -1" "fd_file s (fd fh) = Some (f, n)" "of_readable f"
      by (auto simp: readable_def split: option.splits)
    with assms [OF f(2,3)] show ?thesis by (auto simp: readable_def view_def)
  qed
  then show ?thesis unfolding kept_def reader_on_def by metis
qed

lemma fd_file_opened:
  assumes "fs_wf s" and "fd_file s d = Some (f, n)"
  shows "fd_file (fs_opened s i m) d = Some (f, n)"
proof -
  have "d \<noteq> next_fd s" using assms fd_file_SomeD [OF assms(2)] by (auto simp: fs_wf_def)
  then show ?thesis using assms(2) by (auto simp: fd_file_def split: option.splits)
qed

lemma kept_opened: "fs_wf s \<Longrightarrow> kept s (fs_opened s i m)"
  by (rule kept_fd_file) (auto simp: fd_file_opened)

lemma fs_wf_opened: "fs_wf s \<Longrightarrow> i < next_ino s \<Longrightarrow> inodes s i \<noteq> None \<Longrightarrow> fs_wf (fs_opened s i m)"
  by (force simp: fs_wf_def mode_file_def split: if_splits)

text \<open>A reader on the file of a table, with the numbers of its footer.\<close>

definition good_reader :: "fs \<Rightarrow> SSTableReader \<Rightarrow> entry list \<Rightarrow> bool" where
  "good_reader s rd tbl \<longleftrightarrow> reader_on s rd tbl \<and> highest_sequence (sr_footer rd) = max_seq tbl
     \<and> unat (footer_entry_count (sr_footer rd)) = length tbl"

lemma good_reader_kept: "good_reader s rd tbl \<Longrightarrow> kept s t \<Longrightarrow> good_reader t rd tbl"
  by (simp add: good_reader_def kept_def)

section \<open>Serving tables\<close>

definition stored :: "string \<Rightarrow> fs \<Rightarrow> SSTableId \<Rightarrow> entry list \<Rightarrow> bool" where
  "stored d s sid tbl \<longleftrightarrow> (\<exists>i n f. map_of (dir s) (sst_path d (id_value sid)) = Some i \<and> inodes s i = Some n
     \<and> contents n = sst_image tbl f \<and> durable n = contents n \<and> table_ok tbl f)"

text \<open>
  \<open>tables\<close> gives the table that was written under an id, \<open>live\<close> are the ids whose files are in
  place. The cache may hold readers of files that have been removed.
\<close>

definition serves :: "(SSTableId \<rightharpoonup> entry list) \<Rightarrow> fs \<Rightarrow> bytes \<Rightarrow> SSTableReader \<Rightarrow> bool" where
  "serves tables s k rd \<longleftrightarrow> (\<exists>sid tbl. k = encode_key sid \<and> tables sid = Some tbl \<and> good_reader s rd tbl)"

text \<open>
  No assertion of \<open>remove\<close> fails on a table file: the build has none, or the scan of the open
  descriptors never reports a table file of the directory.
\<close>

definition calm :: "string \<Rightarrow> fs \<Rightarrow> bool" where
  "calm d s \<longleftrightarrow> (\<forall>links F n. assertions s = Some links \<longrightarrow> \<not> debug_has_open_fd_for_path (links F (sst_path d n)) (sst_path d n))"

definition files_ok :: "string \<Rightarrow> (SSTableId \<rightharpoonup> entry list) \<Rightarrow> SSTableId set \<Rightarrow> fs \<Rightarrow> bool" where
  "files_ok d tables live s \<longleftrightarrow> fs_wf s \<and> answers s = [] \<and> calm d s
     \<and> (\<forall>sid \<in> live. \<exists>tbl. tables sid = Some tbl \<and> stored d s sid tbl)"

definition tc_ok :: "string \<Rightarrow> (SSTableId \<rightharpoonup> entry list) \<Rightarrow> SSTableId set \<Rightarrow> tc_state \<Rightarrow> bool" where
  "tc_ok d tables live st \<longleftrightarrow> (case st of (s, c) \<Rightarrow>
     files_ok d tables live s \<and> cache_inv c \<and> sc.all_hold (serves tables s) c)"

lemma tc_okD:
  assumes "tc_ok d tables live (s, c)"
  shows "fs_wf s" and "answers s = []" and "cache_inv c" and "sc.all_hold (serves tables s) c" and "files_ok d tables live s"
    and "sid \<in> live \<Longrightarrow> tables sid = Some tbl \<Longrightarrow> stored d s sid tbl"
  using assms by (force simp: tc_ok_def files_ok_def)+

lemma encode_key_inj: "encode_key a = encode_key b \<Longrightarrow> a = b"
proof -
  have k: "encode_key x = be 8 (id_value x)" for x by (simp add: encode_key_def codec_simps overwrite_all)
  assume "encode_key a = encode_key b"
  then have "decode_uint64 (be 8 (id_value a)) 0 = decode_uint64 (be 8 (id_value b)) 0" by (simp add: k)
  moreover have "decode_uint64 (be 8 x) 0 = x" for x :: u64 by (rule codec_simps) simp_all
  ultimately have "id_value a = id_value b" by simp
  then show ?thesis by (rule SSTableId.expand)
qed

text \<open>
  What an operation that only opens table files leaves of the file system. The engine never opens
  a table file under another name.
\<close>

definition table_ino :: "fs \<Rightarrow> nat \<Rightarrow> bool" where
  "table_ino s i \<longleftrightarrow> (\<exists>d n. map_of (dir s) (sst_path d n) = Some i)"

definition same_files :: "fs \<Rightarrow> fs \<Rightarrow> bool" where
  "same_files s t \<longleftrightarrow> dir t = dir s \<and> inodes t = inodes s \<and> next_ino t = next_ino s \<and> subdirs t = subdirs s \<and> answers t = answers s \<and> assertions t = assertions s
     \<and> next_fd s \<le> next_fd t \<and> (\<forall>d f. fds s d = Some f \<longrightarrow> fds t d = Some f)
     \<and> (\<forall>d f. fds t d = Some f \<longrightarrow> fds s d = Some f \<or> table_ino s (of_ino f))"

lemma same_files_refl [simp]: "same_files s s"
  by (simp add: same_files_def)

lemma same_files_trans: "same_files s t \<Longrightarrow> same_files t u \<Longrightarrow> same_files s u"
  by (simp add: same_files_def table_ino_def) blast

lemma same_files_opened: "fs_wf s \<Longrightarrow> map_of (dir s) (sst_path d n) = Some i \<Longrightarrow> same_files s (fs_opened s i m)"
  by (auto simp: same_files_def fs_wf_def table_ino_def mode_file_def)

lemma stored_same_files: "same_files s t \<Longrightarrow> stored d t = stored d s"
  by (auto simp: same_files_def stored_def fun_eq_iff)

lemma files_ok_same: "files_ok d tables live s \<Longrightarrow> same_files s t \<Longrightarrow> fs_wf t \<Longrightarrow> files_ok d tables live t"
  by (simp add: files_ok_def stored_same_files) (simp add: same_files_def calm_def)

lemma serves_kept: "serves tables s k rd \<Longrightarrow> kept s t \<Longrightarrow> serves tables t k rd"
  unfolding serves_def using good_reader_kept by blast

lemma all_hold_mono: "sc.all_hold P c \<Longrightarrow> (\<And>k v. P k v \<Longrightarrow> Q k v) \<Longrightarrow> sc.all_hold Q c"
  unfolding sc.all_hold_def by blast

lemma open_stored:
  assumes "stored d s sid tbl" and "fs_wf s" and "answers s = []"
  shows "\<exists>rd t. SSTableReader_create s (sst_path d (id_value sid)) = (ok rd, t) \<and> good_reader t rd tbl \<and> fs_wf t \<and> kept s t \<and> same_files s t"
proof -
  obtain i n f where i: "map_of (dir s) (sst_path d (id_value sid)) = Some i" "inodes s i = Some n" "contents n = sst_image tbl f" "table_ok tbl f"
    using assms(1) by (auto simp: stored_def)
  have fd: "0 \<le> next_fd s" using assms(2) by (simp add: fs_wf_def)
  from SSTableReader_create_table [OF assms(3) i(1,2) fd i(3,4)] obtain rd where
    rd: "SSTableReader_create s (sst_path d (id_value sid)) = (ok rd, fs_opened s i Read)" "good_reader (fs_opened s i Read) rd tbl"
    by (auto simp: good_reader_def)
  have "i < next_ino s" using i(1) assms(2) by (auto simp: fs_wf_def dest!: map_of_SomeD)
  with fs_wf_opened [OF assms(2), of i Read] i(2) kept_opened [OF assms(2)] same_files_opened [OF assms(2) i(1)] rd show ?thesis by auto
qed

text \<open>A change of the file system that keeps the readers and the live files.\<close>

lemma tc_ok_files:
  assumes "tc_ok d tables live (s, c)" and "kept s t" and "files_ok d tables' live' t" and "tables \<subseteq>\<^sub>m tables'"
  shows "tc_ok d tables' live' (t, c)"
proof -
  have "serves tables' t k rd" if "serves tables s k rd" for k rd
    using that serves_kept [OF that assms(2)] assms(4) unfolding serves_def map_le_def by (metis domI)
  from all_hold_mono [OF tc_okD(4) [OF assms(1)] this] show ?thesis
    using tc_okD(3) [OF assms(1)] assms(3) by (simp add: tc_ok_def)
qed

lemma tc_get_ok:
  assumes "tc_ok d tables live (s, c)" and "sid \<in> live" and "tables sid = Some tbl"
  shows "\<exists>rd h t e. tc_get d sid (s, c) = (ok (rd, h), (t, e)) \<and> tc_ok d tables live (t, e) \<and> good_reader t rd tbl
     \<and> kept s t \<and> same_files s t \<and> (\<forall>H. sc.pinned c H \<longrightarrow> sc.pinned e (add_mset h H))"
proof -
  note ok = tc_okD [OF assms(1)]
  obtain r c1 where l: "cache_lookup (encode_key sid) c = (ok r, c1)" using cache_lookup_ok [OF ok(3), of "encode_key sid"] by (elim exE conjE)
  show ?thesis
  proof (cases r)
    case (Some h)
    from sc.pin_hit [OF ok(3,4) l [unfolded Some]] obtain rd where h: "cache_inv c1" "sc.all_hold (serves tables s) c1"
        "serves tables s (encode_key sid) rd" "cache_value h c1 = ok rd"
      by (elim conjE exE)
    have "tc_get d sid (s, c) = (ok (rd, h), (s, c1))" using l Some h(4) by (simp add: tc_get_def make_reader_return_def ok_def)
    moreover have "tc_ok d tables live (s, c1)" using ok(5) h by (simp add: tc_ok_def)
    moreover have "good_reader s rd tbl" using h(3) assms(3) by (auto simp: serves_def dest: encode_key_inj)
    ultimately show ?thesis using sc.pinned_hit [OF ok(3) l [unfolded Some]] kept_refl same_files_refl by (intro exI conjI allI impI)
  next
    case None
    from sc.pin_miss [OF ok(3,4) l [unfolded None]] have c1: "cache_inv c1" "sc.all_hold (serves tables s) c1" by auto
    obtain rd t where rd: "SSTableReader_create s (sst_path d (id_value sid)) = (ok rd, t)" "good_reader t rd tbl" "fs_wf t" "kept s t" "same_files s t"
      using open_stored [OF ok(6) [OF assms(2,3)] ok(1,2)] by (elim exE conjE)
    have hold: "sc.all_hold (serves tables t) c1" using all_hold_mono [OF c1(2)] serves_kept [OF _ rd(4)] by blast
    have serve: "serves tables t (encode_key sid) rd" using rd(2) assms(3) unfolding serves_def by blast
    obtain h e where h: "cache_insert (encode_key sid) rd (word_of_nat (sr_memory_usage rd)) c1 = (ok h, e)" "cache_inv e" "sc.all_hold (serves tables t) e" "cache_value h e = ok rd"
      using sc.pin_insert [OF c1(1) hold serve, of "word_of_nat (sr_memory_usage rd)"] by (elim exE conjE)
    have "tc_get d sid (s, c) = (ok (rd, h), (t, e))" using l None rd(1) h(1,4) by (simp add: tc_get_def make_reader_return_def ok_def)
    moreover have "tc_ok d tables live (t, e)"
      using files_ok_same [OF ok(5) rd(5,3)] h(2,3) by (simp add: tc_ok_def)
    moreover have "\<forall>H. sc.pinned c H \<longrightarrow> sc.pinned e (add_mset h H)"
      using sc.pinned_insert [OF c1(1) h(1)] sc.pinned_miss [OF ok(3) l [unfolded None]] by blast
    ultimately show ?thesis using rd(2,4,5) by (intro exI conjI)
  qed
qed

lemma tc_release_ok:
  assumes "tc_ok d tables live (s, c)" and "sc.pinned c (add_mset h H)"
  shows "\<exists>e. tc_release h (s, c) = (ok (), (s, e)) \<and> tc_ok d tables live (s, e) \<and> sc.pinned e H"
proof -
  note ok = tc_okD [OF assms(1)]
  from sc.pinned_release [OF ok(3,4) assms(2)] obtain e where "cache_release h c = (ok (), e)" "cache_inv e" "sc.all_hold (serves tables s) e"
      "sc.pinned e H" by (elim exE conjE)
  with ok(5) show ?thesis by (simp add: tc_release_def tc_ok_def)
qed

lemma tc_evict_ok:
  assumes "tc_ok d tables live (s, c)"
  shows "\<exists>e. tc_evict sid (s, c) = (ok (), (s, e)) \<and> tc_ok d tables live (s, e) \<and> (\<forall>H. sc.pinned c H \<longrightarrow> sc.pinned e H)"
proof -
  note ok = tc_okD [OF assms(1)]
  from sc.erase_keeps [OF ok(3,4), of "encode_key sid"] obtain e where e: "cache_erase (encode_key sid) c = (ok (), e)" "cache_inv e"
      "sc.all_hold (serves tables s) e" by (elim exE conjE)
  with ok(5) sc.pinned_erase [OF ok(3) e(1)] show ?thesis by (simp add: tc_evict_def tc_ok_def)
qed

end
