(* ===== verification/Table_Files.thy ===== *)
theory Table_Files
  imports Table_Cache
begin

text \<open>
  What the writers of the engine do to the files of the tables: creating, filling, syncing and
  removing files keeps the file system well-formed, keeps the open readers valid and keeps the
  files of the live tables in place.
\<close>

section \<open>Well-formedness\<close>

lemma fs_wf_fd: "fs_wf s \<Longrightarrow> fds s d = Some f \<Longrightarrow> d < next_fd s \<and> of_ino f < next_ino s \<and> inodes s (of_ino f) \<noteq> None"
  by (simp add: fs_wf_def)

lemma fs_wf_path: "fs_wf s \<Longrightarrow> map_of (dir s) p = Some i \<Longrightarrow> i < next_ino s \<and> inodes s i \<noteq> None"
  by (auto simp: fs_wf_def dest!: map_of_SomeD)

lemma fs_wf_create:
  assumes "fs_wf s" and "map_of (dir s) p = None"
  shows "fs_wf (create_file s p)"
  using assms by (force simp: fs_wf_def map_of_eq_None_iff)

lemma fs_wf_append: "fs_wf s \<Longrightarrow> fs_wf (fs_append s fh bs)"
  by (cases "fd_file s (fd fh)") (auto simp: fs_wf_def fs_append_def dest!: fd_file_SomeD split: if_splits)

lemma fs_wf_sync: "fs_wf s \<Longrightarrow> fs_wf (fs_sync s fh)"
  by (cases "fd_file s (fd fh)") (auto simp: fs_wf_def fs_sync_def dest!: fd_file_SomeD)

lemma fs_wf_unlink: "fs_wf s \<Longrightarrow> fs_wf (s\<lparr>dir := filter P (dir s)\<rparr>)"
  by (auto simp: fs_wf_def distinct_map_filter)

lemma fs_wf_stored:
  assumes "fs_wf s" and "map_of (dir s) p = None"
  shows "fs_wf (fs_stored s p img)"
proof -
  have "fs_wf (fs_opened (create_file s p) (next_ino s) Write)"
    by (rule fs_wf_opened [OF fs_wf_create [OF assms]]) simp_all
  then show ?thesis by (simp add: fs_stored_def Let_def fs_wf_append fs_wf_sync)
qed

section \<open>Readers\<close>

text \<open>No descriptor that reads has the file open.\<close>

definition unread :: "fs \<Rightarrow> nat \<Rightarrow> bool" where
  "unread s i \<longleftrightarrow> (\<forall>d f. fds s d = Some f \<longrightarrow> of_ino f = i \<longrightarrow> \<not> of_readable f)"

lemma kept_append:
  assumes "fd_file s (fd fh) = Some (g, n0)" and "unread s (of_ino g)"
  shows "kept s (fs_append s fh bs)"
proof (rule kept_fd_file)
  fix d f n assume f: "fd_file s d = Some (f, n)" "of_readable f"
  from f(1) have i: "fds s d = Some f" "inodes s (of_ino f) = Some n" by (auto dest: fd_file_SomeD)
  with assms f(2) have "of_ino f \<noteq> of_ino g" "d \<noteq> fd fh" by (auto simp: unread_def dest: fd_file_SomeD)
  with i have "fd_file (fs_append s fh bs) d = Some (f, n)" by (simp add: fs_append_def assms(1)) (simp add: fd_file_def)
  then show "\<exists>m. fd_file (fs_append s fh bs) d = Some (f, m) \<and> contents m = contents n" by blast
qed

lemma kept_sync: "kept s (fs_sync s fh)"
proof (cases "fd_file s (fd fh)")
  case None
  then show ?thesis by (simp add: fs_sync_def)
next
  case (Some p)
  obtain a b where p: "p = (a, b)" by (cases p)
  have a: "inodes s (of_ino a) = Some b" using Some p by (auto dest: fd_file_SomeD)
  have sync: "fs_sync s fh = s\<lparr>inodes := (inodes s)(of_ino a \<mapsto> b\<lparr>durable := contents b\<rparr>)\<rparr>" by (simp add: fs_sync_def Some p)
  show ?thesis
  proof (rule kept_fd_file)
    fix d f n assume f: "fd_file s d = Some (f, n)"
    then have "fds s d = Some f" "inodes s (of_ino f) = Some n" by (auto dest: fd_file_SomeD)
    with a show "\<exists>m. fd_file (fs_sync s fh) d = Some (f, m) \<and> contents m = contents n"
      by (auto simp: sync fd_file_def)
  qed
qed

lemma kept_create:
  assumes "fs_wf s"
  shows "kept s (create_file s p)"
proof (rule kept_fd_file)
  fix d f n assume f: "fd_file s d = Some (f, n)"
  then have "fds s d = Some f" "inodes s (of_ino f) = Some n" by (auto dest: fd_file_SomeD)
  moreover from fs_wf_fd [OF assms this(1)] have "of_ino f \<noteq> next_ino s" by simp
  ultimately show "\<exists>m. fd_file (create_file s p) d = Some (f, m) \<and> contents m = contents n" by (simp add: fd_file_def)
qed

lemma kept_same: "fds t = fds s \<Longrightarrow> inodes t = inodes s \<Longrightarrow> kept s t"
  by (rule kept_fd_file) (auto simp: fd_file_def cong: option.case_cong)

text \<open>A file that is being written anew.\<close>

abbreviation fs_fresh :: "fs \<Rightarrow> string \<Rightarrow> Mode \<Rightarrow> fs" where
  "fs_fresh s p mode \<equiv> fs_opened (create_file s p) (next_ino s) mode"

lemma fs_fresh_file:
  "fd_file (fs_fresh s p mode) (next_fd s) = Some (mode_file (next_ino s) mode, \<lparr>contents = [], durable = []\<rparr>)"
  using fd_file_fs_opened [of "create_file s p" "next_ino s" "\<lparr>contents = [], durable = []\<rparr>" mode] by simp

lemma fs_fresh_wf: "fs_wf s \<Longrightarrow> map_of (dir s) p = None \<Longrightarrow> fs_wf (fs_fresh s p mode)"
  by (rule fs_wf_opened [OF fs_wf_create]) simp_all

lemma fs_fresh_unread: "fs_wf s \<Longrightarrow> mode \<noteq> Read \<Longrightarrow> mode \<noteq> ReadWrite \<Longrightarrow> unread (fs_fresh s p mode) (next_ino s)"
  by (auto simp: unread_def mode_file_def dest: fs_wf_fd split: if_splits)

lemma fs_fresh_kept: "fs_wf s \<Longrightarrow> map_of (dir s) p = None \<Longrightarrow> kept s (fs_fresh s p mode)"
  by (rule kept_trans [OF kept_create kept_opened [OF fs_wf_create]])

lemma kept_writing:
  assumes "fs_wf s" and "map_of (dir s) p = None"
  shows "kept s (fs_append (fs_fresh s p Write) (FileHandle (next_fd s)) bs)"
proof (rule kept_trans [OF fs_fresh_kept [OF assms]])
  have "unread (fs_fresh s p Write) (of_ino (mode_file (next_ino s) Write))"
    using fs_fresh_unread [OF assms(1), of Write] by (simp add: mode_file_def)
  with fs_fresh_file [of s p Write] show "kept (fs_fresh s p Write) (fs_append (fs_fresh s p Write) (FileHandle (next_fd s)) bs)"
    by (intro kept_append) simp_all
qed

lemma kept_stored:
  assumes "fs_wf s" and "map_of (dir s) p = None"
  shows "kept s (fs_stored s p img)"
  using kept_trans [OF kept_writing [OF assms] kept_sync] by (simp add: fs_stored_def Let_def)

section \<open>Live files\<close>

lemma files_ok_mono:
  assumes "files_ok d tables live s" and "fs_wf t" and "answers t = []" and "live' \<subseteq> live"
    and "\<And>sid. sid \<in> live' \<Longrightarrow> map_of (dir t) (sst_path d (id_value sid)) = map_of (dir s) (sst_path d (id_value sid))"
    and "\<And>sid i n. sid \<in> live' \<Longrightarrow> map_of (dir s) (sst_path d (id_value sid)) = Some i \<Longrightarrow> inodes s i = Some n \<Longrightarrow>
           inodes t i = Some n"
    and "assertions t = assertions s"
  shows "files_ok d tables live' t"
proof -
  have "\<exists>tbl. tables sid = Some tbl \<and> stored d t sid tbl" if sid: "sid \<in> live'" for sid
  proof -
    from assms(1,4) sid obtain tbl i n f where tbl: "tables sid = Some tbl" "map_of (dir s) (sst_path d (id_value sid)) = Some i"
        "inodes s i = Some n" "contents n = sst_image tbl f" "durable n = contents n" "table_ok tbl f"
      unfolding files_ok_def stored_def by blast
    with assms(5) [OF sid] assms(6) [OF sid tbl(2,3)] show ?thesis by (auto simp: stored_def)
  qed
  moreover have "calm d t" using assms(1,7) by (simp add: files_ok_def calm_def)
  ultimately show ?thesis using assms(2,3) by (simp add: files_ok_def)
qed

lemma files_ok_stored:
  assumes "files_ok d tables live s" and "map_of (dir s) (sst_path d n) = None" and "table_ok out f" and "tables (SSTableId n) = None"
  shows "files_ok d (tables(SSTableId n \<mapsto> out)) (insert (SSTableId n) live) (fs_stored s (sst_path d n) (sst_image out f))"
proof -
  let ?t = "fs_stored s (sst_path d n) (sst_image out f)"
  have wf: "fs_wf s" "answers s = []" using assms(1) by (auto simp: files_ok_def)
  have new: "stored d ?t (SSTableId n) out"
    using assms(2,3) by (auto simp: stored_def map_add_def)
  have "files_ok d tables live ?t"
  proof (rule files_ok_mono [OF assms(1) fs_wf_stored [OF wf(1) assms(2)]])
    fix sid assume sid: "sid \<in> live"
    then have ne: "map_of (dir s) (sst_path d (id_value sid)) \<noteq> None" using assms(1) by (auto simp: files_ok_def stored_def)
    then show "map_of (dir ?t) (sst_path d (id_value sid)) = map_of (dir s) (sst_path d (id_value sid))"
      by (auto simp: map_add_def)
    fix i m assume i: "map_of (dir s) (sst_path d (id_value sid)) = Some i" "inodes s i = Some m"
    then have "i \<noteq> next_ino s" using fs_wf_path [OF wf(1)] by blast
    with i show "inodes ?t i = Some m" by simp
  qed (use wf in simp_all)
  moreover have "SSTableId n \<notin> live" using assms(1,4) by (auto simp: files_ok_def)
  ultimately show ?thesis using new by (auto simp: files_ok_def)
qed

lemma wal_path_neq_sst_path [simp]: "wal_path d n \<noteq> sst_path d m" "sst_path d m \<noteq> wal_path d n"
  by (simp_all add: wal_path_def sst_path_def sstable_filename_def)

lemma parent_sst_path: "parent_of (sst_path d n) = d @ ''/sst''"
  using parent_of_append [of "sstable_filename (SSTableId n)" "d @ ''/sst''"] padded_notin [of "CHR ''/''"]
  by (auto simp: sst_path_def sstable_filename_def)

lemma parent_wal_path: "parent_of (wal_path d n) = d @ ''/wal''"
  using parent_of_append [of "''wal_'' @ padded (unat n) @ ''.log''" "d @ ''/wal''"] padded_notin [of "CHR ''/''"]
  by (auto simp: wal_path_def)

end
