(* ===== verification/Version_Set.thy ===== *)
theory Version_Set
  imports Storage_Types Ordered_Map
begin

text \<open>
  version_edit.h and version_set.h: the chain of versions and the reclamation of table files. A
  version is an object with an identity (a number); \<open>readers v\<close> counts the \<open>shared_ptr\<close>s to it that
  \<open>get_current()\<close> handed out and that are still held. Every operation runs under the mutex, so
  concurrent use is a sequence of operations.
\<close>

type_synonym file_map = "(SSTableId \<times> SSTableMeta) list"

record VersionEdit =
  removed :: "SSTableId list"
  added :: "SSTableMeta list"
  next_sst_id :: "u64 option"

record VersionSet =
  current_version :: nat
  live_versions :: "nat list"
  pending_obsolete_ids :: "SSTableId list"
  version_files :: "nat \<Rightarrow> file_map"
  readers :: "nat \<Rightarrow> nat"
  next_version :: nat

definition VersionSet_create :: "file_map \<Rightarrow> VersionSet" where
  "VersionSet_create sst_meta =
     \<lparr>current_version = 0, live_versions = [0], pending_obsolete_ids = [], version_files = (\<lambda>_. [])(0 := sst_meta),
      readers = (\<lambda>_. 0), next_version = 1\<rparr>"

definition current_files :: "VersionSet \<Rightarrow> file_map" where
  "current_files vs = version_files vs (current_version vs)"

definition sst_meta_to_vector :: "file_map \<Rightarrow> SSTableMeta list" where
  "sst_meta_to_vector files = map snd files"

text \<open>\<open>get_current()\<close> and the release of what it returned.\<close>

definition get_current :: "VersionSet \<Rightarrow> nat \<times> VersionSet" where
  "get_current vs =
     (let v = current_version vs in (v, vs\<lparr>readers := (readers vs)(v := readers vs v + 1)\<rparr>))"

definition release_version :: "nat \<Rightarrow> VersionSet \<Rightarrow> VersionSet" where
  "release_version v vs = vs\<lparr>readers := (readers vs)(v := readers vs v - 1)\<rparr>"

definition use_count :: "VersionSet \<Rightarrow> nat \<Rightarrow> nat" where
  "use_count vs v = (if current_version vs = v then 1 else 0) + count_list (live_versions vs) v + readers vs v"

definition purge_obsolete_files :: "VersionSet \<Rightarrow> SSTableId list \<times> VersionSet" where
  "purge_obsolete_files vs =
     (let live = filter (\<lambda>v. use_count vs v \<noteq> 1) (live_versions vs);
          live_ids = fst ` set (current_files vs) \<union> (\<Union>v \<in> set live. fst ` set (version_files vs v));
          reclaimable = filter (\<lambda>i. i \<notin> live_ids) (pending_obsolete_ids vs)
      in (reclaimable,
          vs\<lparr>live_versions := live, pending_obsolete_ids := filter (\<lambda>i. i \<in> live_ids) (pending_obsolete_ids vs)\<rparr>))"

definition append_version :: "file_map \<Rightarrow> SSTableId list \<Rightarrow> VersionSet \<Rightarrow> SSTableId list \<times> VersionSet" where
  "append_version files obsolete_ids vs =
     (let v = next_version vs;
          vs = vs\<lparr>current_version := v, live_versions := live_versions vs @ [v],
                  version_files := (version_files vs)(v := files), next_version := v + 1\<rparr>;
          vs = (if obsolete_ids \<noteq> []
                then vs\<lparr>pending_obsolete_ids := fold insort_insert obsolete_ids (pending_obsolete_ids vs)\<rparr> else vs)
      in purge_obsolete_files vs)"

definition vs_apply :: "VersionEdit \<Rightarrow> VersionSet \<Rightarrow> SSTableId list result \<times> VersionSet" where
  "vs_apply edit vs =
     (if list_ex (\<lambda>i. map_find (current_files vs) i = None) (removed edit)
      then (err STALE_VERSION ''VersionEdit already consumed'', vs)
      else
        let new_map = fold map_erase (removed edit) (current_files vs);
            new_map = fold (\<lambda>m. map_assign (meta_id m) m) (added edit) new_map;
            (published, vs) = append_version new_map (removed edit) vs
        in (ok published, vs))"

section \<open>Use by any number of readers and writers\<close>

inductive vs_step :: "VersionSet \<Rightarrow> VersionSet \<Rightarrow> bool" where
  vs_get: "vs_step vs (snd (get_current vs))"
| vs_release: "readers vs v > 0 \<Longrightarrow> vs_step vs (release_version v vs)"
| vs_edit: "vs_step vs (snd (vs_apply edit vs))"

inductive vs_reachable :: "VersionSet \<Rightarrow> bool" where
  vs_start: "ordered files \<Longrightarrow> vs_reachable (VersionSet_create files)"
| vs_more: "vs_reachable vs \<Longrightarrow> vs_step vs vs' \<Longrightarrow> vs_reachable vs'"

text \<open>
  The invariant: the current version and every version a reader holds are in the chain, versions
  are distinct objects, and their file maps are sorted.
\<close>

definition vs_inv :: "VersionSet \<Rightarrow> bool" where
  "vs_inv vs \<longleftrightarrow> current_version vs \<in> set (live_versions vs) \<and> (\<forall>v. readers vs v > 0 \<longrightarrow> v \<in> set (live_versions vs))
     \<and> distinct (live_versions vs) \<and> (\<forall>v \<in> set (live_versions vs). v < next_version vs \<and> ordered (version_files vs v))
     \<and> sorted (pending_obsolete_ids vs) \<and> distinct (pending_obsolete_ids vs)"

lemma vs_inv_readers: "vs_inv vs \<Longrightarrow> readers vs v > 0 \<Longrightarrow> v \<in> set (live_versions vs)"
  by (simp add: vs_inv_def)

lemma fold_insort_insert:
  fixes p :: "SSTableId list"
  assumes "sorted p" and "distinct p"
  shows "set (fold insort_insert ids p) = set ids \<union> set p \<and> sorted (fold insort_insert ids p) \<and> distinct (fold insort_insert ids p)"
  using assms
proof (induction ids arbitrary: p)
  case (Cons i ids)
  then show ?case
    by (simp add: set_insort_insert sorted_insort_insert distinct_insort_insert)
qed simp

lemma count_list_distinct: "distinct xs \<Longrightarrow> count_list xs v = (if v \<in> set xs then 1 else 0)"
  by (induction xs) auto

lemma purge_live:
  assumes "vs_inv vs" and "purge_obsolete_files vs = (ids, vs')"
  shows "set (live_versions vs') = {v \<in> set (live_versions vs). v = current_version vs \<or> readers vs v > 0}"
    and "vs_inv vs'" and "current_version vs' = current_version vs" and "version_files vs' = version_files vs" and "readers vs' = readers vs"
    and "set ids = {i \<in> set (pending_obsolete_ids vs). \<forall>v \<in> set (live_versions vs'). i \<notin> fst ` set (version_files vs v)}"
    and "set (pending_obsolete_ids vs') = set (pending_obsolete_ids vs) - set ids"
proof -
  have "use_count vs v = 1 \<longleftrightarrow> \<not> (v = current_version vs \<or> readers vs v > 0)" if "v \<in> set (live_versions vs)" for v
    using assms(1) that by (auto simp: vs_inv_def use_count_def count_list_distinct)
  then have live: "set (live_versions vs') = {v \<in> set (live_versions vs). v = current_version vs \<or> readers vs v > 0}"
    using assms(2) by (auto simp: purge_obsolete_files_def Let_def)
  then show "set (live_versions vs') = {v \<in> set (live_versions vs). v = current_version vs \<or> readers vs v > 0}" .
  show same: "current_version vs' = current_version vs" "version_files vs' = version_files vs" "readers vs' = readers vs"
    using assms(2) by (auto simp: purge_obsolete_files_def Let_def)
  have next': "next_version vs' = next_version vs" "distinct (live_versions vs')" "sorted (pending_obsolete_ids vs')"
      "distinct (pending_obsolete_ids vs')"
    using assms by (auto simp: purge_obsolete_files_def Let_def vs_inv_def intro: sorted_wrt_filter)
  from live same next' assms(1) show "vs_inv vs'" by (auto simp: vs_inv_def)
  have cur: "current_version vs \<in> set (live_versions vs')" using live assms(1) by (simp add: vs_inv_def)
  have "ids = filter (\<lambda>i. i \<notin> fst ` set (current_files vs) \<union> (\<Union>v \<in> set (live_versions vs'). fst ` set (version_files vs v)))
      (pending_obsolete_ids vs)"
    using assms(2) by (auto simp: purge_obsolete_files_def Let_def)
  moreover have "fst ` set (current_files vs) \<union> (\<Union>v \<in> set (live_versions vs'). fst ` set (version_files vs v))
      = (\<Union>v \<in> set (live_versions vs'). fst ` set (version_files vs v))"
    using cur unfolding current_files_def by blast
  ultimately show "set ids = {i \<in> set (pending_obsolete_ids vs). \<forall>v \<in> set (live_versions vs'). i \<notin> fst ` set (version_files vs v)}"
    by (simp only: set_filter UN_iff bex_simps ball_simps)
  let ?L = "fst ` set (current_files vs) \<union> (\<Union>v \<in> set (filter (\<lambda>v. use_count vs v \<noteq> 1) (live_versions vs)). fst ` set (version_files vs v))"
  note p = assms(2) [unfolded purge_obsolete_files_def Let_def prod.inject]
  have "ids = filter (\<lambda>i. i \<notin> ?L) (pending_obsolete_ids vs)" by (rule conjunct1 [OF p, symmetric])
  moreover have "pending_obsolete_ids vs' = filter (\<lambda>i. i \<in> ?L) (pending_obsolete_ids vs)"
    unfolding conjunct2 [OF p, symmetric] by simp
  ultimately show "set (pending_obsolete_ids vs') = set (pending_obsolete_ids vs) - set ids" by (simp only: set_filter) blast
qed

text \<open>The state \<open>append_version\<close> hands to the purge.\<close>

lemma append_inv:
  assumes "vs_inv vs" and "ordered files"
  shows "vs_inv (vs\<lparr>current_version := next_version vs, live_versions := live_versions vs @ [next_version vs],
      version_files := (version_files vs)(next_version vs := files), next_version := next_version vs + 1,
      pending_obsolete_ids := fold insort_insert ids (pending_obsolete_ids vs)\<rparr>)"
  using assms fold_insort_insert [of "pending_obsolete_ids vs" ids] by (auto simp: vs_inv_def)

lemma vs_apply_ok:
  assumes "vs_inv vs" and "vs_apply edit vs = (ok ids, vs')"
  shows "vs_inv vs' \<and> readers vs' = readers vs
     \<and> map_find (current_files vs') = map_find (current_files vs) |` (- set (removed edit)) ++ map_of (rev (map (\<lambda>m. (meta_id m, m)) (added edit)))
     \<and> (\<forall>v \<in> set (live_versions vs). version_files vs' v = version_files vs v)
     \<and> set (live_versions vs') = insert (current_version vs') {v \<in> set (live_versions vs). readers vs v > 0}
     \<and> set (pending_obsolete_ids vs') = set (removed edit) \<union> set (pending_obsolete_ids vs) - set ids
     \<and> set ids = {i \<in> set (removed edit) \<union> set (pending_obsolete_ids vs).
          \<forall>v \<in> set (live_versions vs'). map_find (version_files vs' v) i = None}"
proof -
  let ?erased = "fold map_erase (removed edit) (current_files vs)"
  let ?files = "fold (\<lambda>m. map_assign (meta_id m) m) (added edit) ?erased"
  let ?pub = "vs\<lparr>current_version := next_version vs, live_versions := live_versions vs @ [next_version vs],
      version_files := (version_files vs)(next_version vs := ?files), next_version := next_version vs + 1,
      pending_obsolete_ids := fold insort_insert (removed edit) (pending_obsolete_ids vs)\<rparr>"
  have ord: "ordered (current_files vs)" using assms(1) by (auto simp: vs_inv_def current_files_def)
  have e: "ordered ?erased" "map_find ?erased = map_find (current_files vs) |` (- set (removed edit))"
    using omap.fold_erase [OF ord] by simp_all
  have conv: "?files = fold (\<lambda>(k, v). map_assign k v) (map (\<lambda>m. (meta_id m, m)) (added edit)) ?erased"
    by (simp add: fold_map comp_def)
  have m: "ordered ?files" "map_find ?files = map_find ?erased ++ map_of (rev (map (\<lambda>m. (meta_id m, m)) (added edit)))"
    using omap.fold_assign [OF e(1)] unfolding conv by simp_all
  have "removed edit = [] \<Longrightarrow> pending_obsolete_ids vs = fold insort_insert (removed edit) (pending_obsolete_ids vs)" by simp
  then have p: "purge_obsolete_files ?pub = (ids, vs')"
    using assms(2) by (cases "removed edit = []") (auto simp: vs_apply_def append_version_def Let_def split: if_splits prod.splits)
  note inv1 = append_inv [OF assms(1) m(1), of "removed edit"]
  note pl = purge_live [OF inv1 p]
  have fresh: "next_version vs \<notin> set (live_versions vs)" and r0: "readers vs (next_version vs) = 0"
    using assms(1) by (auto simp: vs_inv_def)
  have pend: "set (pending_obsolete_ids ?pub) = set (removed edit) \<union> set (pending_obsolete_ids vs)"
    using fold_insort_insert [of "pending_obsolete_ids vs" "removed edit"] assms(1) by (simp add: vs_inv_def)
  have cf: "current_files vs' = ?files" using pl(3,4) by (simp add: current_files_def)
  have none: "map_find f i = None \<longleftrightarrow> i \<notin> fst ` set f" for f :: file_map and i
    by (simp add: map_find_def map_of_eq_None_iff)
  show ?thesis
  proof (intro conjI)
    show "vs_inv vs'" by (rule pl(2))
    show "readers vs' = readers vs" using pl(5) by simp
    show "map_find (current_files vs') = map_find (current_files vs) |` (- set (removed edit))
        ++ map_of (rev (map (\<lambda>m. (meta_id m, m)) (added edit)))" unfolding cf m(2) e(2) ..
    show "\<forall>v \<in> set (live_versions vs). version_files vs' v = version_files vs v" using pl(4) fresh by auto
    show "set (live_versions vs') = insert (current_version vs') {v \<in> set (live_versions vs). readers vs v > 0}"
      using pl(1,3) fresh r0 by auto
    show "set (pending_obsolete_ids vs') = set (removed edit) \<union> set (pending_obsolete_ids vs) - set ids"
      using pl(7) pend by simp
    show "set ids = {i \<in> set (removed edit) \<union> set (pending_obsolete_ids vs).
          \<forall>v \<in> set (live_versions vs'). map_find (version_files vs' v) i = None}"
      unfolding none pl(4) pl(6) pend by auto
  qed
qed

lemma vs_reachable_inv: "vs_reachable vs \<Longrightarrow> vs_inv vs"
proof (induction rule: vs_reachable.induct)
  case (vs_start files)
  then show ?case by (simp add: vs_inv_def VersionSet_create_def)
next
  case (vs_more vs vs')
  from vs_more.hyps(2) show ?case
  proof (cases rule: vs_step.cases)
    case (vs_edit edit)
    show ?thesis
    proof (cases "fst (vs_apply edit vs)")
      case (Inr ids)
      with vs_apply_ok [OF vs_more.IH, of edit ids vs'] vs_edit show ?thesis by (cases "vs_apply edit vs") (simp add: ok_def)
    next
      case (Inl e)
      with vs_edit vs_more.IH show ?thesis by (auto simp: vs_apply_def Let_def ok_def split: if_splits prod.splits)
    qed
  qed (use vs_more.IH in \<open>auto simp: vs_inv_def get_current_def release_version_def Let_def split: if_splits\<close>)
qed

text \<open>A version with two tables, read by one reader while a compaction replaces both tables.\<close>

definition demo_meta :: "u64 \<Rightarrow> SSTableMeta" where
  "demo_meta i = \<lparr>meta_id = SSTableId i, size_bytes = 100, entry_count = 1, max_sequence = i\<rparr>"

definition demo_files :: file_map where
  "demo_files = [(SSTableId 1, demo_meta 1), (SSTableId 2, demo_meta 2)]"

definition demo_edit :: VersionEdit where
  "demo_edit = \<lparr>removed = [SSTableId 1, SSTableId 2], added = [demo_meta 3], next_sst_id = None\<rparr>"

lemma demo_reachable: "vs_reachable (VersionSet_create demo_files)"
  by (rule vs_start) (simp add: demo_files_def)

lemma demo_apply:
  "\<exists>vs'. vs_apply demo_edit (VersionSet_create demo_files) = (ok [SSTableId 1, SSTableId 2], vs')"
  by (simp add: vs_apply_def demo_edit_def demo_files_def VersionSet_create_def current_files_def map_find_def map_erase_def
      append_version_def purge_obsolete_files_def use_count_def insort_insert_key_def demo_meta_def Let_def word_le_nat_alt)

section \<open>Properties\<close>

text \<open>
  C30. No table id that apply returns for deletion belongs to the current version or to a
  version a reader still holds, in every reachable state of the version set.
\<close>

theorem vs_reclaims_only_unused:
  assumes "vs_reachable vs" and "vs_apply edit vs = (ok ids, vs')" and "i \<in> set ids"
    and "v = current_version vs' \<or> readers vs' v > 0"
  shows "map_find (version_files vs' v) i = None"
proof -
  note a = vs_apply_ok [OF vs_reachable_inv [OF assms(1)] assms(2)]
  then have "v \<in> set (live_versions vs')" using assms(4) vs_inv_readers [of vs' v] by auto
  with a assms(3) show ?thesis by blast
qed

theorem vs_reclaims_only_unused_witness:
  "\<exists>vs'. vs_apply demo_edit (VersionSet_create demo_files) = (ok [SSTableId 1, SSTableId 2], vs')
     \<and> map_find (version_files vs' (current_version vs')) (SSTableId 1) = None"
proof -
  obtain vs' where a: "vs_apply demo_edit (VersionSet_create demo_files) = (ok [SSTableId 1, SSTableId 2], vs')"
    using demo_apply by (elim exE)
  from vs_reclaims_only_unused [OF demo_reachable a, of "SSTableId 1" "current_version vs'"] a show ?thesis by simp
qed

text \<open>
  Applying an edit succeeds exactly when all removed ids are in the current version, and
  then the new current version is the old one without the removed ids and with the added files;
  otherwise it reports a stale version and changes nothing.
\<close>

theorem vs_apply_files:
  assumes "vs_reachable vs"
  shows "case vs_apply edit vs of (r, vs') \<Rightarrow>
     (if \<forall>i \<in> set (removed edit). map_find (current_files vs) i \<noteq> None
      then has_value r \<and> map_find (current_files vs') =
        map_find (current_files vs) |` (- set (removed edit)) ++ map_of (rev (map (\<lambda>m. (meta_id m, m)) (added edit)))
      else r = err STALE_VERSION ''VersionEdit already consumed'' \<and> vs' = vs)"
proof (cases "\<forall>i \<in> set (removed edit). map_find (current_files vs) i \<noteq> None")
  case True
  then have "\<not> list_ex (\<lambda>i. map_find (current_files vs) i = None) (removed edit)" by (auto simp: list_ex_iff)
  then obtain ids vs' where r: "vs_apply edit vs = (ok ids, vs')"
    by (cases "append_version (fold (\<lambda>m. map_assign (meta_id m) m) (added edit) (fold map_erase (removed edit) (current_files vs)))
        (removed edit) vs") (simp add: vs_apply_def Let_def)
  with vs_apply_ok [OF vs_reachable_inv [OF assms] r] True show ?thesis by simp
next
  case False
  then show ?thesis by (auto simp: vs_apply_def list_ex_iff)
qed

theorem vs_apply_files_witness:
  "\<exists>vs'. vs_apply demo_edit (VersionSet_create demo_files) = (ok [SSTableId 1, SSTableId 2], vs')
     \<and> map_find (current_files vs') = [SSTableId 3 \<mapsto> demo_meta 3]"
proof -
  obtain vs' where a: "vs_apply demo_edit (VersionSet_create demo_files) = (ok [SSTableId 1, SSTableId 2], vs')"
    using demo_apply by (elim exE)
  from vs_apply_files [OF demo_reachable, of demo_edit] a show ?thesis
    by (auto simp: demo_edit_def demo_files_def VersionSet_create_def current_files_def map_find_def restrict_map_def demo_meta_def
        fun_eq_iff map_add_def split: if_splits option.splits)
qed

text \<open>
  C31. When no reader holds a version, applying an edit hands back every obsolete id that is not
  in the new current version: no file is kept for ever.
\<close>

theorem vs_no_leak:
  assumes "vs_reachable vs" and "vs_apply edit vs = (ok ids, vs')" and "\<forall>v. readers vs v = 0"
  shows "set ids = (set (removed edit) \<union> set (pending_obsolete_ids vs)) - dom (map_find (current_files vs'))
     \<and> set (pending_obsolete_ids vs') \<subseteq> dom (map_find (current_files vs'))"
proof -
  note a = vs_apply_ok [OF vs_reachable_inv [OF assms(1)] assms(2)]
  have "set (live_versions vs') = {current_version vs'}" using a assms(3) by simp
  moreover have "set ids = {i \<in> set (removed edit) \<union> set (pending_obsolete_ids vs).
      \<forall>v \<in> set (live_versions vs'). map_find (version_files vs' v) i = None}" using a by blast
  moreover have "set (pending_obsolete_ids vs') = set (removed edit) \<union> set (pending_obsolete_ids vs) - set ids"
    using a by blast
  ultimately show ?thesis by (auto simp: current_files_def)
qed

theorem vs_no_leak_witness:
  "\<exists>vs'. vs_apply demo_edit (VersionSet_create demo_files) = (ok [SSTableId 1, SSTableId 2], vs')
     \<and> set (pending_obsolete_ids vs') \<subseteq> dom (map_find (current_files vs'))"
proof -
  obtain vs' where a: "vs_apply demo_edit (VersionSet_create demo_files) = (ok [SSTableId 1, SSTableId 2], vs')"
    using demo_apply by (elim exE)
  from vs_no_leak [OF demo_reachable a] a show ?thesis by (simp add: VersionSet_create_def)
qed

end
