(* ===== verification/Version_Lookup.thy ===== *)
theory Version_Lookup
  imports Version_Set Table_Cache
begin

text \<open>
  Version::lookup and Version::lookup_internal (dazzle_engine.cpp, version.h): the tables of a
  version are searched from the highest id to the lowest through the table cache. The state is the
  one of the table cache.
\<close>

fun lookup_tables :: "string \<Rightarrow> Key \<Rightarrow> SSTableId list \<Rightarrow> tc_state \<Rightarrow> InternalValue option result \<times> tc_state" where
  "lookup_tables data_dir key [] st = (ok None, st)"
| "lookup_tables data_dir key (sid # ids) st =
     attempt (tc_get data_dir sid st) (\<lambda>(reader, h) (s, c).
       case sst_get s reader key of (found, s) \<Rightarrow>
         attempt (tc_release h (s, c)) (\<lambda>_ st.
           case found of
             Inl e \<Rightarrow> (Inl e, st)
           | Inr (Some v) \<Rightarrow> (ok (Some v), st)
           | Inr None \<Rightarrow> lookup_tables data_dir key ids st))"

definition lookup_internal :: "string \<Rightarrow> file_map \<Rightarrow> Key \<Rightarrow> tc_state \<Rightarrow> InternalValue option result \<times> tc_state" where
  "lookup_internal data_dir sst_meta key st = lookup_tables data_dir key (rev (map fst sst_meta)) st"

definition version_lookup :: "string \<Rightarrow> file_map \<Rightarrow> Key \<Rightarrow> tc_state \<Rightarrow> Value option result \<times> tc_state" where
  "version_lookup data_dir sst_meta key st =
     attempt (lookup_internal data_dir sst_meta key st) (\<lambda>value st.
       case value of
         None \<Rightarrow> (ok None, st)
       | Some v \<Rightarrow> if is_tombstone v then (ok None, st) else (ok (Some \<lparr>value_data = data v\<rparr>), st))"

section \<open>What a version holds\<close>

text \<open>The map that the tables of a list of ids, oldest first, stand for: later tables win.\<close>

definition disk_map :: "(SSTableId \<rightharpoonup> entry list) \<Rightarrow> SSTableId list \<Rightarrow> Key \<rightharpoonup> InternalValue" where
  "disk_map tables ids = foldl (\<lambda>m sid. m ++ map_of (the (tables sid))) Map.empty ids"

lemma disk_map_Nil [simp]: "disk_map tables [] = Map.empty"
  by (simp add: disk_map_def)

lemma disk_map_snoc [simp]: "disk_map tables (ids @ [sid]) = disk_map tables ids ++ map_of (the (tables sid))"
  by (simp add: disk_map_def)

lemma disk_map_append: "disk_map tables (xs @ ys) = disk_map tables xs ++ disk_map tables ys"
  by (induction ys rule: rev_induct) (simp_all add: append_assoc [symmetric] del: append_assoc)

lemma disk_map_cong: "(\<And>sid. sid \<in> set ids \<Longrightarrow> tables sid = tables' sid) \<Longrightarrow> disk_map tables ids = disk_map tables' ids"
  by (induction ids rule: rev_induct) simp_all

definition reveal :: "InternalValue option \<Rightarrow> Value option" where
  "reveal r = (case r of None \<Rightarrow> None | Some v \<Rightarrow> if is_tombstone v then None else Some \<lparr>value_data = data v\<rparr>)"

lemma reveal_simps [simp]:
  "reveal None = None" "reveal (Some v) = (if is_tombstone v then None else Some \<lparr>value_data = data v\<rparr>)"
  by (simp_all add: reveal_def)

section \<open>Lookups are exact\<close>

lemma sst_get_quiet: "reader_on s rd es \<Longrightarrow> answers s = [] \<Longrightarrow> sst_get s rd key = (ok (map_of es key), s)"
  using sst_get_reader [of s rd es key] by (auto simp: answers_same)

text \<open>What operations on the table cache that hand back all their readers leave unchanged.\<close>

definition tc_step :: "string \<Rightarrow> (SSTableId \<rightharpoonup> entry list) \<Rightarrow> SSTableId set \<Rightarrow> tc_state \<Rightarrow> tc_state \<Rightarrow> bool" where
  "tc_step d tables live st st' \<longleftrightarrow> tc_ok d tables live st' \<and> kept (fst st) (fst st') \<and> same_files (fst st) (fst st')
     \<and> (\<forall>H. sc.pinned (snd st) H \<longrightarrow> sc.pinned (snd st') H)"

lemma tc_step_refl: "tc_ok d tables live st \<Longrightarrow> tc_step d tables live st st"
  by (simp add: tc_step_def)

lemma tc_step_trans: "tc_step d tables live st st' \<Longrightarrow> tc_step d tables live st' st'' \<Longrightarrow> tc_step d tables live st st''"
  by (auto simp: tc_step_def intro: kept_trans same_files_trans)

lemma lookup_tables_ok:
  assumes "tc_ok d tables live st" and "set ids \<subseteq> live"
  shows "\<exists>st'. lookup_tables d key ids st = (ok (disk_map tables (rev ids) key), st') \<and> tc_step d tables live st st'"
  using assms
proof (induction ids arbitrary: st)
  case Nil
  then show ?case by (auto intro: tc_step_refl)
next
  case (Cons sid ids)
  obtain s c where st: "st = (s, c)" by (cases st)
  have ok: "tc_ok d tables live (s, c)" using Cons.prems(1) st by simp
  have live: "sid \<in> live" using Cons.prems(2) by simp
  with ok obtain tbl where tbl: "tables sid = Some tbl" by (auto simp: tc_ok_def files_ok_def)
  obtain rd h t e where g: "tc_get d sid (s, c) = (ok (rd, h), (t, e))" "tc_ok d tables live (t, e)" "good_reader t rd tbl"
      "kept s t" "same_files s t" "\<forall>H. sc.pinned c H \<longrightarrow> sc.pinned e (add_mset h H)"
    using tc_get_ok [OF ok live tbl] by (elim exE conjE)
  have r: "sst_get t rd key = (ok (map_of tbl key), t)"
    using sst_get_quiet g(3) tc_okD(2) [OF g(2)] by (simp add: good_reader_def)
  obtain e' where e: "tc_release h (t, e) = (ok (), (t, e'))" "tc_ok d tables live (t, e')"
    using tc_release_ok [OF g(2), of h "{#}"] g(6) by auto
  have "sc.pinned e' H" if "sc.pinned c H" for H
    using tc_release_ok [OF g(2), of h H] g(6) that e(1) by auto
  then have step: "tc_step d tables live st (t, e')" using e(2) g(4,5) by (simp add: tc_step_def st)
  have run: "lookup_tables d key (sid # ids) st = (case map_of tbl key of
      Some v \<Rightarrow> (ok (Some v), (t, e')) | None \<Rightarrow> lookup_tables d key ids (t, e'))"
    by (simp add: st g(1) r e(1) ok_def split: option.splits)
  show ?case
  proof (cases "map_of tbl key")
    case (Some v)
    with run step tbl show ?thesis by (simp add: map_add_def)
  next
    case None
    from Cons.IH [OF e(2)] Cons.prems(2) obtain st' where
      "lookup_tables d key ids (t, e') = (ok (disk_map tables (rev ids) key), st')" "tc_step d tables live (t, e') st'" by auto
    with run None step tbl tc_step_trans [OF step] show ?thesis by (simp add: map_add_def)
  qed
qed

lemma lookup_internal_ok:
  assumes "tc_ok d tables live st" and "fst ` set files \<subseteq> live"
  shows "\<exists>st'. lookup_internal d files key st = (ok (disk_map tables (map fst files) key), st') \<and> tc_step d tables live st st'"
  using lookup_tables_ok [OF assms(1), of "rev (map fst files)" key] assms(2) by (simp add: lookup_internal_def)

lemma version_lookup_ok:
  assumes "tc_ok d tables live st" and "fst ` set files \<subseteq> live"
  shows "\<exists>st'. version_lookup d files key st = (ok (reveal (disk_map tables (map fst files) key)), st') \<and> tc_step d tables live st st'"
proof -
  obtain st' where "lookup_internal d files key st = (ok (disk_map tables (map fst files) key), st')" "tc_step d tables live st st'"
    using lookup_internal_ok [OF assms, of key] by (elim exE conjE)
  then show ?thesis by (intro exI [of _ st']) (simp add: version_lookup_def split: option.splits)
qed

end
