(* ===== verification/Merge_Iterator.thy ===== *)
theory Merge_Iterator
  imports Storage_Types Ordered_Map
begin

text \<open>
  internal_iterator.h and merge_iterator.cpp: the k-way merge of sorted sources. The virtual
  interface of the sources is a record of functions on a state that holds them all; a source
  pointer is a number. The heap is a list whose top is a greatest element for \<open>HeapCompare\<close>;
  which one, when several compare equal, is left open by \<open>std::priority_queue\<close> and does not
  matter below. The deduplication loop runs on fuel: it ends as soon as the sources do.
\<close>

record 'st InternalIterator =
  iter_valid :: "'st \<Rightarrow> nat \<Rightarrow> bool"
  iter_seek_to_first :: "'st \<Rightarrow> nat \<Rightarrow> 'st"
  iter_next :: "'st \<Rightarrow> nat \<Rightarrow> 'st"
  iter_key :: "'st \<Rightarrow> nat \<Rightarrow> Key"
  iter_value :: "'st \<Rightarrow> nat \<Rightarrow> InternalValue"
  iter_status :: "'st \<Rightarrow> nat \<Rightarrow> failure option"

record MergeIterator =
  mi_sources :: "nat list"
  mi_heap :: "nat list"
  mi_error :: "failure option"
  mi_current_key :: Key
  mi_current_value :: InternalValue
  mi_valid :: bool

definition MergeIterator_create :: "nat list \<Rightarrow> MergeIterator" where
  "MergeIterator_create sources =
     \<lparr>mi_sources = sources, mi_heap = [], mi_error = None, mi_current_key = Key [],
      mi_current_value = \<lparr>data = [], is_tombstone = False, sequence = 0\<rparr>, mi_valid = False\<rparr>"

section \<open>The heap\<close>

definition HeapCompare :: "'st InternalIterator \<Rightarrow> 'st \<Rightarrow> nat \<Rightarrow> nat \<Rightarrow> bool" where
  "HeapCompare ifc st a b =
     (let akey = iter_key ifc st a; bkey = iter_key ifc st b in
      if akey < bkey then False
      else if bkey < akey then True
      else sequence (iter_value ifc st a) < sequence (iter_value ifc st b))"

definition heap_push :: "nat \<Rightarrow> nat list \<Rightarrow> nat list" where
  "heap_push e h = h @ [e]"

definition heap_top :: "'st InternalIterator \<Rightarrow> 'st \<Rightarrow> nat list \<Rightarrow> nat" where
  "heap_top ifc st h = foldl (\<lambda>best e. if HeapCompare ifc st best e then e else best) (hd h) (tl h)"

definition heap_pop :: "'st InternalIterator \<Rightarrow> 'st \<Rightarrow> nat list \<Rightarrow> nat list" where
  "heap_pop ifc st h = remove1 (heap_top ifc st h) h"

section \<open>Operations\<close>

definition merge_set_error :: "failure \<Rightarrow> MergeIterator \<Rightarrow> MergeIterator" where
  "merge_set_error e m = m\<lparr>mi_error := Some e, mi_valid := False, mi_heap := []\<rparr>"

definition merge_status :: "MergeIterator \<Rightarrow> failure option" where
  "merge_status m = mi_error m"

definition advance_and_repush :: "'st InternalIterator \<Rightarrow> nat \<Rightarrow> MergeIterator \<times> 'st \<Rightarrow> MergeIterator \<times> 'st" where
  "advance_and_repush ifc src mst =
     (let (m, st) = mst; st = iter_next ifc st src in
      if iter_valid ifc st src then (m\<lparr>mi_heap := heap_push src (mi_heap m)\<rparr>, st)
      else (case iter_status ifc st src of
              Some e \<Rightarrow> (merge_set_error e m, st)
            | None \<Rightarrow> (m, st)))"

fun merge_dedup :: "'st InternalIterator \<Rightarrow> nat \<Rightarrow> MergeIterator \<times> 'st \<Rightarrow> MergeIterator \<times> 'st" where
  "merge_dedup ifc 0 (m, st) = (merge_set_error (Abort ''out of fuel'') m, st)"
| "merge_dedup ifc (Suc fuel) (m, st) =
     (if mi_heap m \<noteq> [] \<and> iter_key ifc st (heap_top ifc st (mi_heap m)) = mi_current_key m then
        let top = heap_top ifc st (mi_heap m);
            m = m\<lparr>mi_heap := heap_pop ifc st (mi_heap m)\<rparr>
        in merge_dedup ifc fuel (advance_and_repush ifc top (m, st))
      else (m, st))"

definition advance_to_winner :: "'st InternalIterator \<Rightarrow> nat \<Rightarrow> MergeIterator \<times> 'st \<Rightarrow> MergeIterator \<times> 'st" where
  "advance_to_winner ifc fuel mst =
     (let (m, st) = mst in
      if mi_heap m = [] then (m\<lparr>mi_valid := False\<rparr>, st)
      else
        let heap_entry = heap_top ifc st (mi_heap m);
            m = m\<lparr>mi_valid := True, mi_current_key := iter_key ifc st heap_entry,
                  mi_current_value := iter_value ifc st heap_entry,
                  mi_heap := heap_pop ifc st (mi_heap m)\<rparr>
        in merge_dedup ifc fuel (advance_and_repush ifc heap_entry (m, st)))"

fun seek_sources :: "'st InternalIterator \<Rightarrow> nat list \<Rightarrow> MergeIterator \<times> 'st \<Rightarrow> MergeIterator \<times> 'st" where
  "seek_sources ifc [] (m, st) = (m, st)"
| "seek_sources ifc (source # rest) (m, st) =
     (let st = iter_seek_to_first ifc st source in
      if iter_valid ifc st source
      then seek_sources ifc rest (m\<lparr>mi_heap := heap_push source (mi_heap m)\<rparr>, st)
      else (case iter_status ifc st source of
              Some e \<Rightarrow> (merge_set_error e m, st)
            | None \<Rightarrow> seek_sources ifc rest (m, st)))"

definition merge_seek_to_first :: "'st InternalIterator \<Rightarrow> nat \<Rightarrow> MergeIterator \<times> 'st \<Rightarrow> MergeIterator \<times> 'st" where
  "merge_seek_to_first ifc fuel mst =
     (let (m, st) = mst;
          m = m\<lparr>mi_heap := [], mi_error := None, mi_valid := False,
                mi_current_value := \<lparr>data = [], is_tombstone = False, sequence = 0\<rparr>\<rparr>;
          (m, st) = seek_sources ifc (mi_sources m) (m, st)
      in if mi_error m = None then advance_to_winner ifc fuel (m, st) else (m, st))"

definition merge_next :: "'st InternalIterator \<Rightarrow> nat \<Rightarrow> MergeIterator \<times> 'st \<Rightarrow> MergeIterator \<times> 'st" where
  "merge_next ifc fuel mst = advance_to_winner ifc fuel mst"

section \<open>What a merge yields\<close>

text \<open>
  The merge of a set of entries: one entry per key, in key order, with the highest sequence. In a
  consistent set an entry is determined by its key and sequence, and then the merge is unique.
\<close>

definition merged_of :: "entry set \<Rightarrow> entry list \<Rightarrow> bool" where
  "merged_of E r \<longleftrightarrow> ordered r \<and> fst ` set r = fst ` E
     \<and> (\<forall>(k, v) \<in> set r. (k, v) \<in> E \<and> (\<forall>v'. (k, v') \<in> E \<longrightarrow> sequence v' \<le> sequence v))"

definition consistent :: "entry set \<Rightarrow> bool" where
  "consistent E \<longleftrightarrow> (\<forall>k v v'. (k, v) \<in> E \<longrightarrow> (k, v') \<in> E \<longrightarrow> sequence v = sequence v' \<longrightarrow> v = v')"

lemma consistent_subset: "consistent E \<Longrightarrow> F \<subseteq> E \<Longrightarrow> consistent F"
  unfolding consistent_def by blast

lemma merged_of_empty [simp]: "merged_of {} r \<longleftrightarrow> r = []" "merged_of E [] \<longleftrightarrow> E = {}"
  by (auto simp: merged_of_def)

lemma merged_of_Cons:
  assumes "merged_of E ((k, v) # r)"
  shows "merged_of {e \<in> E. fst e \<noteq> k} r" and "(k, v) \<in> E" and "\<forall>e \<in> E. k \<le> fst e"
    and "\<forall>v'. (k, v') \<in> E \<longrightarrow> sequence v' \<le> sequence v"
proof -
  have ord: "ordered r" "\<forall>e \<in> set r. k < fst e" using assms by (auto simp: merged_of_def)
  have keys: "insert k (fst ` set r) = fst ` E" using assms by (simp add: merged_of_def)
  then have "fst ` {e \<in> E. fst e \<noteq> k} = fst ` set r" using ord(2) by force
  moreover have "\<forall>(k', v') \<in> set r. (k', v') \<in> E \<and> k' \<noteq> k \<and> (\<forall>w. (k', w) \<in> E \<longrightarrow> sequence w \<le> sequence v')"
    using assms ord(2) by (fastforce simp: merged_of_def)
  ultimately show "merged_of {e \<in> E. fst e \<noteq> k} r" using ord(1) by (auto simp: merged_of_def)
  show "(k, v) \<in> E" "\<forall>v'. (k, v') \<in> E \<longrightarrow> sequence v' \<le> sequence v" using assms by (auto simp: merged_of_def)
  show "\<forall>e \<in> E. k \<le> fst e" using keys ord(2) by (fastforce simp: image_iff)
qed

lemma exists_greatest:
  fixes f :: "'a \<Rightarrow> 'b::linorder"
  assumes "finite V" and "V \<noteq> {}"
  shows "\<exists>v \<in> V. \<forall>w \<in> V. f w \<le> f v"
  using assms(1,2)
proof (induction rule: finite_ne_induct)
  case (insert x F)
  then obtain v where "v \<in> F" "\<forall>w \<in> F. f w \<le> f v" by blast
  then show ?case by (cases "f x \<le> f v") (auto intro: bexI [of _ v] bexI [of _ x])
qed simp

lemma merged_of_exists: "finite E \<Longrightarrow> \<exists>r. merged_of E r"
proof (induction "card (fst ` E)" arbitrary: E)
  case 0
  then show ?case by (intro exI [of _ "[]"]) auto
next
  case (Suc n)
  let ?k = "Min (fst ` E)"
  have ne: "fst ` E \<noteq> {}" and fin: "finite (fst ` E)" using Suc.hyps(2) Suc.prems by auto
  have k: "?k \<in> fst ` E" "\<forall>x \<in> fst ` E. ?k \<le> x" using ne fin by auto
  let ?V = "{v. (?k, v) \<in> E}"
  have "finite ?V" using finite_imageI [OF Suc.prems, of snd] by (rule rev_finite_subset) force
  moreover have "?V \<noteq> {}" using k(1) by force
  ultimately obtain v where v: "(?k, v) \<in> E" "\<forall>v'. (?k, v') \<in> E \<longrightarrow> sequence v' \<le> sequence v"
    using exists_greatest [of ?V sequence] by blast
  let ?E = "{e \<in> E. fst e \<noteq> ?k}"
  have "fst ` ?E = fst ` E - {?k}" by force
  then have "card (fst ` ?E) = n" using Suc.hyps(2) k(1) fin by simp
  then obtain r where r: "merged_of ?E r" using Suc.hyps(1) [of ?E] Suc.prems by auto
  then have gt: "\<forall>e \<in> set r. ?k < fst e"
    using k(2) by (fastforce simp: merged_of_def order.strict_iff_order)
  have "merged_of E ((?k, v) # r)"
    unfolding merged_of_def
  proof (intro conjI)
    have "ordered r" using r by (simp add: merged_of_def)
    then show "ordered ((?k, v) # r)" using gt by simp
    show "fst ` set ((?k, v) # r) = fst ` E" using r k(1) \<open>fst ` ?E = fst ` E - {?k}\<close> by (auto simp: merged_of_def)
    show "\<forall>(k, v) \<in> set ((?k, v) # r). (k, v) \<in> E \<and> (\<forall>v'. (k, v') \<in> E \<longrightarrow> sequence v' \<le> sequence v)"
      using r v gt by (fastforce simp: merged_of_def)
  qed
  then show ?case ..
qed

section \<open>The top of the heap\<close>

lemma foldl_best:
  fixes b :: 'a and xs :: "'a list" and R :: "'a \<Rightarrow> 'a \<Rightarrow> bool"
  assumes "\<And>a b c. \<not> R a b \<Longrightarrow> \<not> R b c \<Longrightarrow> \<not> R a c" and "\<And>a b. R a b \<Longrightarrow> \<not> R b a"
  defines "r \<equiv> foldl (\<lambda>best e. if R best e then e else best) b xs"
  shows "r \<in> insert b (set xs) \<and> (\<forall>x \<in> insert b (set xs). \<not> R r x)"
  unfolding r_def
proof (induction xs rule: rev_induct)
  case Nil
  then show ?case using assms(2) by auto
next
  case (snoc x xs)
  let ?r = "foldl (\<lambda>best e. if R best e then e else best) b xs"
  show ?case
  proof (cases "R ?r x")
    case True
    then have "\<not> R x ?r" by (rule assms(2))
    then have "\<forall>y \<in> insert b (set xs). \<not> R x y" using snoc assms(1) [of x ?r] by blast
    moreover have "\<not> R x x" using assms(2) by blast
    ultimately show ?thesis using True by simp
  next
    case False
    with snoc show ?thesis by auto
  qed
qed

lemma HeapCompare_iff:
  "HeapCompare ifc st a b \<longleftrightarrow> iter_key ifc st b < iter_key ifc st a
     \<or> iter_key ifc st a = iter_key ifc st b \<and> sequence (iter_value ifc st a) < sequence (iter_value ifc st b)"
  by (auto simp: HeapCompare_def Let_def)

lemma lex_not_trans:
  fixes k1 k2 k3 :: "'a::linorder" and s1 s2 s3 :: "'b::linorder"
  assumes "\<not> (k2 < k1 \<or> k1 = k2 \<and> s1 < s2)" and "\<not> (k3 < k2 \<or> k2 = k3 \<and> s2 < s3)"
  shows "\<not> (k3 < k1 \<or> k1 = k3 \<and> s1 < s3)"
  using assms by (auto simp: not_less)

lemma heap_top_greatest:
  assumes "h \<noteq> []"
  shows "heap_top ifc st h \<in> set h \<and> (\<forall>x \<in> set h. \<not> HeapCompare ifc st (heap_top ifc st h) x)"
proof -
  have h: "insert (hd h) (set (tl h)) = set h" using assms by (cases h) auto
  have t: "\<not> HeapCompare ifc st a c" if "\<not> HeapCompare ifc st a b" "\<not> HeapCompare ifc st b c" for a b c
    using that lex_not_trans unfolding HeapCompare_iff by blast
  have a: "\<not> HeapCompare ifc st b a" if "HeapCompare ifc st a b" for a b
    using that unfolding HeapCompare_iff by (metis less_asym)
  show ?thesis
    using foldl_best [of "HeapCompare ifc st" "hd h" "tl h", OF t a] unfolding h heap_top_def .
qed

section \<open>Sorted sources\<close>

text \<open>
  What the merge relies on: \<open>ahead st i es\<close> says that source \<open>i\<close> stands before the entries
  \<open>es\<close>, the first of them being its current one, and \<open>source st i es\<close> that seeking it to the first
  entry will put it before \<open>es\<close>; \<open>keeps st st'\<close> is what moving a source leaves of the state.
\<close>

locale sorted_sources =
  fixes ifc :: "'st InternalIterator"
    and ahead :: "'st \<Rightarrow> nat \<Rightarrow> entry list \<Rightarrow> bool"
    and source :: "'st \<Rightarrow> nat \<Rightarrow> entry list \<Rightarrow> bool"
    and keeps :: "'st \<Rightarrow> 'st \<Rightarrow> bool"
  assumes ahead_valid: "ahead st i es \<Longrightarrow> iter_valid ifc st i \<longleftrightarrow> es \<noteq> []"
    and ahead_current: "ahead st i (e # es) \<Longrightarrow> (iter_key ifc st i, iter_value ifc st i) = e"
    and ahead_next: "ahead st i (e # es) \<Longrightarrow> ahead (iter_next ifc st i) i es"
    and ahead_next_other: "ahead st i (e # es) \<Longrightarrow> j \<noteq> i \<Longrightarrow> ahead st j xs \<Longrightarrow> ahead (iter_next ifc st i) j xs"
    and ahead_status: "ahead st i es \<Longrightarrow> iter_status ifc st i = None"
    and ahead_ordered: "ahead st i es \<Longrightarrow> ordered es"
    and seek_ahead: "source st i es \<Longrightarrow> ahead (iter_seek_to_first ifc st i) i es"
    and seek_other: "source st i es \<Longrightarrow> j \<noteq> i \<Longrightarrow> ahead st j xs \<Longrightarrow> ahead (iter_seek_to_first ifc st i) j xs"
    and next_keeps: "ahead st i (e # es) \<Longrightarrow> keeps st (iter_next ifc st i)"
    and seek_keeps: "source st i es \<Longrightarrow> keeps st (iter_seek_to_first ifc st i)"
    and keeps_refl: "keeps st st"
    and keeps_trans: "keeps st st' \<Longrightarrow> keeps st' st'' \<Longrightarrow> keeps st st''"
    and seek_source: "source st i es \<Longrightarrow> j \<noteq> i \<Longrightarrow> source st j xs \<Longrightarrow> source (iter_seek_to_first ifc st i) j xs"
begin

definition heads :: "'st \<Rightarrow> nat list \<Rightarrow> (nat \<Rightarrow> entry list) \<Rightarrow> bool" where
  "heads st h ls \<longleftrightarrow> distinct h \<and> (\<forall>i \<in> set h. ahead st i (ls i) \<and> ls i \<noteq> [])"

definition pending :: "nat list \<Rightarrow> (nat \<Rightarrow> entry list) \<Rightarrow> entry set" where
  "pending h ls = (\<Union>i \<in> set h. set (ls i))"

lemma heads_current:
  assumes "heads st h ls" and "i \<in> set h"
  obtains k v t where "ls i = (k, v) # t" and "iter_key ifc st i = k" and "iter_value ifc st i = v" and "ahead st i ((k, v) # t)"
    and "\<forall>e \<in> set t. k < fst e"
proof -
  from assms have a: "ahead st i (ls i)" "ls i \<noteq> []" by (auto simp: heads_def)
  then obtain k v t where l: "ls i = (k, v) # t" by (cases "ls i") auto
  with a have "ahead st i ((k, v) # t)" by simp
  with ahead_current [OF this] ahead_ordered [OF this] show thesis by (intro that [OF l]) auto
qed

lemma heads_top:
  assumes "heads st h ls" and "h \<noteq> []" and w: "w = heap_top ifc st h"
  shows "w \<in> set h" and "\<forall>e \<in> pending h ls. iter_key ifc st w \<le> fst e"
    and "\<forall>v. (iter_key ifc st w, v) \<in> pending h ls \<longrightarrow> sequence v \<le> sequence (iter_value ifc st w)"
proof -
  note g = heap_top_greatest [OF assms(2), of ifc st, folded w]
  then show "w \<in> set h" by simp
  have le: "iter_key ifc st w \<le> iter_key ifc st i
      \<and> (iter_key ifc st i = iter_key ifc st w \<longrightarrow> sequence (iter_value ifc st i) \<le> sequence (iter_value ifc st w))"
    if "i \<in> set h" for i
    using g that unfolding HeapCompare_iff by (metis not_less)
  show "\<forall>e \<in> pending h ls. iter_key ifc st w \<le> fst e"
  proof
    fix e assume "e \<in> pending h ls"
    then obtain i where i: "i \<in> set h" "e \<in> set (ls i)" by (auto simp: pending_def)
    obtain k v t where "ls i = (k, v) # t" "iter_key ifc st i = k" "iter_value ifc st i = v"
        "ahead st i ((k, v) # t)" "\<forall>e \<in> set t. k < fst e"
      by (rule heads_current [OF assms(1) i(1)])
    with i(2) have "iter_key ifc st i \<le> fst e" by auto
    with le [OF i(1)] show "iter_key ifc st w \<le> fst e" by auto
  qed
  show "\<forall>v. (iter_key ifc st w, v) \<in> pending h ls \<longrightarrow> sequence v \<le> sequence (iter_value ifc st w)"
  proof (intro allI impI)
    fix v assume "(iter_key ifc st w, v) \<in> pending h ls"
    then obtain i where i: "i \<in> set h" "(iter_key ifc st w, v) \<in> set (ls i)" by (auto simp: pending_def)
    obtain k u t where c: "ls i = (k, u) # t" "iter_key ifc st i = k" "iter_value ifc st i = u"
        "ahead st i ((k, u) # t)" "\<forall>e \<in> set t. k < fst e"
      by (rule heads_current [OF assms(1) i(1)])
    then have "iter_key ifc st w = k \<and> v = u" using le [OF i(1)] i(2) by auto
    with le [OF i(1)] c show "sequence v \<le> sequence (iter_value ifc st w)" by simp
  qed
qed

text \<open>Popping a source and advancing it: one head fewer with its key, nothing else is lost.\<close>

definition tied :: "Key \<Rightarrow> nat list \<Rightarrow> (nat \<Rightarrow> entry list) \<Rightarrow> nat set" where
  "tied k h ls = {i \<in> set h. fst (hd (ls i)) = k}"

lemma advance_popped:
  assumes h: "heads st h ls" and i: "i \<in> set h" and k: "iter_key ifc st i = k"
  obtains h' ls' st' where
      "advance_and_repush ifc i (m\<lparr>mi_heap := remove1 i h\<rparr>, st) = (m\<lparr>mi_heap := h'\<rparr>, st')"
    and "heads st' h' ls'" and "set h' \<subseteq> set h" and "keeps st st'"
    and "pending h' ls' \<subseteq> pending h ls"
    and "{e \<in> pending h' ls'. fst e \<noteq> k} = {e \<in> pending h ls. fst e \<noteq> k}"
    and "tied k h' ls' = tied k h ls - {i}"
proof -
  obtain v t where c: "ls i = (k, v) # t" "ahead st i ((k, v) # t)" "\<forall>e \<in> set t. k < fst e"
    by (rule heads_current [OF h i]) (use k in simp)
  let ?st = "iter_next ifc st i" and ?ls = "ls(i := t)" and ?h = "remove1 i h @ (if t = [] then [] else [i])"
  have d: "distinct h" using h by (simp add: heads_def)
  have a: "ahead ?st i t" by (rule ahead_next [OF c(2)])
  have adv: "advance_and_repush ifc i (m\<lparr>mi_heap := remove1 i h\<rparr>, st) = (m\<lparr>mi_heap := ?h\<rparr>, ?st)"
    using ahead_valid [OF a] ahead_status [OF a] by (auto simp: advance_and_repush_def heap_push_def)
  have set_h: "set ?h = set h - (if t = [] then {i} else {})" using d i by auto
  have hd': "heads ?st ?h ?ls"
    using h d a ahead_next_other [OF c(2)] by (auto simp: heads_def)
  have pend: "pending ?h ?ls = set t \<union> (\<Union>j \<in> set h - {i}. set (ls j))"
    using set_h i by (auto simp: pending_def split: if_splits)
  have pend0: "pending h ls = insert (k, v) (set t \<union> (\<Union>j \<in> set h - {i}. set (ls j)))"
    using i c(1) by (auto simp: pending_def)
  have tie: "tied k ?h ?ls = tied k h ls - {i}"
    using set_h c(3) by (auto simp: tied_def split: if_splits)
  show thesis
    by (rule that [OF adv hd' _ next_keeps [OF c(2)] _ _ tie]) (use set_h pend pend0 in \<open>auto split: if_splits\<close>)
qed

lemma merge_dedup_pending:
  assumes "heads st h ls" and "mi_heap m = h" and "mi_current_key m = k"
    and "\<forall>e \<in> pending h ls. k \<le> fst e" and "card (tied k h ls) < fuel"
  shows "\<exists>h' ls' st'. merge_dedup ifc fuel (m, st) = (m\<lparr>mi_heap := h'\<rparr>, st') \<and> heads st' h' ls'
     \<and> set h' \<subseteq> set h \<and> keeps st st' \<and> pending h' ls' = {e \<in> pending h ls. fst e \<noteq> k}"
  using assms
proof (induction fuel arbitrary: st h ls m)
  case (Suc fuel)
  show ?case
  proof (cases "h \<noteq> [] \<and> iter_key ifc st (heap_top ifc st h) = k")
    case True
    let ?w = "heap_top ifc st h"
    have w: "?w \<in> set h" using heads_top [OF Suc.prems(1)] True by blast
    obtain h1 ls1 st1 where adv: "advance_and_repush ifc ?w (m\<lparr>mi_heap := remove1 ?w h\<rparr>, st) = (m\<lparr>mi_heap := h1\<rparr>, st1)"
      and h1: "heads st1 h1 ls1" "set h1 \<subseteq> set h" "keeps st st1" "pending h1 ls1 \<subseteq> pending h ls"
        "{e \<in> pending h1 ls1. fst e \<noteq> k} = {e \<in> pending h ls. fst e \<noteq> k}" "tied k h1 ls1 = tied k h ls - {?w}"
      by (rule advance_popped [OF Suc.prems(1) w conjunct2 [OF True], of m])
    have "hd (ls ?w) = (iter_key ifc st ?w, iter_value ifc st ?w)"
      by (rule heads_current [OF Suc.prems(1) w]) simp
    then have "?w \<in> tied k h ls" using w True by (simp add: tied_def)
    moreover have "finite (tied k h ls)" by (simp add: tied_def)
    ultimately have "card (tied k h1 ls1) < card (tied k h ls)"
      unfolding h1(6) by (intro card_Diff1_less)
    then have "card (tied k h1 ls1) < fuel" using Suc.prems(5) by simp
    moreover have "\<forall>e \<in> pending h1 ls1. k \<le> fst e" using h1(4) Suc.prems(4) by blast
    ultimately obtain h' ls' st' where "merge_dedup ifc fuel (m\<lparr>mi_heap := h1\<rparr>, st1) = (m\<lparr>mi_heap := h1\<rparr>\<lparr>mi_heap := h'\<rparr>, st')"
        "heads st' h' ls'" "set h' \<subseteq> set h1" "keeps st1 st'" "pending h' ls' = {e \<in> pending h1 ls1. fst e \<noteq> k}"
      using Suc.IH [OF h1(1), of "m\<lparr>mi_heap := h1\<rparr>"] Suc.prems(3) by auto
    with True Suc.prems(2,3) adv h1(2,5) keeps_trans [OF h1(3)] show ?thesis
      by (intro exI [of _ h'] exI [of _ ls'] exI [of _ st']) (simp add: heap_pop_def Let_def)
  next
    case False
    have "\<forall>e \<in> pending h ls. fst e \<noteq> k"
    proof (cases "h = []")
      case ne: False
      let ?w = "heap_top ifc st h"
      note top = heads_top [OF Suc.prems(1) ne refl]
      have "(iter_key ifc st ?w, iter_value ifc st ?w) \<in> pending h ls"
        using top(1) by (rule heads_current [OF Suc.prems(1)]) (use top(1) in \<open>force simp: pending_def\<close>)
      then have "k < iter_key ifc st ?w" using Suc.prems(4) False ne by fastforce
      with top(2) show ?thesis by fastforce
    qed (simp add: pending_def)
    then have "pending h ls = {e \<in> pending h ls. fst e \<noteq> k}" by blast
    with False Suc.prems keeps_refl show ?thesis
      by (intro exI [of _ h] exI [of _ ls] exI [of _ st]) auto
  qed
qed simp

text \<open>
  \<open>merge_at m st r\<close>: the merge stands before the entries \<open>r\<close>, the first being its current one.
\<close>

definition merge_at :: "MergeIterator \<Rightarrow> 'st \<Rightarrow> entry list \<Rightarrow> bool" where
  "merge_at m st r \<longleftrightarrow> mi_error m = None \<and> set (mi_heap m) \<subseteq> set (mi_sources m)
     \<and> (mi_valid m \<longleftrightarrow> r \<noteq> []) \<and> (r \<noteq> [] \<longrightarrow> (mi_current_key m, mi_current_value m) = hd r)
     \<and> (\<exists>ls. heads st (mi_heap m) ls \<and> consistent (pending (mi_heap m) ls) \<and> merged_of (pending (mi_heap m) ls) (tl r))"

lemma advance_to_winner_at:
  assumes h: "heads st (mi_heap m) ls" and c: "consistent (pending (mi_heap m) ls)"
    and r: "merged_of (pending (mi_heap m) ls) r" and e: "mi_error m = None"
    and sub: "set (mi_heap m) \<subseteq> set (mi_sources m)" and fuel: "length (mi_sources m) < fuel"
  shows "\<exists>m' st'. advance_to_winner ifc fuel (m, st) = (m', st') \<and> merge_at m' st' r \<and> keeps st st'
     \<and> mi_sources m' = mi_sources m"
proof (cases "mi_heap m = []")
  case True
  with r have "r = []" by (simp add: pending_def)
  with True h e show ?thesis
    by (auto simp: advance_to_winner_def merge_at_def pending_def consistent_def keeps_refl)
next
  case ne: False
  let ?h = "mi_heap m"
  let ?w = "heap_top ifc st ?h"
  let ?m = "m\<lparr>mi_valid := True, mi_current_key := iter_key ifc st ?w, mi_current_value := iter_value ifc st ?w\<rparr>"
  note top = heads_top [OF h ne refl]
  obtain h1 ls1 st1 where adv: "advance_and_repush ifc ?w (?m\<lparr>mi_heap := remove1 ?w ?h\<rparr>, st) = (?m\<lparr>mi_heap := h1\<rparr>, st1)"
    and h1: "heads st1 h1 ls1" "set h1 \<subseteq> set ?h" "keeps st st1" "pending h1 ls1 \<subseteq> pending ?h ls"
      "{e \<in> pending h1 ls1. fst e \<noteq> iter_key ifc st ?w} = {e \<in> pending ?h ls. fst e \<noteq> iter_key ifc st ?w}"
      "tied (iter_key ifc st ?w) h1 ls1 = tied (iter_key ifc st ?w) ?h ls - {?w}"
    by (rule advance_popped [OF h top(1) refl, of ?m])
  have "tied (iter_key ifc st ?w) h1 ls1 \<subseteq> set (mi_sources m)" using h1(6) sub by (auto simp: tied_def)
  then have "card (tied (iter_key ifc st ?w) h1 ls1) < fuel"
    using fuel by (meson card_length card_mono finite_set le_less_trans order_trans)
  moreover have "\<forall>e \<in> pending h1 ls1. iter_key ifc st ?w \<le> fst e" using h1(4) top(2) by blast
  ultimately obtain h2 ls2 st2 where
      ded: "merge_dedup ifc fuel (?m\<lparr>mi_heap := h1\<rparr>, st1) = (?m\<lparr>mi_heap := h1\<rparr>\<lparr>mi_heap := h2\<rparr>, st2)"
    and h2: "heads st2 h2 ls2" "set h2 \<subseteq> set h1" "keeps st1 st2"
      "pending h2 ls2 = {e \<in> pending h1 ls1. fst e \<noteq> iter_key ifc st ?w}"
    using merge_dedup_pending [OF h1(1), of "?m\<lparr>mi_heap := h1\<rparr>" "iter_key ifc st ?w" fuel] by auto
  have cur: "(iter_key ifc st ?w, iter_value ifc st ?w) \<in> pending ?h ls"
    using top(1) by (rule heads_current [OF h]) (use top(1) in \<open>force simp: pending_def\<close>)
  then obtain k0 v0 r0 where r0: "r = (k0, v0) # r0" using r by (cases r) auto
  note mo = merged_of_Cons [OF r [unfolded r0]]
  have k: "iter_key ifc st ?w = k0" using mo(2,3) cur top(2) by fastforce
  have "sequence (iter_value ifc st ?w) = sequence v0" using mo(2,4) cur top(3) k by (metis order_antisym)
  then have v: "iter_value ifc st ?w = v0" using c mo(2) cur k unfolding consistent_def by metis
  have pend: "pending h2 ls2 = {e \<in> pending ?h ls. fst e \<noteq> k0}" using h2(4) h1(5) k by simp
  have "advance_to_winner ifc fuel (m, st) = (?m\<lparr>mi_heap := h2\<rparr>, st2)"
    using ne adv ded by (simp add: advance_to_winner_def Let_def heap_pop_def)
  moreover have "merge_at (?m\<lparr>mi_heap := h2\<rparr>) st2 r"
    using h2(1,2) h1(2) sub e r0 k v mo(1) pend consistent_subset [OF c, of "pending h2 ls2"]
    by (auto simp: merge_at_def)
  ultimately show ?thesis using keeps_trans [OF h1(3) h2(3)] by auto
qed

lemma merge_at_next:
  assumes "merge_at m st (e # r)" and "length (mi_sources m) < fuel"
  shows "\<exists>m' st'. merge_next ifc fuel (m, st) = (m', st') \<and> merge_at m' st' r \<and> keeps st st'
     \<and> mi_sources m' = mi_sources m"
  using assms advance_to_winner_at unfolding merge_at_def merge_next_def by (auto simp: merge_at_def)

lemma merge_at_current:
  assumes "merge_at m st r"
  shows "mi_valid m \<longleftrightarrow> r \<noteq> []" and "r \<noteq> [] \<Longrightarrow> (mi_current_key m, mi_current_value m) = hd r"
    and "merge_status m = None"
  using assms by (auto simp: merge_at_def merge_status_def)

lemma seek_sources_heads:
  assumes "distinct srcs" and "\<forall>i \<in> set srcs. source st i (ls i)" and "heads st (mi_heap m) ls"
    and "set (mi_heap m) \<inter> set srcs = {}"
  shows "\<exists>h st'. seek_sources ifc srcs (m, st) = (m\<lparr>mi_heap := h\<rparr>, st') \<and> heads st' h ls \<and> keeps st st'
     \<and> set h = set (mi_heap m) \<union> {i \<in> set srcs. ls i \<noteq> []}"
  using assms
proof (induction srcs arbitrary: m st)
  case Nil
  then show ?case by (auto simp: keeps_refl intro!: exI [of _ "mi_heap m"])
next
  case (Cons i srcs)
  let ?st = "iter_seek_to_first ifc st i" and ?h = "mi_heap m @ (if ls i = [] then [] else [i])"
  have src: "source st i (ls i)" using Cons.prems(2) by simp
  have a: "ahead ?st i (ls i)" by (rule seek_ahead [OF src])
  have "\<forall>j \<in> set srcs. source ?st j (ls j)" using Cons.prems(1,2) by (auto intro!: seek_source [OF src])
  moreover have "heads ?st ?h ls" using Cons.prems(3,4) a by (auto simp: heads_def intro!: seek_other [OF src])
  moreover have "set ?h \<inter> set srcs = {}" using Cons.prems(1,4) by auto
  ultimately obtain h st' where IH: "seek_sources ifc srcs (m\<lparr>mi_heap := ?h\<rparr>, ?st) = (m\<lparr>mi_heap := ?h\<rparr>\<lparr>mi_heap := h\<rparr>, st')"
      "heads st' h ls" "keeps ?st st'" "set h = set ?h \<union> {i \<in> set srcs. ls i \<noteq> []}"
    using Cons.IH [of ?st "m\<lparr>mi_heap := ?h\<rparr>"] Cons.prems(1) by auto
  have "seek_sources ifc (i # srcs) (m, st) = seek_sources ifc srcs (m\<lparr>mi_heap := ?h\<rparr>, ?st)"
    using ahead_valid [OF a] ahead_status [OF a] by (auto simp: heap_push_def Let_def)
  with IH keeps_trans [OF seek_keeps [OF src] IH(3)] show ?case
    by (intro exI [of _ h] exI [of _ st']) (auto split: if_splits)
qed

lemma merge_seek_at:
  assumes "distinct srcs" and "\<forall>i \<in> set srcs. source st i (ls i)"
    and "consistent (\<Union>i \<in> set srcs. set (ls i))" and "merged_of (\<Union>i \<in> set srcs. set (ls i)) r"
    and "mi_sources m = srcs" and "length srcs < fuel"
  shows "\<exists>m' st'. merge_seek_to_first ifc fuel (m, st) = (m', st') \<and> merge_at m' st' r \<and> keeps st st'
     \<and> mi_sources m' = srcs"
proof -
  let ?m = "m\<lparr>mi_heap := [], mi_error := None, mi_valid := False,
              mi_current_value := \<lparr>data = [], is_tombstone = False, sequence = 0\<rparr>\<rparr>"
  have "heads st (mi_heap ?m) ls" by (simp add: heads_def)
  then obtain h st1 where sk: "seek_sources ifc srcs (?m, st) = (?m\<lparr>mi_heap := h\<rparr>, st1)" "heads st1 h ls" "keeps st st1"
      "set h = {i \<in> set srcs. ls i \<noteq> []}"
    using seek_sources_heads [OF assms(1,2), of ?m] by auto
  have "pending h ls = (\<Union>i \<in> set srcs. set (ls i))" using sk(4) by (auto simp: pending_def)
  then obtain m' st' where "advance_to_winner ifc fuel (?m\<lparr>mi_heap := h\<rparr>, st1) = (m', st')" "merge_at m' st' r" "keeps st1 st'"
      "mi_sources m' = srcs"
    using advance_to_winner_at [of st1 "?m\<lparr>mi_heap := h\<rparr>" ls r fuel] sk(2,4) assms(3-6) by auto
  with sk assms(5) keeps_trans [OF sk(3)] show ?thesis
    by (auto simp: merge_seek_to_first_def Let_def)
qed

lemma merge_at_steps:
  assumes "merge_at m st r" and "length (mi_sources m) < fuel" and "n \<le> length r"
  shows "\<exists>m' st'. (merge_next ifc fuel ^^ n) (m, st) = (m', st') \<and> merge_at m' st' (drop n r) \<and> keeps st st'
     \<and> mi_sources m' = mi_sources m"
  using assms(3)
proof (induction n)
  case 0
  then show ?case using assms(1) by (simp add: keeps_refl)
next
  case (Suc n)
  then obtain m1 st1 where IH: "(merge_next ifc fuel ^^ n) (m, st) = (m1, st1)" "merge_at m1 st1 (drop n r)" "keeps st st1"
      "mi_sources m1 = mi_sources m"
    by auto
  have "drop n r = r ! n # drop (Suc n) r" using Suc.prems by (simp add: Cons_nth_drop_Suc)
  with IH merge_at_next [of m1 st1 "r ! n" "drop (Suc n) r" fuel] assms(2) show ?case
    by (auto intro: keeps_trans [OF IH(3)])
qed

lemma merge_at_transfer:
  assumes "merge_at m st r" and "\<And>i es. ahead st i es \<Longrightarrow> ahead st' i es"
  shows "merge_at m st' r"
  using assms unfolding merge_at_def heads_def by blast

end

end
