(* ===== verification/Sstable_Iterator.thy ===== *)
theory Sstable_Iterator
  imports Sstable_Reader Merge_Iterator
begin

text \<open>
  sstable_iterator.cpp: the scan of a table, block by block, as a source of the merge. The vector
  index of the current block is checked by nothing in the code; reading past the index entries is
  an \<open>Abort\<close>.
\<close>

record SSTableIterator =
  it_reader :: SSTableReader
  it_error :: "failure option"
  it_block_idx :: nat
  it_buffer :: bytes
  it_offset :: nat
  it_current_key :: Key
  it_current_value :: InternalValue
  it_valid :: bool

definition SSTableIterator_create :: "SSTableReader \<Rightarrow> SSTableIterator" where
  "SSTableIterator_create reader =
     \<lparr>it_reader = reader, it_error = None, it_block_idx = 0, it_buffer = [], it_offset = 0,
      it_current_key = Key [], it_current_value = \<lparr>data = [], is_tombstone = False, sequence = 0\<rparr>,
      it_valid = False\<rparr>"

definition it_status :: "SSTableIterator \<Rightarrow> failure option" where
  "it_status it = it_error it"

definition it_set_error :: "failure \<Rightarrow> SSTableIterator \<Rightarrow> SSTableIterator" where
  "it_set_error e it = it\<lparr>it_error := Some e, it_valid := False\<rparr>"

definition resize :: "nat \<Rightarrow> bytes \<Rightarrow> bytes" where
  "resize n b = take n b @ replicate (n - length b) 0"

definition load_block :: "fs \<Rightarrow> SSTableIterator \<Rightarrow> bool \<times> fs \<times> SSTableIterator" where
  "load_block s it =
     (let entry = sr_index_entries (it_reader it) ! it_block_idx it;
          it = it\<lparr>it_buffer := resize (block_size entry) (it_buffer it), it_offset := 0\<rparr>
      in case posix_read s (sr_fh (it_reader it)) (block_size entry) (it_buffer it) (block_offset entry) of
           (Inl e, s) \<Rightarrow> (False, s, it_set_error e it)
         | (Inr (_, b), s) \<Rightarrow> (True, s, it\<lparr>it_buffer := b\<rparr>))"

text \<open>The second half of \<open>next()\<close>: decoding the entry at the offset, field by field.\<close>

definition it_decode_entry :: "SSTableIterator \<Rightarrow> SSTableIterator" where
  "it_decode_entry it =
     (if it_buffer it = [] then it\<lparr>it_valid := False\<rparr>
      else
        let b = it_buffer it; off = it_offset it;
            bsize = block_size (sr_index_entries (it_reader it) ! it_block_idx it)
        in
        if off + 4 > bsize then it_set_error (Err \<lparr>code = BAD_FILE, message = ''out of range read for key length''\<rparr>) it
        else
          let key_len = unat (decode_uint32 b off); koff = off + 4; it = it\<lparr>it_offset := koff\<rparr> in
          if koff + key_len > bsize then it_set_error (Err \<lparr>code = BAD_FILE, message = ''out of range read for key''\<rparr>) it
          else
            let vloff = koff + key_len;
                it = it\<lparr>it_current_key := Key (take key_len (drop koff b)), it_offset := vloff\<rparr> in
            if vloff + 4 > bsize then it_set_error (Err \<lparr>code = BAD_FILE, message = ''out of range read for value length''\<rparr>) it
            else
              let v_len = unat (decode_uint32 b vloff); voff = vloff + 4; it = it\<lparr>it_offset := voff\<rparr> in
              if voff + v_len > bsize then it_set_error (Err \<lparr>code = BAD_FILE, message = ''out of range read for value''\<rparr>) it
              else
                let toff = voff + v_len;
                    it = it\<lparr>it_current_value := (it_current_value it)\<lparr>data := take v_len (drop voff b)\<rparr>, it_offset := toff\<rparr> in
                if toff + 1 > bsize then it_set_error (Err \<lparr>code = BAD_FILE, message = ''out of range read for tombstone''\<rparr>) it
                else
                  let it = it\<lparr>it_current_value := (it_current_value it)\<lparr>is_tombstone := (decode_uint8 b toff \<noteq> 0)\<rparr>,
                              it_offset := toff + 1\<rparr> in
                  if toff + 1 + 8 > bsize then it_set_error (Err \<lparr>code = BAD_FILE, message = ''out of range read for sequence''\<rparr>) it
                  else it\<lparr>it_current_value := (it_current_value it)\<lparr>sequence := decode_uint64 b (toff + 1)\<rparr>,
                          it_offset := toff + 1 + 8, it_valid := True\<rparr>)"

definition it_next :: "fs \<Rightarrow> SSTableIterator \<Rightarrow> fs \<times> SSTableIterator" where
  "it_next s it =
     (let entries = sr_index_entries (it_reader it) in
      if it_error it \<noteq> None then (s, it)
      else if it_buffer it \<noteq> [] \<and> it_block_idx it \<ge> length entries
      then (s, it_set_error (Abort ''index entry out of range'') it)
      else if it_buffer it \<noteq> [] \<and> it_offset it \<ge> block_size (entries ! it_block_idx it) then
        let it = it\<lparr>it_block_idx := it_block_idx it + 1\<rparr> in
        if it_block_idx it \<ge> length entries then (s, it\<lparr>it_valid := False\<rparr>)
        else (case load_block s it of
                (True, s, it) \<Rightarrow> (s, it_decode_entry it)
              | (False, s, it) \<Rightarrow> (s, it))
      else (s, it_decode_entry it))"

definition it_seek_to_first :: "fs \<Rightarrow> SSTableIterator \<Rightarrow> fs \<times> SSTableIterator" where
  "it_seek_to_first s it =
     (let it = it\<lparr>it_block_idx := 0, it_buffer := [], it_offset := 0, it_error := None, it_valid := False\<rparr> in
      if sr_index_entries (it_reader it) = [] then (s, it)
      else (case load_block s it of
              (True, s, it) \<Rightarrow> it_next s it
            | (False, s, it) \<Rightarrow> (s, it)))"

text \<open>The virtual interface, on a state that holds the file system and all the iterators.\<close>

definition on_source ::
  "(fs \<Rightarrow> SSTableIterator \<Rightarrow> fs \<times> SSTableIterator) \<Rightarrow> fs \<times> SSTableIterator list \<Rightarrow> nat \<Rightarrow> fs \<times> SSTableIterator list" where
  "on_source f st i = (let (s, its) = st; (s, it) = f s (its ! i) in (s, its[i := it]))"

definition SSTableIterator_interface :: "(fs \<times> SSTableIterator list) InternalIterator" where
  "SSTableIterator_interface =
     \<lparr>iter_valid = (\<lambda>(s, its) i. it_valid (its ! i)),
      iter_seek_to_first = on_source it_seek_to_first,
      iter_next = on_source it_next,
      iter_key = (\<lambda>(s, its) i. it_current_key (its ! i)),
      iter_value = (\<lambda>(s, its) i. it_current_value (its ! i)),
      iter_status = (\<lambda>(s, its) i. it_status (its ! i))\<rparr>"

section \<open>Scanning a table\<close>

definition blocks_filled :: "entry list \<Rightarrow> bool" where
  "blocks_filled es \<longleftrightarrow> (\<forall>b \<in> set (sst_blocks es). b \<noteq> [])"

lemma pack_blocks_filled:
  "fold pack_entry es ([], []) = (blocks, cur) \<Longrightarrow> es \<noteq> [] \<Longrightarrow> length (entry_image (hd es)) \<le> MAX_PAGING_SIZE_BYTES \<Longrightarrow>
   (\<forall>b \<in> set blocks. b \<noteq> []) \<and> cur \<noteq> []"
proof (induction es arbitrary: blocks cur rule: rev_induct)
  case (snoc e es)
  obtain bs c where p: "fold pack_entry es ([], []) = (bs, c)" by (cases "fold pack_entry es ([], [])")
  with snoc.IH [of bs c] snoc.prems show ?case by (cases "es = []") (auto split: if_splits)
qed simp

lemma blocks_filledI:
  assumes "es \<noteq> [] \<Longrightarrow> length (entry_image (hd es)) \<le> MAX_PAGING_SIZE_BYTES"
  shows "blocks_filled es"
proof -
  obtain bs c where p: "fold pack_entry es ([], []) = (bs, c)" by (cases "fold pack_entry es ([], [])")
  from pack_blocks_filled [OF p] assms p show ?thesis
    by (cases "es = []") (auto simp: blocks_filled_def sst_blocks_def)
qed

text \<open>The iterator has consumed the entries of table \<open>tbl\<close> up to \<open>rest\<close>.\<close>

definition it_before :: "SSTableIterator \<Rightarrow> entry list \<Rightarrow> entry list \<Rightarrow> bool" where
  "it_before it tbl rest \<longleftrightarrow> it_error it = None \<and> (\<exists>xs b1 b2 ys. sst_blocks tbl = xs @ (b1 @ b2) # ys \<and> b1 @ b2 \<noteq> []
     \<and> it_block_idx it = length xs \<and> it_buffer it = block_image (b1 @ b2) \<and> it_offset it = length (block_image b1)
     \<and> rest = b2 @ concat ys)"

lemma it_decode_entry_step:
  assumes "it_buffer it = pre @ entry_image (k, v) @ post" and "it_offset it = length pre"
    and "block_size (sr_index_entries (it_reader it) ! it_block_idx it) = length (it_buffer it)"
    and "length (entry_image (k, v)) < 2 ^ 32"
  shows "it_decode_entry it = it\<lparr>it_current_key := k, it_current_value := v,
     it_offset := length pre + length (entry_image (k, v)), it_valid := True\<rparr>"
proof -
  let ?b = "pre @ entry_image (k, v) @ post"
  let ?p = "length pre" and ?n = "length (pre @ entry_image (k, v) @ post)"
  note f = entry_fields [where pre = pre and k = k and v = v and rest = post]
    and u = entry_lengths [OF assms(4)]
  have n: "?p + 4 + key_size k + 4 + length (data v) + 9 \<le> ?n" by (simp add: length_entry_image)
  have c: "(?p + 4 > ?n) = False" "(?p + 4 + key_size k > ?n) = False" "(?p + 4 + key_size k + 4 > ?n) = False"
      "(?p + 4 + key_size k + 4 + length (data v) > ?n) = False"
      "(?p + 4 + key_size k + 4 + length (data v) + 1 > ?n) = False"
      "(?p + 4 + key_size k + 4 + length (data v) + 1 + 8 > ?n) = False"
    using n by simp_all
  have e: "?p + length (entry_image (k, v)) = ?p + 4 + key_size k + 4 + length (data v) + 1 + 8"
    by (simp add: length_entry_image)
  have ne: "(?b = []) = False" by (simp add: entry_image_def)
  have v: "x\<lparr>data := data v\<rparr>\<lparr>is_tombstone := (of_bool (is_tombstone v) \<noteq> (0 :: u8))\<rparr>\<lparr>sequence := sequence v\<rparr> = v" for x
    by (cases v) simp
  have "it_decode_entry it = it\<lparr>it_offset := ?p + 4\<rparr>\<lparr>it_current_key := k, it_offset := ?p + 4 + key_size k\<rparr>
     \<lparr>it_offset := ?p + 4 + key_size k + 4\<rparr>\<lparr>it_current_value := v, it_offset := ?p + length (entry_image (k, v)), it_valid := True\<rparr>"
    unfolding it_decode_entry_def e assms(1,2) assms(3) [unfolded assms(1)] Let_def
    by (simp only: f u c ne if_False Key.collapse, simp add: v)
  then show ?thesis by simp
qed

lemma length_resize [simp]: "length (resize n b) = n"
  by (simp add: resize_def)

lemma reader_block:
  assumes "reader_on s rd tbl" and "sst_blocks tbl = xs @ b # ys"
  shows "sr_index_entries rd ! length xs
       = \<lparr>first_key = block_first_key b, block_offset = length (block_image (concat xs)), block_size = length (block_image b)\<rparr>"
    and "length (sr_index_entries rd) = length xs + 1 + length ys"
    and "e \<in> set b \<Longrightarrow> length (entry_image e) < 2 ^ 32"
proof -
  show "sr_index_entries rd ! length xs
       = \<lparr>first_key = block_first_key b, block_offset = length (block_image (concat xs)), block_size = length (block_image b)\<rparr>"
    and "length (sr_index_entries rd) = length xs + 1 + length ys"
    using assms by (simp_all add: reader_on_def nth_index_of)
  assume "e \<in> set b"
  then have "e \<in> set tbl" using concat_sst_blocks [of tbl] assms(2) by auto
  with assms(1) entry_image_le [of e tbl] sst_image_le [of tbl "sr_bloom rd"] show "length (entry_image e) < 2 ^ 32"
    by (auto simp: reader_on_def table_ok_def)
qed

lemma load_block_reader:
  assumes "reader_on s (it_reader it) tbl" and "sst_blocks tbl = xs @ b # ys" and "it_block_idx it = length xs"
    and "answers s = []"
  shows "load_block s it = (True, s, it\<lparr>it_buffer := block_image b, it_offset := 0\<rparr>)"
proof -
  obtain rest where img: "sst_image tbl (sr_bloom (it_reader it)) = block_image (concat xs) @ block_image b @ rest"
    using sst_image_split [OF assms(2)] by blast
  have "posix_read s (sr_fh (it_reader it)) (length (block_image b)) (resize (length (block_image b)) (it_buffer it))
      (length (block_image (concat xs))) = (ok (length (block_image b), block_image b), s)"
    using assms(1) posix_read_ok [OF assms(4), of "sr_fh (it_reader it)" "sst_image tbl (sr_bloom (it_reader it))"
        "length (block_image b)" "resize (length (block_image b)) (it_buffer it)" "length (block_image (concat xs))"]
    by (simp add: reader_on_def img overwrite_all)
  then show ?thesis
    by (simp add: load_block_def assms(3) reader_block(1) [OF assms(1,2)] Let_def ok_def)
qed

text \<open>What \<open>it_next\<close> leaves: the first of the remaining entries is the current one.\<close>

definition it_at :: "SSTableIterator \<Rightarrow> entry list \<Rightarrow> entry list \<Rightarrow> bool" where
  "it_at it tbl es \<longleftrightarrow> it_error it = None \<and> (it_valid it \<longleftrightarrow> es \<noteq> [])
     \<and> (es \<noteq> [] \<longrightarrow> (it_current_key it, it_current_value it) = hd es \<and> it_before it tbl (tl es))"

lemma it_decode_entry_at:
  assumes "reader_on s (it_reader it) tbl" and "sst_blocks tbl = xs @ (b1 @ (k, v) # b2) # ys" and "it_error it = None"
    and "it_block_idx it = length xs" and "it_buffer it = block_image (b1 @ (k, v) # b2)"
    and "it_offset it = length (block_image b1)"
  shows "it_at (it_decode_entry it) tbl ((k, v) # b2 @ concat ys) \<and> it_reader (it_decode_entry it) = it_reader it"
proof -
  note blk = reader_block [OF assms(1,2)]
  have dec: "it_decode_entry it = it\<lparr>it_current_key := k, it_current_value := v,
     it_offset := length (block_image b1) + length (entry_image (k, v)), it_valid := True\<rparr>"
    by (rule it_decode_entry_step [of it "block_image b1" k v "block_image b2"])
      (use assms(4-6) blk(1) blk(3) [of "(k, v)"] in simp_all)
  have "it_before (it_decode_entry it) tbl (b2 @ concat ys)"
    unfolding it_before_def
    by (rule conjI, simp add: dec assms(3),
        rule exI [of _ xs], rule exI [of _ "b1 @ [(k, v)]"], rule exI [of _ b2], rule exI [of _ ys])
      (simp add: dec assms)
  then show ?thesis by (simp add: it_at_def dec assms(3))
qed

lemma it_next_at:
  assumes "it_before it tbl rest" and "reader_on s (it_reader it) tbl" and "blocks_filled tbl" and "answers s = []"
  shows "\<exists>it'. it_next s it = (s, it') \<and> it_at it' tbl rest \<and> it_reader it' = it_reader it"
proof -
  obtain xs b1 b2 ys where b: "it_error it = None" "sst_blocks tbl = xs @ (b1 @ b2) # ys" "b1 @ b2 \<noteq> []"
      "it_block_idx it = length xs" "it_buffer it = block_image (b1 @ b2)" "it_offset it = length (block_image b1)"
      "rest = b2 @ concat ys"
    using assms(1) unfolding it_before_def by blast
  note blk = reader_block [OF assms(2) b(2)]
  have bsize: "block_size (sr_index_entries (it_reader it) ! it_block_idx it) = length (block_image (b1 @ b2))"
    using blk(1) b(4) by simp
  have ne: "it_buffer it \<noteq> []" using b(3,5) by simp
  show ?thesis
  proof (cases b2)
    case (Cons e b2')
    obtain k v where e: "e = (k, v)" by (cases e)
    have "\<not> it_offset it \<ge> length (block_image (b1 @ b2))"
      using b(6) Cons length_entry_image [of e] by simp
    then have "it_next s it = (s, it_decode_entry it)"
      using b(1,4) ne bsize blk(2) by (simp add: it_next_def Let_def)
    with it_decode_entry_at [of s it tbl xs b1 k v b2' ys] assms(2) b Cons e show ?thesis by auto
  next
    case Nil
    let ?it = "it\<lparr>it_block_idx := length xs + 1\<rparr>"
    have "it_offset it \<ge> length (block_image (b1 @ b2))" using b(6) Nil by simp
    then have step: "it_next s it =
       (if length xs + 1 \<ge> length (sr_index_entries (it_reader it)) then (s, ?it\<lparr>it_valid := False\<rparr>)
        else (case load_block s ?it of (True, s, it) \<Rightarrow> (s, it_decode_entry it) | (False, s, it) \<Rightarrow> (s, it)))"
      using b(1,4) ne bsize blk(2) by (simp add: it_next_def Let_def)
    show ?thesis
    proof (cases ys)
      case Nil
      with step blk(2) b(1,7) \<open>b2 = []\<close> show ?thesis by (simp add: it_at_def)
    next
      case (Cons c cs)
      have "c \<noteq> []" using assms(3) b(2) Cons by (auto simp: blocks_filled_def)
      then obtain k v c' where c: "c = (k, v) # c'" by (cases c) auto
      have sp: "sst_blocks tbl = (xs @ [b1 @ b2]) @ c # cs" using b(2) Cons by simp
      have load: "load_block s ?it = (True, s, ?it\<lparr>it_buffer := block_image c, it_offset := 0\<rparr>)"
        by (rule load_block_reader [OF _ sp _ assms(4)]) (use assms(2) in simp_all)
      let ?it2 = "?it\<lparr>it_buffer := block_image c, it_offset := 0\<rparr>"
      have "it_at (it_decode_entry ?it2) tbl ((k, v) # c' @ concat cs) \<and> it_reader (it_decode_entry ?it2) = it_reader ?it2"
        by (rule it_decode_entry_at [of s ?it2 tbl "xs @ [b1 @ b2]" "[]"]) (use assms(2) sp c b(1) in simp_all)
      with step load blk(2) Cons b(7) \<open>b2 = []\<close> c show ?thesis by simp
    qed
  qed
qed

lemma it_seek_at:
  assumes "reader_on s (it_reader it) tbl" and "blocks_filled tbl" and "answers s = []"
  shows "\<exists>it'. it_seek_to_first s it = (s, it') \<and> it_at it' tbl tbl \<and> it_reader it' = it_reader it"
proof (cases "sst_blocks tbl")
  case Nil
  then have "tbl = []" using concat_sst_blocks [of tbl] by simp
  with Nil assms(1) show ?thesis by (simp add: it_seek_to_first_def reader_on_def it_at_def)
next
  case (Cons b bs)
  let ?it = "it\<lparr>it_block_idx := 0, it_buffer := [], it_offset := 0, it_error := None, it_valid := False\<rparr>"
  let ?it2 = "?it\<lparr>it_buffer := block_image b, it_offset := 0\<rparr>"
  have load: "load_block s ?it = (True, s, ?it2)"
    by (rule load_block_reader [of s ?it tbl "[]" b bs]) (use assms Cons in simp_all)
  have ne: "sr_index_entries (it_reader it) \<noteq> []" using assms(1) Cons by (auto simp: reader_on_def)
  have "b \<noteq> []" using assms(2) Cons by (simp add: blocks_filled_def)
  moreover have "sst_blocks tbl = [] @ ([] @ b) # bs" "tbl = b @ concat bs" using concat_sst_blocks [of tbl] Cons by simp_all
  ultimately have "it_before ?it2 tbl tbl"
    unfolding it_before_def
    by (rule_tac conjI, simp, rule_tac x = "[]" in exI, rule_tac x = "[]" in exI, rule_tac x = b in exI, rule_tac x = bs in exI)
      auto
  from it_next_at [OF this _ assms(2,3)] assms(1) load ne show ?thesis
    by (simp add: it_seek_to_first_def)
qed

section \<open>The sources of a merge\<close>

definition sst_ahead :: "fs \<times> SSTableIterator list \<Rightarrow> nat \<Rightarrow> entry list \<Rightarrow> bool" where
  "sst_ahead st i es \<longleftrightarrow> (case st of (s, its) \<Rightarrow> i < length its \<and> answers s = [] \<and> ordered es
     \<and> (\<exists>tbl. reader_on s (it_reader (its ! i)) tbl \<and> blocks_filled tbl \<and> it_at (its ! i) tbl es))"

definition sst_source :: "fs \<times> SSTableIterator list \<Rightarrow> nat \<Rightarrow> entry list \<Rightarrow> bool" where
  "sst_source st i es \<longleftrightarrow> (case st of (s, its) \<Rightarrow> i < length its \<and> answers s = []
     \<and> reader_on s (it_reader (its ! i)) es \<and> blocks_filled es)"

definition sst_keeps :: "fs \<times> SSTableIterator list \<Rightarrow> fs \<times> SSTableIterator list \<Rightarrow> bool" where
  "sst_keeps st st' \<longleftrightarrow> fst st' = fst st \<and> map it_reader (snd st') = map it_reader (snd st)"

lemma on_source_eq: "f s (its ! i) = (s, it') \<Longrightarrow> on_source f (s, its) i = (s, its[i := it'])"
  by (simp add: on_source_def)

lemma sst_next_ahead:
  assumes "sst_ahead st i (e # es)"
  obtains s its it' where "st = (s, its)" and "i < length its" and "on_source it_next st i = (s, its[i := it'])"
    and "it_reader it' = it_reader (its ! i)" and "sst_ahead (s, its[i := it']) i es"
proof -
  obtain s its tbl where st: "st = (s, its)" "i < length its" "answers s = []" "ordered (e # es)"
      "reader_on s (it_reader (its ! i)) tbl" "blocks_filled tbl" "it_at (its ! i) tbl (e # es)"
    using assms by (auto simp: sst_ahead_def split: prod.splits)
  then have "it_before (its ! i) tbl es" by (simp add: it_at_def)
  from it_next_at [OF this st(5,6,3)] obtain it' where n: "it_next s (its ! i) = (s, it')" "it_at it' tbl es"
      "it_reader it' = it_reader (its ! i)" by blast
  show thesis
    by (rule that [OF st(1,2), of it']) (use st n on_source_eq [of it_next, OF n(1)] in \<open>auto simp: sst_ahead_def\<close>)
qed

lemma sst_seek_source:
  assumes "sst_source st i es"
  obtains s its it' where "st = (s, its)" and "i < length its" and "on_source it_seek_to_first st i = (s, its[i := it'])"
    and "it_reader it' = it_reader (its ! i)" and "sst_ahead (s, its[i := it']) i es"
proof -
  obtain s its where st: "st = (s, its)" "i < length its" "answers s = []"
      "reader_on s (it_reader (its ! i)) es" "blocks_filled es"
    using assms by (auto simp: sst_source_def split: prod.splits)
  from it_seek_at [OF st(4,5,3)] obtain it' where n: "it_seek_to_first s (its ! i) = (s, it')" "it_at it' es es"
      "it_reader it' = it_reader (its ! i)" by blast
  have "ordered es" using st(4) by (simp add: reader_on_def table_ok_def)
  with st n on_source_eq [of it_seek_to_first, OF n(1)] show thesis
    by (intro that [OF st(1,2), of it']) (auto simp: sst_ahead_def)
qed

lemma sst_ahead_frame:
  "j \<noteq> i \<Longrightarrow> sst_ahead (s, its) j xs \<Longrightarrow> sst_ahead (s, its[i := it]) j xs"
  "j \<noteq> i \<Longrightarrow> sst_source (s, its) j xs \<Longrightarrow> sst_source (s, its[i := it]) j xs"
  by (auto simp: sst_ahead_def sst_source_def)

lemma sst_keeps_update:
  "it_reader it = it_reader (its ! i) \<Longrightarrow> i < length its \<Longrightarrow> sst_keeps (s, its) (s, its[i := it])"
  by (simp add: sst_keeps_def map_update list_update_same_conv)

lemma SSTableIterator_interface_simps [simp]:
  "iter_valid SSTableIterator_interface (s, its) i = it_valid (its ! i)"
  "iter_seek_to_first SSTableIterator_interface = on_source it_seek_to_first"
  "iter_next SSTableIterator_interface = on_source it_next"
  "iter_key SSTableIterator_interface (s, its) i = it_current_key (its ! i)"
  "iter_value SSTableIterator_interface (s, its) i = it_current_value (its ! i)"
  "iter_status SSTableIterator_interface (s, its) i = it_status (its ! i)"
  by (simp_all add: SSTableIterator_interface_def)

interpretation sst: sorted_sources SSTableIterator_interface sst_ahead sst_source sst_keeps
proof unfold_locales
  fix st i es e j xs
  show "iter_valid SSTableIterator_interface st i \<longleftrightarrow> es \<noteq> []" "iter_status SSTableIterator_interface st i = None" "ordered es"
    if "sst_ahead st i es"
    using that by (auto simp: sst_ahead_def it_at_def it_status_def split: prod.splits)
  show "(iter_key SSTableIterator_interface st i, iter_value SSTableIterator_interface st i) = e" if "sst_ahead st i (e # es)"
    using that by (auto simp: sst_ahead_def it_at_def split: prod.splits)
  show "sst_ahead (iter_next SSTableIterator_interface st i) i es" if "sst_ahead st i (e # es)"
    by (rule sst_next_ahead [OF that]) simp
  show "sst_ahead (iter_next SSTableIterator_interface st i) j xs"
    if "sst_ahead st i (e # es)" "j \<noteq> i" "sst_ahead st j xs"
    by (rule sst_next_ahead [OF that(1)]) (use that(2,3) in \<open>simp add: sst_ahead_frame\<close>)
  show "sst_keeps st (iter_next SSTableIterator_interface st i)" if "sst_ahead st i (e # es)"
    by (rule sst_next_ahead [OF that]) (simp add: sst_keeps_update)
  show "sst_ahead (iter_seek_to_first SSTableIterator_interface st i) i es" "sst_keeps st (iter_seek_to_first SSTableIterator_interface st i)"
    if "sst_source st i es"
    by (rule sst_seek_source [OF that]; simp add: sst_keeps_update)+
  show "sst_ahead (iter_seek_to_first SSTableIterator_interface st i) j xs"
    if "sst_source st i es" "j \<noteq> i" "sst_ahead st j xs"
    by (rule sst_seek_source [OF that(1)]) (use that(2,3) in \<open>simp add: sst_ahead_frame\<close>)
  show "sst_source (iter_seek_to_first SSTableIterator_interface st i) j xs"
    if "sst_source st i es" "j \<noteq> i" "sst_source st j xs"
    by (rule sst_seek_source [OF that(1)]) (use that(2,3) in \<open>simp add: sst_ahead_frame\<close>)
qed (auto simp: sst_keeps_def)

lemma sst_ahead_transfer:
  assumes "sst_ahead (s, its) i es" and "answers t = []"
    and "\<And>rd tbl. rd \<in> it_reader ` set its \<Longrightarrow> reader_on s rd tbl \<Longrightarrow> reader_on t rd tbl"
  shows "sst_ahead (t, its) i es"
proof -
  from assms(1) obtain tbl where "i < length its" "ordered es" "reader_on s (it_reader (its ! i)) tbl"
      "blocks_filled tbl" "it_at (its ! i) tbl es"
    by (auto simp: sst_ahead_def)
  with assms(2) assms(3) [of "it_reader (its ! i)" tbl] show ?thesis by (auto simp: sst_ahead_def)
qed

lemma sst_merge_start:
  assumes "answers s = []" and "length tbls = length its" and "consistent (set (concat tbls))"
    and "\<And>i. i < length its \<Longrightarrow> reader_on s (it_reader (its ! i)) (tbls ! i) \<and> blocks_filled (tbls ! i)"
    and "merged_of (set (concat tbls)) r" and "length its < fuel"
  shows "\<exists>m its'. merge_seek_to_first SSTableIterator_interface fuel (MergeIterator_create [0..<length its], (s, its)) = (m, (s, its'))
     \<and> sst.merge_at m (s, its') r \<and> map it_reader its' = map it_reader its \<and> mi_sources m = [0..<length its]"
proof -
  let ?srcs = "[0..<length its]"
  have "\<forall>i \<in> set ?srcs. sst_source (s, its) i (tbls ! i)" using assms(1,4) by (auto simp: sst_source_def)
  moreover have "(\<Union>i \<in> set ?srcs. set (tbls ! i)) = set (concat tbls)"
    unfolding assms(2) [symmetric] set_concat by (simp add: set_conv_nth [of tbls] atLeast0LessThan) blast
  ultimately show ?thesis
    using sst.merge_seek_at [of ?srcs "(s, its)" "\<lambda>i. tbls ! i" r "MergeIterator_create ?srcs" fuel] assms(3,5,6)
    by (auto simp: MergeIterator_create_def sst_keeps_def)
qed

lemma pack_entry_grows: "\<exists>xs. fst (fold pack_entry es (bs, c)) = bs @ xs"
proof (induction es arbitrary: bs c)
  case (Cons e es)
  show ?case using Cons.IH [of "bs @ [c]" "[e]"] Cons.IH [of bs "c @ [e]"] by auto
qed simp

lemma sst_blocks_oversized:
  assumes "es \<noteq> []" and "length (entry_image (hd es)) > MAX_PAGING_SIZE_BYTES"
  shows "\<exists>bs. sst_blocks es = [] # bs"
proof -
  obtain e es' where "es = e # es'" using assms(1) by (cases es) auto
  with assms(2) pack_entry_grows [of es' "[[]]" "[e]"] show ?thesis
    by (auto simp: sst_blocks_def split: prod.splits)
qed

section \<open>Properties\<close>

text \<open>
  C8. Without faults, a merge over any number of open tables (whose first entries fit a block,
  and whose entries with the same key and sequence number are equal) walks through the merged
  sequence of their entries: one entry per key, in increasing key order, with the highest
  sequence number; it stops exactly at the end, with no error and no file changed.
\<close>

theorem sst_merge_yields:
  assumes "answers s = []" and "length tbls = length its" and "consistent (set (concat tbls))"
    and "\<And>i. i < length its \<Longrightarrow> reader_on s (it_reader (its ! i)) (tbls ! i)
           \<and> (tbls ! i \<noteq> [] \<longrightarrow> length (entry_image (hd (tbls ! i))) \<le> MAX_PAGING_SIZE_BYTES)"
    and "merged_of (set (concat tbls)) r" and "n \<le> length r"
  shows "case (merge_next SSTableIterator_interface (length its + 1) ^^ n)
      (merge_seek_to_first SSTableIterator_interface (length its + 1) (MergeIterator_create [0..<length its], (s, its))) of
    (m, (t, its')) \<Rightarrow> t = s \<and> merge_status m = None \<and> (mi_valid m \<longleftrightarrow> n < length r)
      \<and> (n < length r \<longrightarrow> (mi_current_key m, mi_current_value m) = r ! n)"
proof -
  let ?F = "length its + 1"
  from assms(4) have "reader_on s (it_reader (its ! i)) (tbls ! i) \<and> blocks_filled (tbls ! i)" if "i < length its" for i
    using that by (blast intro: blocks_filledI)
  from sst_merge_start [OF assms(1-3) this assms(5), of ?F] obtain m its' where
      m: "merge_seek_to_first SSTableIterator_interface ?F (MergeIterator_create [0..<length its], (s, its)) = (m, (s, its'))"
      "sst.merge_at m (s, its') r" "mi_sources m = [0..<length its]"
    by auto
  have "length (mi_sources m) < ?F" using m(3) by simp
  from sst.merge_at_steps [OF m(2) this assms(6)] obtain m' st' where
      n: "(merge_next SSTableIterator_interface ?F ^^ n) (m, (s, its')) = (m', st')" "sst.merge_at m' st' (drop n r)"
      "sst_keeps (s, its') st'" by blast
  from sst.merge_at_current [OF n(2)] n(1,3) m(1) show ?thesis
    by (auto simp: sst_keeps_def hd_drop_conv_nth split: prod.splits)
qed

theorem sst_merge_yields_witness:
  "\<exists>s rd e. merged_of {e} [e] \<and> reader_on s rd [e] \<and>
    (case merge_next SSTableIterator_interface 3 (merge_seek_to_first SSTableIterator_interface 3
        (MergeIterator_create [0, 1], (s, [SSTableIterator_create rd, SSTableIterator_create rd]))) of
       (m, (t, its')) \<Rightarrow> merge_status m = None \<and> \<not> mi_valid m)"
proof -
  let ?e = "(Key [1], \<lparr>data = [2], is_tombstone = False, sequence = 3\<rparr>)"
  obtain s rd where rd: "answers s = []" "reader_on s rd [?e]"
    using reader_exists [of "[?e]"] by (auto simp: length_entry_image key_size_def)
  let ?its = "[SSTableIterator_create rd, SSTableIterator_create rd]"
  have m: "merged_of {?e} [?e]" by (simp add: merged_of_def)
  have h: "reader_on s (it_reader (?its ! i)) ([[?e], [?e]] ! i) \<and> ([[?e], [?e]] ! i \<noteq> [] \<longrightarrow>
      length (entry_image (hd ([[?e], [?e]] ! i))) \<le> MAX_PAGING_SIZE_BYTES)" if "i < length ?its" for i
    using that rd(2) by (auto simp: less_Suc_eq SSTableIterator_create_def length_entry_image key_size_def MAX_PAGING_SIZE_BYTES_def)
  have u: "[0..<length ?its] = [0, 1]" by (simp add: upt_conv_Cons)
  have "case merge_next SSTableIterator_interface 3 (merge_seek_to_first SSTableIterator_interface 3
        (MergeIterator_create [0, 1], (s, ?its))) of (m, (t, its')) \<Rightarrow> merge_status m = None \<and> \<not> mi_valid m"
    using sst_merge_yields [OF rd(1), of "[[?e], [?e]]" ?its "[?e]" 1, OF _ _ h] m
    unfolding u by (auto simp: consistent_def numeral_3_eq_3 numeral_2_eq_2)
  with m rd(2) show ?thesis by (intro exI [of _ s] exI [of _ rd] exI [of _ ?e] conjI)
qed

text \<open>
  C16. Without faults, on a table whose first entry is larger than a block, seeking to the first
  entry leaves the iterator invalid and without an error although the table is not empty and a
  lookup finds the entry.
\<close>

theorem it_seek_skips_oversized:
  assumes "reader_on s (it_reader it) tbl" and "answers s = []" and "tbl \<noteq> []"
    and "length (entry_image (hd tbl)) > MAX_PAGING_SIZE_BYTES"
  shows "\<exists>it'. it_seek_to_first s it = (s, it') \<and> \<not> it_valid it' \<and> it_status it' = None
     \<and> sst_get s (it_reader it) (fst (hd tbl)) = (ok (Some (snd (hd tbl))), s)"
proof -
  obtain bs where bs: "sst_blocks tbl = [] # bs" using sst_blocks_oversized [OF assms(3,4)] by blast
  let ?it = "it\<lparr>it_block_idx := 0, it_buffer := [], it_offset := 0, it_error := None, it_valid := False\<rparr>"
  have load: "load_block s ?it = (True, s, ?it\<lparr>it_buffer := block_image [], it_offset := 0\<rparr>)"
    by (rule load_block_reader [of s ?it tbl "[]" "[]" bs]) (use assms bs in simp_all)
  have ne: "sr_index_entries (it_reader it) \<noteq> []" using assms(1) bs by (auto simp: reader_on_def)
  have "map_of tbl (fst (hd tbl)) = Some (snd (hd tbl))" using assms(3) by (cases tbl) auto
  then have "sst_get s (it_reader it) (fst (hd tbl)) = (ok (Some (snd (hd tbl))), s)"
    using sst_get_reader [OF assms(1), of "fst (hd tbl)"] assms(2) by (auto simp: answers_same)
  with load ne show ?thesis
    by (simp add: it_seek_to_first_def it_next_def it_decode_entry_def it_status_def Let_def)
qed

theorem it_seek_skips_oversized_witness:
  "\<exists>s rd it' v. it_seek_to_first s (SSTableIterator_create rd) = (s, it') \<and> \<not> it_valid it' \<and> it_status it' = None
     \<and> sst_get s rd (Key [1]) = (ok (Some v), s)"
proof -
  let ?e = "(Key [1], \<lparr>data = replicate 5000 7, is_tombstone = False, sequence = 3\<rparr>)"
  obtain s rd where rd: "answers s = []" "reader_on s rd [?e]"
    using reader_exists [of "[?e]"] by (auto simp: length_entry_image key_size_def)
  then show ?thesis
    using it_seek_skips_oversized [of s "SSTableIterator_create rd" "[?e]"]
    by (auto simp: SSTableIterator_create_def length_entry_image MAX_PAGING_SIZE_BYTES_def)
qed

end
