(* ===== verification/Compaction_Policy.thy ===== *)
theory Compaction_Policy
  imports Complex_Main Storage_Types
begin

text \<open>
  tombstone_gc.cpp and compaction_policy.cpp: which tables a compaction merges and whether it may
  drop tombstones. The averages of the code are doubles, here exact rationals; \<open>std::sort\<close> leaves
  the order of equal elements open, here it is stable. A failed assertion is an \<open>Abort\<close>.
\<close>

record CompactionCandidate =
  cand_inputs :: "SSTableId list"
  can_drop_tombstone :: bool

section \<open>Dropping tombstones\<close>

definition can_drop_tombstones :: "SSTableId list \<Rightarrow> SSTableId list \<Rightarrow> bool result" where
  "can_drop_tombstones live inputs =
     (if \<not> sorted live then abort ''assertion std::is_sorted(live)''
      else if length inputs = 0 \<or> length live < length inputs then ok False
      else
        let inputs_copy = sort inputs
        in ok (list_all (\<lambda>i. live ! i = inputs_copy ! i) [0..<length inputs_copy]))"

section \<open>Policies\<close>

record SizeTieredCompactionPolicy =
  min_merge_width :: nat
  max_merge_width :: nat
  bucket_low :: rat
  bucket_high :: rat

datatype CompactionPolicy = FullCompactionPolicy | SizeTiered SizeTieredCompactionPolicy

definition size_tiered :: "nat \<Rightarrow> nat \<Rightarrow> SizeTieredCompactionPolicy" where
  "size_tiered min_width max_width =
     \<lparr>min_merge_width = min_width, max_merge_width = max_width, bucket_low = 1 / 2, bucket_high = 3 / 2\<rparr>"

definition full_pick :: "SSTableMeta list \<Rightarrow> CompactionCandidate option" where
  "full_pick live =
     (if live = [] then None else Some \<lparr>cand_inputs = map meta_id live, can_drop_tombstone = True\<rparr>)"

record bucket =
  oldest :: SSTableId
  average :: rat
  metas :: "SSTableMeta list"

definition meta_size :: "SSTableMeta \<Rightarrow> rat" where
  "meta_size m = of_nat (unat (size_bytes m))"

definition new_bucket :: "SSTableMeta \<Rightarrow> bucket" where
  "new_bucket m = \<lparr>oldest = meta_id m, average = meta_size m, metas = [m]\<rparr>"

fun add_to_buckets :: "SizeTieredCompactionPolicy \<Rightarrow> SSTableMeta \<Rightarrow> bucket list \<times> rat \<Rightarrow> bucket list \<times> rat" where
  "add_to_buckets p m (buckets, current_sum) =
     (let cur = last buckets; c_avg = average cur; sz = meta_size m in
      if sz \<ge> bucket_low p * c_avg \<and> sz \<le> bucket_high p * c_avg then
        let current_sum = current_sum + sz; ms = metas cur @ [m]
        in (butlast buckets @ [\<lparr>oldest = (if meta_id m < oldest cur then meta_id m else oldest cur),
                                average = current_sum / of_nat (length ms), metas = ms\<rparr>], current_sum)
      else (buckets @ [new_bucket m], sz))"

definition make_buckets :: "SizeTieredCompactionPolicy \<Rightarrow> SSTableMeta list \<Rightarrow> bucket list" where
  "make_buckets p sorted_live =
     fst (fold (add_to_buckets p) (tl sorted_live) ([new_bucket (hd sorted_live)], meta_size (hd sorted_live)))"

fun take_inputs :: "nat \<Rightarrow> SSTableMeta list \<Rightarrow> SSTableId list \<Rightarrow> SSTableId list" where
  "take_inputs width [] inputs = inputs"
| "take_inputs width (m # ms) inputs =
     (let inputs = inputs @ [meta_id m]
      in if length inputs \<ge> width then inputs else take_inputs width ms inputs)"

definition size_tiered_pick :: "SizeTieredCompactionPolicy \<Rightarrow> SSTableMeta list \<Rightarrow> CompactionCandidate option result" where
  "size_tiered_pick p live =
     (if live = [] then ok None
      else if \<not> max_merge_width p \<ge> min_merge_width p then abort ''assertion max_merge_width_ >= min_merge_width_''
      else
        let sorted_live = sort_key size_bytes live;
            buckets = make_buckets p sorted_live;
            found_buckets = filter (\<lambda>b. length (metas b) \<ge> min_merge_width p) buckets
        in
        if found_buckets = [] then ok None
        else
          let found_buckets = sort_key oldest found_buckets;
              chosen = sort_key meta_id (metas (hd found_buckets));
              inputs = take_inputs (max_merge_width p) chosen [];
              live_inputs = sort (map meta_id live)
          in (case can_drop_tombstones live_inputs inputs of
                Inl e \<Rightarrow> Inl e
              | Inr drop_tombstones \<Rightarrow>
                  ok (Some \<lparr>cand_inputs = inputs, can_drop_tombstone = drop_tombstones\<rparr>)))"

definition policy_pick :: "CompactionPolicy \<Rightarrow> SSTableMeta list \<Rightarrow> CompactionCandidate option result" where
  "policy_pick policy live =
     (case policy of FullCompactionPolicy \<Rightarrow> ok (full_pick live) | SizeTiered p \<Rightarrow> size_tiered_pick p live)"

definition policy_name :: "CompactionPolicy \<Rightarrow> string" where
  "policy_name policy =
     (case policy of FullCompactionPolicy \<Rightarrow> ''full_compaction_policy'' | SizeTiered _ \<Rightarrow> ''size_tiered_compaction_policy'')"

section \<open>Prefixes of the live tables\<close>

lemma can_drop_take:
  assumes "sorted live" and "inputs \<noteq> []" and "length inputs \<le> length live"
  shows "can_drop_tombstones live inputs = ok (sort inputs = take (length inputs) live)"
proof -
  have "sort inputs = take (length inputs) live \<longleftrightarrow> (\<forall>i < length inputs. sort inputs ! i = live ! i)"
    using assms(3) by (simp add: list_eq_iff_nth_eq)
  with assms show ?thesis by (simp add: can_drop_tombstones_def Let_def list_all_iff eq_commute [of "live ! _"] atLeast0LessThan lessThan_iff Ball_def)
qed

lemma prefix_iff_below:
  fixes live inputs :: "'a::linorder list"
  assumes "sorted live" and "distinct live" and "distinct inputs" and "set inputs \<subseteq> set live"
  shows "sort inputs = take (length inputs) live \<longleftrightarrow> (\<forall>x \<in> set live - set inputs. \<forall>i \<in> set inputs. i < x)"
proof -
  let ?n = "length inputs" and ?p = "take (length inputs) live" and ?r = "drop (length inputs) live"
  have n: "?n \<le> length live" using assms(2-4) by (metis card_mono distinct_card finite_set)
  have "sorted (?p @ ?r)" "distinct (?p @ ?r)" using assms(1,2) by simp_all
  then have lt: "\<forall>i \<in> set ?p. \<forall>x \<in> set ?r. i < x" and disj: "set ?p \<inter> set ?r = {}" and dist: "distinct ?p" "sorted ?p"
    unfolding sorted_append distinct_append by (force simp: order.strict_iff_order)+
  have un: "set live = set ?p \<union> set ?r" by (metis append_take_drop_id set_append)
  have eq: "sort inputs = ?p \<longleftrightarrow> set inputs = set ?p"
    using assms(3) dist by (metis set_sort sorted_sort distinct_sort sorted_distinct_set_unique)
  show ?thesis
  proof
    assume "sort inputs = ?p"
    with eq have "set inputs = set ?p" by simp
    with un lt disj show "\<forall>x \<in> set live - set inputs. \<forall>i \<in> set inputs. i < x" by auto
  next
    assume below: "\<forall>x \<in> set live - set inputs. \<forall>i \<in> set inputs. i < x"
    have "set ?p \<subseteq> set inputs"
    proof (rule ccontr)
      assume "\<not> ?thesis"
      then obtain x where x: "x \<in> set ?p" "x \<notin> set inputs" by blast
      with below un have "\<forall>i \<in> set inputs. i < x" by blast
      moreover have "\<forall>y \<in> set ?r. x < y" using lt x(1) by blast
      ultimately have "set inputs \<inter> set ?r = {}" by (fastforce dest: less_asym)
      then have "set inputs \<subseteq> set ?p - {x}" using assms(4) x(2) un by blast
      then have "card (set inputs) < card (set ?p)" using x(1) by (meson card_Diff1_less card_mono finite_Diff finite_set le_less_trans)
      then show False using assms(3) dist(1) n by (simp add: distinct_card)
    qed
    moreover have "card (set ?p) = card (set inputs)" using dist(1) assms(3) n by (simp add: distinct_card)
    ultimately have "set inputs = set ?p" by (metis card_subset_eq finite_set)
    with eq show "sort inputs = ?p" by simp
  qed
qed

section \<open>Buckets\<close>

text \<open>
  The buckets cut the sorted tables into consecutive non-empty runs; the average and the oldest id
  of a bucket are those of its tables.
\<close>

definition bucket_ok :: "bucket \<Rightarrow> bool" where
  "bucket_ok b \<longleftrightarrow> metas b \<noteq> [] \<and> average b = sum_list (map meta_size (metas b)) / of_nat (length (metas b))
     \<and> oldest b = Min (set (map meta_id (metas b)))"

lemma new_bucket_ok [simp]: "bucket_ok (new_bucket m)" "metas (new_bucket m) = [m]"
  by (simp_all add: bucket_ok_def new_bucket_def)

lemma bucket_ok_extend:
  assumes "bucket_ok b" and "s = sum_list (map meta_size (metas b))"
  shows "bucket_ok \<lparr>oldest = (if meta_id m < oldest b then meta_id m else oldest b),
     average = (s + meta_size m) / of_nat (length (metas b @ [m])), metas = metas b @ [m]\<rparr>"
proof -
  have "Min (set (map meta_id (metas b @ [m]))) = min (meta_id m) (oldest b)"
    using assms(1) by (simp add: bucket_ok_def)
  also have "\<dots> = (if meta_id m < oldest b then meta_id m else oldest b)" by (auto simp: min_def)
  finally show ?thesis using assms by (simp add: bucket_ok_def)
qed

lemma add_to_buckets_ok:
  assumes "bs \<noteq> []" and "\<forall>b \<in> set bs. bucket_ok b" and "s = sum_list (map meta_size (metas (last bs)))"
    and "add_to_buckets p m (bs, s) = (bs', s')"
  shows "bs' \<noteq> [] \<and> (\<forall>b \<in> set bs'. bucket_ok b) \<and> s' = sum_list (map meta_size (metas (last bs')))
     \<and> concat (map metas bs') = concat (map metas bs) @ [m]"
proof -
  obtain bs0 b where bs: "bs = bs0 @ [b]" using assms(1) by (metis append_butlast_last_id)
  have b: "bucket_ok b" using assms(2) bs by simp
  show ?thesis
    using assms bs bucket_ok_extend [OF b, of s m]
    by (cases "meta_size m \<ge> bucket_low p * average b \<and> meta_size m \<le> bucket_high p * average b")
      (auto simp: Let_def)
qed

lemma make_buckets_ok:
  assumes "ms \<noteq> []"
  shows "(\<forall>b \<in> set (make_buckets p ms). bucket_ok b) \<and> concat (map metas (make_buckets p ms)) = ms"
proof -
  have "case fold (add_to_buckets p) xs (bs, s) of (bs', s') \<Rightarrow> bs' \<noteq> [] \<and> (\<forall>b \<in> set bs'. bucket_ok b)
      \<and> s' = sum_list (map meta_size (metas (last bs'))) \<and> concat (map metas bs') = concat (map metas bs) @ xs"
    if "bs \<noteq> []" "\<forall>b \<in> set bs. bucket_ok b" "s = sum_list (map meta_size (metas (last bs)))" for xs bs s
    using that
  proof (induction xs arbitrary: bs s)
    case (Cons x xs)
    obtain bs' s' where a: "add_to_buckets p x (bs, s) = (bs', s')" by (cases "add_to_buckets p x (bs, s)")
    from add_to_buckets_ok [OF Cons.prems a] Cons.IH [of bs' s'] a show ?case by auto
  qed simp
  from this [of "[new_bucket (hd ms)]" "meta_size (hd ms)" "tl ms"]
  have "case fold (add_to_buckets p) (tl ms) ([new_bucket (hd ms)], meta_size (hd ms)) of (bs', s') \<Rightarrow>
      (\<forall>b \<in> set bs'. bucket_ok b) \<and> concat (map metas bs') = hd ms # tl ms"
    by (auto split: prod.splits)
  with assms show ?thesis by (simp add: make_buckets_def split: prod.splits)
qed

lemma bucket_run:
  assumes "b \<in> set (make_buckets p ms)" and "ms \<noteq> []"
  shows "\<exists>xs ys. ms = xs @ metas b @ ys"
proof -
  obtain us vs where "make_buckets p ms = us @ b # vs" using split_list [OF assms(1)] by (elim exE)
  with make_buckets_ok [OF assms(2), of p] have "ms = concat (map metas us) @ metas b @ concat (map metas vs)" by simp
  then show ?thesis by (intro exI)
qed

lemma take_inputs_eq:
  "length inputs < width \<or> ms = [] \<Longrightarrow> take_inputs width ms inputs = inputs @ map meta_id (take (width - length inputs) ms)"
proof (induction ms arbitrary: inputs)
  case (Cons m ms)
  show ?case
  proof (cases "length inputs + 1 \<ge> width")
    case True
    with Cons.prems have "width - length inputs = 1" by auto
    with True show ?thesis by (simp add: Let_def)
  next
    case False
    with Cons.IH [of "inputs @ [meta_id m]"] show ?thesis by (simp add: Let_def Suc_diff_Suc take_Cons' split: if_splits)
  qed
qed simp

lemma strict_sorted_take: "sorted_wrt (<) xs \<Longrightarrow> sorted_wrt (<) (take n xs)"
  by (metis append_take_drop_id sorted_wrt_append)

lemma size_tiered_pick_Some:
  assumes "size_tiered_pick p live = ok (Some c)" and "0 < min_merge_width p" and "distinct (map meta_id live)"
  obtains b where "b \<in> set (make_buckets p (sort_key size_bytes live))" and "min_merge_width p \<le> length (metas b)"
    and "min_merge_width p \<le> max_merge_width p"
    and "cand_inputs c = take (max_merge_width p) (sort (map meta_id (metas b)))"
    and "can_drop_tombstone c \<longleftrightarrow> sort (cand_inputs c) = take (length (cand_inputs c)) (sort (map meta_id live))"
proof -
  let ?bs = "filter (\<lambda>b. length (metas b) \<ge> min_merge_width p) (make_buckets p (sort_key size_bytes live))"
  let ?b = "hd (sort_key oldest ?bs)"
  let ?in = "take_inputs (max_merge_width p) (sort_key meta_id (metas ?b)) []"
  have w: "min_merge_width p \<le> max_merge_width p" and ne: "?bs \<noteq> []" and l: "live \<noteq> []"
    using assms(1) by (auto simp: size_tiered_pick_def Let_def split: if_splits)
  then have "?b \<in> set (sort_key oldest ?bs)" by (metis hd_in_set length_0_conv length_sort)
  then have b: "?b \<in> set (make_buckets p (sort_key size_bytes live))" "min_merge_width p \<le> length (metas ?b)" by simp_all
  have srt: "map meta_id (sort_key meta_id (metas ?b)) = sort (map meta_id (metas ?b))"
    by (rule properties_for_sort [symmetric]) simp_all
  have inp: "?in = take (max_merge_width p) (sort (map meta_id (metas ?b)))"
    using w assms(2) by (subst take_inputs_eq) (simp_all add: srt flip: take_map)
  have "sort_key size_bytes live \<noteq> []" using l by (metis length_0_conv length_sort)
  from bucket_run [OF b(1) this] obtain xs ys where "sort_key size_bytes live = xs @ metas ?b @ ys" by (elim exE)
  from arg_cong [OF this, of length] have len: "length ?in \<le> length (sort (map meta_id live))"
    unfolding inp by simp
  have "0 < length ?in" unfolding inp using b(2) w assms(2) by (simp del: length_greater_0_conv)
  then have ne': "?in \<noteq> []" by (rule length_greater_0_conv [THEN iffD1])
  from assms(1) w ne l can_drop_take [OF _ ne' len]
  have "c = \<lparr>cand_inputs = ?in, can_drop_tombstone = (sort ?in = take (length ?in) (sort (map meta_id live)))\<rparr>"
    by (simp add: size_tiered_pick_def Let_def ok_def)
  with b w inp show thesis by (intro that [OF b w]) simp_all
qed

lemma bucket_ids:
  assumes "b \<in> set (make_buckets p (sort_key size_bytes live))" and "distinct (map meta_id live)" and "live \<noteq> []"
  shows "distinct (map meta_id (metas b))" and "set (metas b) \<subseteq> set live"
proof -
  have "sort_key size_bytes live \<noteq> []" using assms(3) by (metis length_0_conv length_sort)
  from bucket_run [OF assms(1) this] obtain xs ys where s: "sort_key size_bytes live = xs @ metas b @ ys" by (elim exE)
  from arg_cong [OF this, of set] show "set (metas b) \<subseteq> set live" by auto
  have "distinct (map meta_id (sort_key size_bytes live))" using assms(2) by (simp add: distinct_map)
  then show "distinct (map meta_id (metas b))" unfolding s by simp
qed

section \<open>Properties\<close>

text \<open>
  For a non-empty set of live tables, can_drop_tombstones answers true exactly when all
  other live tables have higher ids.
\<close>

theorem can_drop_tombstones_iff:
  assumes "sorted live" and "distinct live" and "distinct inputs" and "set inputs \<subseteq> set live" and "inputs \<noteq> []"
  shows "can_drop_tombstones live inputs = ok (\<forall>x \<in> set live - set inputs. \<forall>i \<in> set inputs. i < x)"
proof -
  have "length inputs \<le> length live" using assms(2-4) by (metis card_mono distinct_card finite_set)
  from can_drop_take [OF assms(1,5) this] prefix_iff_below [OF assms(1-4)] show ?thesis by simp
qed

theorem can_drop_tombstones_iff_witness:
  "can_drop_tombstones [SSTableId 1, SSTableId 2, SSTableId 5] [SSTableId 2, SSTableId 1] = ok True
   \<and> can_drop_tombstones [SSTableId 1, SSTableId 2, SSTableId 5] [SSTableId 1, SSTableId 5] = ok False"
  using can_drop_tombstones_iff [of "[SSTableId 1, SSTableId 2, SSTableId 5]" "[SSTableId 2, SSTableId 1]"]
    can_drop_tombstones_iff [of "[SSTableId 1, SSTableId 2, SSTableId 5]" "[SSTableId 1, SSTableId 5]"]
  by (auto simp: insert_Diff_if)

text \<open>
  C20. The candidate the size-tiered policy picks, with a positive minimal merge width and
  tables with distinct ids, is a strictly sorted list of live tables, with a length between the
  minimal and the maximal merge width, and it allows dropping tombstones exactly when every live
  table outside it has a higher id than all tables in it.
\<close>

theorem size_tiered_pick_sound:
  assumes "size_tiered_pick p live = ok (Some c)" and "0 < min_merge_width p" and "distinct (map meta_id live)"
  shows "sorted_wrt (<) (cand_inputs c) \<and> set (cand_inputs c) \<subseteq> meta_id ` set live
     \<and> min_merge_width p \<le> length (cand_inputs c) \<and> length (cand_inputs c) \<le> max_merge_width p
     \<and> (can_drop_tombstone c \<longleftrightarrow> (\<forall>x \<in> meta_id ` set live - set (cand_inputs c). \<forall>i \<in> set (cand_inputs c). i < x))"
proof -
  have l: "live \<noteq> []" using assms(1) by (auto simp: size_tiered_pick_def)
  obtain b where b: "b \<in> set (make_buckets p (sort_key size_bytes live))" "min_merge_width p \<le> length (metas b)"
      "min_merge_width p \<le> max_merge_width p" "cand_inputs c = take (max_merge_width p) (sort (map meta_id (metas b)))"
      "can_drop_tombstone c \<longleftrightarrow> sort (cand_inputs c) = take (length (cand_inputs c)) (sort (map meta_id live))"
    by (rule size_tiered_pick_Some [OF assms])
  note ids = bucket_ids [OF b(1) assms(3) l]
  have "sorted_wrt (<) (sort (map meta_id (metas b)))" using ids(1) by (simp add: strict_sorted_iff)
  then have so: "sorted_wrt (<) (cand_inputs c)" unfolding b(4) by (rule strict_sorted_take)
  have sub: "set (cand_inputs c) \<subseteq> meta_id ` set live"
    using ids(2) set_take_subset [of "max_merge_width p" "sort (map meta_id (metas b))"] unfolding b(4) by force
  have "distinct (cand_inputs c)" using so by (simp add: strict_sorted_iff)
  with prefix_iff_below [of "sort (map meta_id live)" "cand_inputs c"] assms(3) sub so sub b show ?thesis by simp
qed

theorem size_tiered_pick_sound_witness:
  "\<exists>c. size_tiered_pick (size_tiered 2 4)
      (map (\<lambda>i. \<lparr>meta_id = SSTableId i, size_bytes = 100, entry_count = 1, max_sequence = i\<rparr>) [3, 1]) = ok (Some c)
     \<and> cand_inputs c = [SSTableId 1, SSTableId 3] \<and> can_drop_tombstone c"
proof -
  let ?live = "map (\<lambda>i. \<lparr>meta_id = SSTableId i, size_bytes = 100, entry_count = 1, max_sequence = i\<rparr>) [3, 1]"
  let ?c = "\<lparr>cand_inputs = [SSTableId 1, SSTableId 3], can_drop_tombstone = True\<rparr>"
  have p: "size_tiered_pick (size_tiered 2 4) ?live = ok (Some ?c)" by code_simp
  from size_tiered_pick_sound [OF p] p show ?thesis by (auto simp: size_tiered_def)
qed

text \<open>
  The buckets of the size-tiered policy cut the tables, sorted by size, into consecutive
  non-empty runs; the average and the oldest id kept for a bucket are those of its tables.
\<close>

theorem make_buckets_partition:
  assumes "live \<noteq> []"
  shows "concat (map metas (make_buckets p (sort_key size_bytes live))) = sort_key size_bytes live
     \<and> (\<forall>b \<in> set (make_buckets p (sort_key size_bytes live)). metas b \<noteq> []
          \<and> average b = sum_list (map meta_size (metas b)) / of_nat (length (metas b))
          \<and> oldest b = Min (meta_id ` set (metas b)))"
proof -
  have "sort_key size_bytes live \<noteq> []" using assms by (metis length_0_conv length_sort)
  from make_buckets_ok [OF this, of p] show ?thesis by (auto simp: bucket_ok_def)
qed

theorem make_buckets_partition_witness:
  "concat (map metas (make_buckets (size_tiered 2 4)
     (sort_key size_bytes [\<lparr>meta_id = SSTableId 2, size_bytes = 9, entry_count = 1, max_sequence = 2\<rparr>])))
   = [\<lparr>meta_id = SSTableId 2, size_bytes = 9, entry_count = 1, max_sequence = 2\<rparr>]"
  using make_buckets_partition [of "[\<lparr>meta_id = SSTableId 2, size_bytes = 9, entry_count = 1, max_sequence = 2\<rparr>]" "size_tiered 2 4"]
  by simp

text \<open>
  C21. The size-tiered policy groups tables by size and not by age: of three tables it picks the
  oldest and the newest and leaves the one in between out, without permission to drop
  tombstones, whenever the newest is at least as large as the oldest and falls into its bucket,
  the one in between is larger than both and than the bucket of the two allows, and the policy
  merges two tables.
\<close>

theorem size_tiered_pick_gap:
  assumes "meta_id a < meta_id b" and "meta_id b < meta_id c" and "min_merge_width p \<le> 2" and "2 \<le> max_merge_width p"
    and "size_bytes a \<le> size_bytes c" and "size_bytes c < size_bytes b"
    and "bucket_low p * meta_size a \<le> meta_size c" and "meta_size c \<le> bucket_high p * meta_size a"
    and "bucket_high p * ((meta_size a + meta_size c) / 2) < meta_size b"
  shows "size_tiered_pick p [a, b, c] = ok (Some \<lparr>cand_inputs = [meta_id a, meta_id c], can_drop_tombstone = False\<rparr>)"
proof -
  let ?ab = "\<lparr>oldest = meta_id a, average = (meta_size a + meta_size c) / 2, metas = [a, c]\<rparr>"
  have "\<not> size_bytes b \<le> size_bytes c" "\<not> size_bytes b < size_bytes a" "\<not> size_bytes c < size_bytes a" "size_bytes a \<le> size_bytes b"
    using assms(5,6) by auto
  then have sorted: "sort_key size_bytes [a, b, c] = [a, c, b]" using assms(5,6) by simp
  have ids: "\<not> meta_id c < meta_id a" "\<not> meta_id b \<le> meta_id a" "meta_id a \<le> meta_id c" "meta_id a \<le> meta_id b" "meta_id b \<le> meta_id c"
      "meta_id b \<noteq> meta_id c" using assms(1,2) by auto
  have "make_buckets p [a, c, b] = [?ab, new_bucket b]"
    using assms(7-9) ids(1) by (simp add: make_buckets_def new_bucket_def Let_def)
  then have "filter (\<lambda>x. min_merge_width p \<le> length (metas x)) (make_buckets p (sort_key size_bytes [a, b, c])) \<in> {[?ab], [?ab, new_bucket b]}"
    unfolding sorted using assms(3) by auto
  then have "\<exists>rest. filter (\<lambda>x. min_merge_width p \<le> length (metas x)) (make_buckets p (sort_key size_bytes [a, b, c])) = ?ab # rest
      \<and> hd (sort_key oldest (?ab # rest)) = ?ab"
    using ids(2,4) by (auto simp: new_bucket_def)
  then obtain rest where f: "filter (\<lambda>x. min_merge_width p \<le> length (metas x)) (make_buckets p (sort_key size_bytes [a, b, c])) = ?ab # rest"
      "hd (sort_key oldest (?ab # rest)) = ?ab" by (elim exE conjE)
  have "can_drop_tombstones (sort (map meta_id [a, b, c])) [meta_id a, meta_id c] = ok False"
    using ids by (simp add: can_drop_tombstones_def upt_conv_Cons)
  moreover have "sort_key meta_id [a, c] = [a, c]" using ids(3) by simp
  moreover have "take_inputs (max_merge_width p) [a, c] [] = [meta_id a, meta_id c]" using assms(4) by (auto simp: Let_def)
  ultimately show ?thesis
    using assms(3,4) unfolding size_tiered_pick_def Let_def f(1) f(2) by (simp add: ok_def)
qed

theorem size_tiered_pick_gap_witness:
  "size_tiered_pick (size_tiered 2 4)
     [\<lparr>meta_id = SSTableId 1, size_bytes = 100, entry_count = 1, max_sequence = 1\<rparr>,
      \<lparr>meta_id = SSTableId 2, size_bytes = 9000, entry_count = 90, max_sequence = 91\<rparr>,
      \<lparr>meta_id = SSTableId 3, size_bytes = 100, entry_count = 1, max_sequence = 92\<rparr>]
   = ok (Some \<lparr>cand_inputs = [SSTableId 1, SSTableId 3], can_drop_tombstone = False\<rparr>)"
  using size_tiered_pick_gap [of "\<lparr>meta_id = SSTableId 1, size_bytes = 100, entry_count = 1, max_sequence = 1\<rparr>"
      "\<lparr>meta_id = SSTableId 2, size_bytes = 9000, entry_count = 90, max_sequence = 91\<rparr>"
      "\<lparr>meta_id = SSTableId 3, size_bytes = 100, entry_count = 1, max_sequence = 92\<rparr>" "size_tiered 2 4"]
  by (simp add: size_tiered_def meta_size_def less_SSTableId_def)

end
