(* ===== verification/Compaction.thy ===== *)
theory Compaction
  imports Table_Files Version_Lookup Sstable_Iterator Compaction_Policy
begin

text \<open>
  compaction.cpp: the compactor merges the tables of a task into a new one. The readers stay pinned
  in the table cache until the function returns. A \<open>shared_ptr\<close> copied into an iterator is the
  pin of the reader vector. The merge loop runs on fuel: every iteration consumes an entry, which
  takes at least one byte of a block of an input. The calls of the logger are left out.
\<close>

record CompactionTask =
  task_inputs :: "SSTableId list"
  output_id :: SSTableId
  task_can_drop_tombstone :: bool

section \<open>The compactor\<close>

fun open_inputs ::
  "string \<Rightarrow> SSTableId list \<Rightarrow> nat \<Rightarrow> (SSTableReader \<times> handle) list \<Rightarrow> tc_state
   \<Rightarrow> nat result \<times> (SSTableReader \<times> handle) list \<times> tc_state" where
  "open_inputs data_dir [] possible_keys opened st = (ok possible_keys, opened, st)"
| "open_inputs data_dir (i # inputs) possible_keys opened st =
     (case tc_get data_dir i st of
        (Inl (Abort what), st) \<Rightarrow> (abort what, opened, st)
      | (Inl (Err _), st) \<Rightarrow>
          (err UNEXPECTED_ERR ''SST file went missing from snapshot before compaction could read it'', opened, st)
      | (Inr (reader, h), st) \<Rightarrow>
          open_inputs data_dir inputs (possible_keys + unat (footer_entry_count (sr_footer reader)))
            (opened @ [(reader, h)]) st)"

fun release_readers :: "handle list \<Rightarrow> tc_state \<Rightarrow> unit result \<times> tc_state" where
  "release_readers [] st = (ok (), st)"
| "release_readers (h # hs) st = attempt (tc_release h st) (\<lambda>_ st. release_readers hs st)"

text \<open>
  The loop does not look at the status of the merge when it ends; only the end of the defined
  behaviour of a source is passed on.
\<close>

fun compact_loop ::
  "nat \<Rightarrow> bool \<Rightarrow> MergeIterator \<times> SSTableIterator list \<Rightarrow> fs \<times> SSTableWriter \<Rightarrow> unit result \<times> (fs \<times> SSTableWriter)" where
  "compact_loop fuel full (m, its) st =
     (if \<not> mi_valid m then
        (case mi_error m of Some (Abort what) \<Rightarrow> (abort what, st) | _ \<Rightarrow> (ok (), st))
      else
        (case fuel of
           0 \<Rightarrow> (abort ''out of fuel'', st)
         | Suc fuel \<Rightarrow>
             let key = mi_current_key m; value = mi_current_value m in
             attempt (if is_tombstone value \<and> full then (ok (), st) else sst_add st key value) (\<lambda>_ (s, w).
               case merge_next SSTableIterator_interface (length its + 1) (m, (s, its)) of
                 (m, (s, its)) \<Rightarrow> compact_loop fuel full (m, its) (s, w))))"

declare compact_loop.simps [simp del]

definition input_bytes :: "SSTableIterator list \<Rightarrow> nat" where
  "input_bytes its = sum_list (map (\<lambda>it. sum_list (map block_size (sr_index_entries (it_reader it)))) its)"

definition compact_write ::
  "string \<Rightarrow> SSTableIterator list \<Rightarrow> nat \<Rightarrow> u64 \<Rightarrow> bool \<Rightarrow> fs \<Rightarrow> SSTableId result \<times> fs" where
  "compact_write data_dir its possible_keys next_sst_seq full s =
     attempt (SSTableWriter_create s (sst_path data_dir next_sst_seq) possible_keys) (\<lambda>writer s.
       case merge_seek_to_first SSTableIterator_interface (length its + 1) (MergeIterator_create [0..<length its], (s, its)) of
         (m, (s, its)) \<Rightarrow>
           (case attempt (compact_loop (input_bytes its) full (m, its) (s, writer)) (\<lambda>_ st. sst_finish st) of
              (r, (s, _)) \<Rightarrow> attempt (r, s) (\<lambda>_ s. (ok (SSTableId next_sst_seq), s))))"

definition compact :: "string \<Rightarrow> SSTableId list \<Rightarrow> u64 \<Rightarrow> bool \<Rightarrow> tc_state \<Rightarrow> SSTableId result \<times> tc_state" where
  "compact data_dir inputs next_sst_seq is_full_compaction st =
     (case open_inputs data_dir inputs 0 [] st of
        (r, opened, (s, c)) \<Rightarrow>
          (case attempt (r, s) (\<lambda>possible_keys s.
                  compact_write data_dir (map (SSTableIterator_create \<circ> fst) opened) possible_keys next_sst_seq
                    is_full_compaction s) of
             (res, s) \<Rightarrow> attempt (release_readers (map snd opened) (s, c)) (\<lambda>_ st. (res, st))))"

section \<open>Opening the inputs\<close>

lemma open_inputs_ok:
  assumes "tc_ok d tables live st" and "set inputs \<subseteq> live"
  shows "\<exists>rs st'. open_inputs d inputs n opened st
       = (ok (n + sum_list (map (\<lambda>sid. length (the (tables sid))) inputs)), opened @ rs, st')
     \<and> length rs = length inputs \<and> (\<forall>i < length inputs. good_reader (fst st') (fst (rs ! i)) (the (tables (inputs ! i))))
     \<and> tc_ok d tables live st' \<and> kept (fst st) (fst st') \<and> same_files (fst st) (fst st')
     \<and> (\<forall>H. sc.pinned (snd st) H \<longrightarrow> sc.pinned (snd st') (mset (map snd rs) + H))"
  using assms
proof (induction inputs arbitrary: st n opened)
  case Nil
  then show ?case by simp
next
  case (Cons sid inputs)
  obtain s c where st: "st = (s, c)" by (cases st)
  have ok: "tc_ok d tables live (s, c)" and live: "sid \<in> live" "set inputs \<subseteq> live" using Cons.prems st by simp_all
  then obtain tbl where tbl: "tables sid = Some tbl" by (auto simp: tc_ok_def files_ok_def)
  obtain rd h t e where g: "tc_get d sid (s, c) = (ok (rd, h), (t, e))" "tc_ok d tables live (t, e)" "good_reader t rd tbl"
      "kept s t" "same_files s t" "\<forall>H. sc.pinned c H \<longrightarrow> sc.pinned e (add_mset h H)"
    using tc_get_ok [OF ok live(1) tbl] by (elim exE conjE)
  let ?n = "n + length tbl"
  obtain rs st' where IH: "open_inputs d inputs ?n (opened @ [(rd, h)]) (t, e)
       = (ok (?n + sum_list (map (\<lambda>sid. length (the (tables sid))) inputs)), (opened @ [(rd, h)]) @ rs, st')"
     "length rs = length inputs" "\<forall>i < length inputs. good_reader (fst st') (fst (rs ! i)) (the (tables (inputs ! i)))"
     "tc_ok d tables live st'" "kept t (fst st')" "same_files t (fst st')"
     "\<forall>H. sc.pinned e H \<longrightarrow> sc.pinned (snd st') (mset (map snd rs) + H)"
    using Cons.IH [OF g(2) live(2), of ?n "opened @ [(rd, h)]"] by auto
  have "unat (footer_entry_count (sr_footer rd)) = length tbl" using g(3) by (simp add: good_reader_def)
  then have "open_inputs d (sid # inputs) n opened st
       = (ok (n + sum_list (map (\<lambda>sid. length (the (tables sid))) (sid # inputs))), opened @ (rd, h) # rs, st')"
    using g(1) IH(1) tbl by (simp add: st ok_def add.assoc)
  moreover have "good_reader (fst st') (fst (((rd, h) # rs) ! i)) (the (tables ((sid # inputs) ! i)))" if "i < length (sid # inputs)" for i
    using that IH(3) good_reader_kept [OF g(3) IH(5)] tbl by (cases i) simp_all
  moreover have "sc.pinned (snd st') (mset (map snd ((rd, h) # rs)) + H)" if "sc.pinned c H" for H
    using IH(7) [rule_format, OF g(6) [rule_format, OF that]] by simp
  ultimately show ?case using IH(2,4) kept_trans [OF g(4) IH(5)] same_files_trans [OF g(5) IH(6)]
    by (intro exI [of _ "(rd, h) # rs"] exI [of _ st']) (simp add: st)
qed

lemma release_readers_ok:
  assumes "tc_ok d tables live (s, c)" and "sc.pinned c (mset hs + H)"
  shows "\<exists>e. release_readers hs (s, c) = (ok (), (s, e)) \<and> tc_ok d tables live (s, e) \<and> sc.pinned e H"
  using assms
proof (induction hs arbitrary: c)
  case (Cons h hs)
  then obtain e where "tc_release h (s, c) = (ok (), (s, e))" "tc_ok d tables live (s, e)" "sc.pinned e (mset hs + H)"
    using tc_release_ok [OF Cons.prems(1), of h "mset hs + H"] by auto
  with Cons.IH [of e] show ?case by simp
qed simp

section \<open>The merge loop\<close>

definition kept_entries :: "bool \<Rightarrow> entry list \<Rightarrow> entry list" where
  "kept_entries full r = (if full then filter (\<lambda>e. \<not> is_tombstone (snd e)) r else r)"

lemma kept_entries_Cons:
  "kept_entries full ((k, v) # r) = (if is_tombstone v \<and> full then kept_entries full r else (k, v) # kept_entries full r)"
  by (simp add: kept_entries_def)

lemma ordered_kept_entries: "ordered r \<Longrightarrow> ordered (kept_entries full r)"
  by (auto simp: kept_entries_def sorted_wrt_map sorted_wrt_filter)

lemma sw_flushed_grows: "\<exists>b. sw_flushed (es @ [e]) = sw_flushed es @ b"
proof -
  obtain k v where e: "e = (k, v)" by (cases e)
  obtain bs c where "fold pack_entry es ([], []) = (bs, c)" by (cases "fold pack_entry es ([], [])")
  then show ?thesis by (auto simp: sw_flushed_def e)
qed

lemma wrote_eq: "wrote s0 fh bs s \<Longrightarrow> answers s0 = [] \<Longrightarrow> s = fs_append s0 fh bs"
  by (metis answers_fs_append answers_same wrote_def)

text \<open>The loop adds exactly the entries the merge stands before, without the dropped tombstones.\<close>

lemma compact_loop_adds:
  assumes "sst.merge_at m (s, its) r" and "mi_sources m = [0..<length its]" and "length r \<le> fuel"
    and "wrote s0 (sw_fh w) (sw_flushed got) s" and "sw_state f0 got w" and "appendable s0 (sw_fh w)" and "answers s0 = []"
    and "\<And>a b. kept (fs_append s0 (sw_fh w) a) (fs_append s0 (sw_fh w) (a @ b))"
  shows "compact_loop fuel full (m, its) (s, w) = sst_add_all (s, w) (kept_entries full r)"
  using assms
proof (induction r arbitrary: m its s w fuel got)
  case Nil
  note cur = sst.merge_at_current [OF Nil.prems(1)]
  then show ?case by (simp add: compact_loop.simps kept_entries_def merge_status_def)
next
  case (Cons e r)
  obtain k v where e: "e = (k, v)" by (cases e)
  note cur = sst.merge_at_current [OF Cons.prems(1)]
  have m: "mi_valid m" "mi_current_key m = k" "mi_current_value m = v" using cur e by auto
  obtain n where n: "fuel = Suc n" using Cons.prems(3) by (cases fuel) auto
  have step: "compact_loop n full (m', its') (t, w') = sst_add_all (t, w') (kept_entries full r)"
    if nx: "merge_next SSTableIterator_interface (length its + 1) (m, (t, its)) = (m', (t', its'))" "t' = t"
      and at: "sst.merge_at m' (t', its') r" "mi_sources m' = mi_sources m" "map it_reader its' = map it_reader its"
      and w': "wrote s0 (sw_fh w') (sw_flushed ds) t" "sw_state f0 ds w'" "sw_fh w' = sw_fh w" for m' its' t t' w' ds
  proof (rule Cons.IH [where got = ds])
    show "length r \<le> n" using Cons.prems(3) n by simp
    show "mi_sources m' = [0..<length its']" using at(2,3) Cons.prems(2) by (metis length_map)
  qed (use at nx(2) w' Cons.prems(6-8) in simp_all)
  have next_at: "\<exists>m' its'. merge_next SSTableIterator_interface (length its + 1) (m, (t, its)) = (m', (t, its'))
      \<and> sst.merge_at m' (t, its') r \<and> mi_sources m' = mi_sources m \<and> map it_reader its' = map it_reader its"
    if "sst.merge_at m (t, its) (e # r)" for t
    using sst.merge_at_next [OF that, of "length its + 1"] Cons.prems(2) by (auto simp: sst_keeps_def)
  show ?case
  proof (cases "is_tombstone v \<and> full")
    case True
    obtain m' its' where nx: "merge_next SSTableIterator_interface (length its + 1) (m, (s, its)) = (m', (s, its'))"
        "sst.merge_at m' (s, its') r" "mi_sources m' = mi_sources m" "map it_reader its' = map it_reader its"
      using next_at [OF Cons.prems(1)] by (elim exE conjE)
    from step [OF nx(1) refl nx(2-4) Cons.prems(4,5) refl] True m n nx(1) e show ?thesis
      by (simp add: compact_loop.simps [of "Suc n"] kept_entries_Cons)
  next
    case False
    obtain t w' where a: "sst_add (s, w) k v = (Inr (), (t, w'))"
      using sst_add_quiet [OF Cons.prems(4,6,7), of k v] by auto
    note st = sst_add_state [OF a Cons.prems(4,6,5)]
    have s: "s = fs_append s0 (sw_fh w) (sw_flushed got)" by (rule wrote_eq [OF Cons.prems(4,7)])
    have t: "t = fs_append s0 (sw_fh w) (sw_flushed (got @ [(k, v)]))" using st Cons.prems(7) by (blast intro: wrote_eq)
    have kt: "kept s t" unfolding s t using sw_flushed_grows [of got "(k, v)"] Cons.prems(8) by auto
    have at: "answers t = []" using t Cons.prems(7) by simp
    have "sst_ahead (t, its) i es" if "sst_ahead (s, its) i es" for i es
      by (rule sst_ahead_transfer [OF that at]) (use kt in \<open>simp add: kept_def\<close>)
    with Cons.prems(1) have "sst.merge_at m (t, its) (e # r)" by (rule sst.merge_at_transfer)
    from next_at [OF this] obtain m' its' where nx: "merge_next SSTableIterator_interface (length its + 1) (m, (t, its)) = (m', (t, its'))"
        "sst.merge_at m' (t, its') r" "mi_sources m' = mi_sources m" "map it_reader its' = map it_reader its" by (elim exE conjE)
    have "wrote s0 (sw_fh w') (sw_flushed (got @ [(k, v)])) t" "sw_state f0 (got @ [(k, v)]) w'" "sw_fh w' = sw_fh w" using st by simp_all
    from step [OF nx(1) refl nx(2-4) this] False m n nx(1) a e show ?thesis
      by (auto simp: compact_loop.simps [of "Suc n"] kept_entries_Cons)
  qed
qed

section \<open>The whole compaction\<close>

lemma SSTableWriter_create_new:
  assumes "answers s = []" and "0 \<le> next_fd s" and "map_of (dir s) path = None" and "is_directory s (parent_of path)"
    and "BloomFilter_create n (1 / 100) = ok f0"
  shows "\<exists>w. SSTableWriter_create s path n = (ok w, fs_fresh s path Write) \<and> sw_fh w = FileHandle (next_fd s)
     \<and> sw_state f0 [] w \<and> appendable (fs_fresh s path Write) (sw_fh w)"
proof -
  have "appendable (fs_fresh s path Write) (FileHandle (next_fd s))"
    using fs_opened_handle(3) [of "create_file s path" "next_ino s" "\<lparr>contents = [], durable = []\<rparr>" Write] assms(2) by simp
  then show ?thesis
    using posix_open_new [OF assms(1,3) _ assms(4), of Write] assms(5)
    by (simp add: SSTableWriter_create_def sw_state_def block_first_key_def max_seq_def ok_def)
qed

lemma sum_block_sizes: "sum_list (map block_size (index_of off bs)) = length (block_image (concat bs))"
  by (induction bs arbitrary: off) simp_all

lemma length_merged: "merged_of (set es) r \<Longrightarrow> length r \<le> length es"
proof -
  assume r: "merged_of (set es) r"
  then have "distinct (map fst r)" by (simp add: merged_of_def strict_sorted_iff)
  then have "length r = card (fst ` set r)" by (metis distinct_card length_map set_map)
  also have "\<dots> = card (set (map fst es))" using r by (simp add: merged_of_def)
  also have "\<dots> \<le> length es" by (metis card_length length_map)
  finally show ?thesis .
qed

lemma input_bytes_readers: "map it_reader its = map it_reader its' \<Longrightarrow> input_bytes its = input_bytes its'"
proof -
  assume "map it_reader its = map it_reader its'"
  then have "map (\<lambda>rd. sum_list (map block_size (sr_index_entries rd))) (map it_reader its)
      = map (\<lambda>rd. sum_list (map block_size (sr_index_entries rd))) (map it_reader its')" by (rule arg_cong)
  then show ?thesis by (simp add: input_bytes_def comp_def)
qed

lemma input_bytes_ge:
  assumes "length tbls = length its" and "\<And>i. i < length its \<Longrightarrow> sr_index_entries (it_reader (its ! i)) = index_of 0 (sst_blocks (tbls ! i))"
  shows "length (concat tbls) \<le> input_bytes its"
proof -
  have "map (\<lambda>it. sum_list (map block_size (sr_index_entries (it_reader it)))) its = map (length \<circ> block_image) tbls"
    using assms by (intro nth_equalityI) (simp_all add: sum_block_sizes concat_sst_blocks)
  moreover have "length (concat tbls) \<le> sum_list (map (length \<circ> block_image) tbls)"
    unfolding length_concat comp_def by (intro sum_list_mono) (use length_entries_le [of _ 0] in auto)
  ultimately show ?thesis by (simp add: input_bytes_def)
qed

lemma compact_write_ok:
  assumes "fs_wf s" and "answers s = []" and "map_of (dir s) (sst_path d n) = None" and "is_directory s (d @ ''/sst'')"
    and "length tbls = length its" and "consistent (set (concat tbls))" and "merged_of (set (concat tbls)) r"
    and "\<And>i. i < length its \<Longrightarrow> reader_on s (it_reader (its ! i)) (tbls ! i) \<and> blocks_filled (tbls ! i)"
    and "BloomFilter_create ks (1 / 100) = ok f0" and "out = kept_entries full r"
  shows "compact_write d its ks n full s
     = (ok (SSTableId n), fs_stored s (sst_path d n) (sst_image out (foldl bloom_add f0 (map fst out))))"
proof -
  let ?p = "sst_path d n"
  let ?t = "fs_fresh s ?p Write"
  have fd: "0 \<le> next_fd s" using assms(1) by (simp add: fs_wf_def)
  have pd: "is_directory s (parent_of ?p)" using assms(4) by (simp add: parent_sst_path)
  obtain w where w: "SSTableWriter_create s ?p ks = (ok w, ?t)" "sw_fh w = FileHandle (next_fd s)" "sw_state f0 [] w" "appendable ?t (sw_fh w)"
    using SSTableWriter_create_new [OF assms(2) fd assms(3) pd assms(9)] by (elim exE conjE)
  obtain st w' where fin: "sst_add_all (?t, w) out = (Inr (), st)"
      "sst_finish st = (Inr (), (fs_stored s ?p (sst_image out (foldl bloom_add f0 (map fst out))), w'))"
    using sst_write_table [OF assms(2) fd assms(3) pd assms(9), of out] w(1) by auto
  have kt: "kept s ?t" by (rule fs_fresh_kept [OF assms(1,3)])
  have "reader_on ?t (it_reader (its ! i)) (tbls ! i) \<and> blocks_filled (tbls ! i)" if "i < length its" for i
    using assms(8) [OF that] kt by (simp add: kept_def)
  from sst_merge_start [OF _ assms(5,6) this assms(7), of "length its + 1"] assms(2) obtain m its' where
    m: "merge_seek_to_first SSTableIterator_interface (length its + 1) (MergeIterator_create [0..<length its], (?t, its)) = (m, (?t, its'))"
      "sst.merge_at m (?t, its') r" "map it_reader its' = map it_reader its" "mi_sources m = [0..<length its]" by auto
  have len: "length its' = length its" using m(3) by (metis length_map)
  have "length (concat tbls) \<le> input_bytes its"
    by (rule input_bytes_ge [OF assms(5)]) (use assms(8) in \<open>simp add: reader_on_def\<close>)
  then have fuel: "length r \<le> input_bytes its'"
    using length_merged [OF assms(7)] input_bytes_readers [OF m(3)] by simp
  have unr: "unread ?t (next_ino s)" using fs_fresh_unread [OF assms(1), of Write] by simp
  have kp: "kept (fs_append ?t (sw_fh w) a) (fs_append ?t (sw_fh w) (a @ b))" for a b
  proof -
    obtain g x where g: "fd_file (fs_append ?t (sw_fh w) a) (next_fd s) = Some (g, x)" "of_ino g = next_ino s"
      using fd_file_fs_append [of ?t "sw_fh w" _ _ a] fs_fresh_file [of s ?p Write] w(2) by (auto simp: mode_file_def)
    have "unread (fs_append ?t (sw_fh w) a) (of_ino g)"
      using unr fs_fresh_file [of s ?p Write] g(2) w(2) by (auto simp: unread_def fs_append_def mode_file_def split: if_splits)
    from kept_append [OF _ this, of "sw_fh w" x b] g(1) w(2) show ?thesis by simp
  qed
  have "compact_loop (input_bytes its') full (m, its') (?t, w) = sst_add_all (?t, w) out"
    unfolding assms(10)
    by (rule compact_loop_adds [OF m(2) _ fuel _ w(3,4) _ kp]) (use m(4) len assms(2) in \<open>simp_all add: sw_flushed_def\<close>)
  with w(1) m(1) fin show ?thesis by (simp add: compact_write_def ok_def)
qed

lemma sum_list_subset:
  fixes f :: "'a \<Rightarrow> nat"
  assumes "distinct xs" and "set xs \<subseteq> set ys"
  shows "sum_list (map f xs) \<le> sum_list (map f ys)"
proof -
  have "sum f (set ys) \<le> sum_list (map f ys)" by (induction ys) (auto simp: sum.insert_if)
  moreover have "sum_list (map f xs) = sum f (set xs)" using assms(1) by (rule sum_list_distinct_conv_sum_set)
  moreover have "sum f (set xs) \<le> sum f (set ys)" using assms(2) by (intro sum_mono2) auto
  ultimately show ?thesis by linarith
qed

lemma length_block_image: "length (block_image es) = sum_list (map (length \<circ> entry_image) es)"
  by (induction es) simp_all

lemma length_kept_image:
  assumes "merged_of (set es) r"
  shows "length (block_image (kept_entries full r)) \<le> length (block_image es)"
proof -
  have "distinct (map fst r)" using assms by (simp add: merged_of_def strict_sorted_iff)
  then have "distinct (kept_entries full r)" by (simp add: kept_entries_def distinct_map)
  moreover have "set (kept_entries full r) \<subseteq> set es" using assms by (auto simp: kept_entries_def merged_of_def)
  ultimately show ?thesis unfolding length_block_image by (rule sum_list_subset)
qed

lemma block_image_concat: "length (block_image (concat tbls)) = sum_list (map (length \<circ> block_image) tbls)"
  by (induction tbls) simp_all

lemma is_directory_same: "same_files s t \<Longrightarrow> is_directory t p = is_directory s p"
  by (simp add: same_files_def is_directory_def)

lemma compact_ok:
  assumes "tc_ok d tables live (s, c)" and "set inputs \<subseteq> live" and "map_of (dir s) (sst_path d n) = None"
    and "is_directory s (d @ ''/sst'')" and "tables (SSTableId n) = None"
    and "tbls = map (\<lambda>sid. the (tables sid)) inputs"
    and "consistent (set (concat tbls))" and "merged_of (set (concat tbls)) r" and "\<forall>tbl \<in> set tbls. blocks_filled tbl"
    and "concat tbls \<noteq> []" and "length (block_image (concat tbls)) < 2 ^ 28"
    and "out = kept_entries full r"
  shows "\<exists>s1 img e. compact d inputs n full (s, c) = (ok (SSTableId n), (fs_stored s1 (sst_path d n) img, e))
     \<and> tc_ok d (tables(SSTableId n \<mapsto> out)) (insert (SSTableId n) live) (fs_stored s1 (sst_path d n) img, e)
     \<and> same_files s s1 \<and> kept s (fs_stored s1 (sst_path d n) img) \<and> fs_wf s1 \<and> (\<forall>H. sc.pinned c H \<longrightarrow> sc.pinned e H)"
proof -
  let ?p = "sst_path d n"
  let ?ks = "sum_list (map (\<lambda>sid. length (the (tables sid))) inputs)"
  have ks: "?ks = length (concat tbls)" by (simp add: assms(6) length_concat comp_def)
  obtain rs s1 c1 where o: "open_inputs d inputs 0 [] (s, c) = (ok ?ks, rs, (s1, c1))" "length rs = length inputs"
      "\<forall>i < length inputs. good_reader s1 (fst (rs ! i)) (the (tables (inputs ! i)))" "tc_ok d tables live (s1, c1)" "kept s s1"
      "same_files s s1" "\<forall>H. sc.pinned c H \<longrightarrow> sc.pinned c1 (mset (map snd rs) + H)"
    using open_inputs_ok [OF assms(1,2), of 0 "[]"] by auto
  note ok = tc_okD [OF o(4)]
  have dir: "map_of (dir s1) ?p = None" "is_directory s1 (d @ ''/sst'')"
    using assms(3,4) o(6) is_directory_same [OF o(6)] by (simp_all add: same_files_def)
  have "0 < ?ks" using assms(10) ks by simp
  then obtain f0 where f0: "BloomFilter_create ?ks (1 / 100) = ok f0" using BloomFilter_create_wf [of ?ks] by auto
  let ?its = "map (SSTableIterator_create \<circ> fst) rs"
  let ?f = "foldl bloom_add f0 (map fst out)"
  let ?t = "fs_stored s1 ?p (sst_image out ?f)"
  have "reader_on s1 (it_reader (?its ! i)) (tbls ! i) \<and> blocks_filled (tbls ! i)" if "i < length ?its" for i
    using that o(2,3) assms(6,9) by (auto simp: good_reader_def SSTableIterator_create_def)
  then have w: "compact_write d ?its ?ks n full s1 = (ok (SSTableId n), ?t)"
    using o(2) assms(6) by (intro compact_write_ok [OF ok(1,2) dir _ assms(7,8) _ f0 assms(12)]) simp_all
  have "ordered out" using assms(8,12) by (simp add: merged_of_def ordered_kept_entries)
  moreover have "length (block_image out) < 2 ^ 29" using length_kept_image [OF assms(8), of full] assms(11,12) by simp
  moreover have "?ks < 2 ^ 24" unfolding ks using length_es_image [of "concat tbls"] assms(11) by simp
  ultimately have "table_ok out ?f" by (rule table_ok_written [OF f0])
  note files = files_ok_stored [OF ok(5) dir(1) this assms(5)]
  have kt: "kept s1 ?t" by (rule kept_stored [OF ok(1) dir(1)])
  have "tables \<subseteq>\<^sub>m tables(SSTableId n \<mapsto> out)" using assms(5) by (auto simp: map_le_def)
  note tc = tc_ok_files [OF o(4) kt files this]
  have rel: "\<exists>e. release_readers (map snd rs) (?t, c1) = (ok (), (?t, e))
      \<and> tc_ok d (tables(SSTableId n \<mapsto> out)) (insert (SSTableId n) live) (?t, e) \<and> sc.pinned e H" if "sc.pinned c H" for H
    using release_readers_ok [OF tc] o(7) that by blast
  from rel [of "{#}"] obtain e where e: "release_readers (map snd rs) (?t, c1) = (ok (), (?t, e))"
      "tc_ok d (tables(SSTableId n \<mapsto> out)) (insert (SSTableId n) live) (?t, e)" by auto
  have "\<forall>H. sc.pinned c H \<longrightarrow> sc.pinned e H" using rel e(1) by auto
  moreover have "compact d inputs n full (s, c) = (ok (SSTableId n), (?t, e))"
    using o(1) w e(1) by (simp add: compact_def)
  ultimately show ?thesis using e(2) o(6) ok(1) kept_trans [OF o(5) kt] by (intro exI [of _ s1] exI conjI)
qed

end
