(* ===== verification/Memtable.thy ===== *)
theory Memtable
  imports Storage_Types Ordered_Map
begin

text \<open>
  memtable.h and memtable.cpp: the sorted in-memory write buffer. Its state is the ordered map of
  entries, the running estimate of its size and the flush threshold. The invariant is that the
  entries are in key order, tombstones carry no data and the estimate is exact, so that the
  unsigned subtraction in \<open>put\<close> and \<open>remove\<close> never wraps.
\<close>

record Memtable =
  mt_bytes :: nat
  max_memtable_size :: nat
  entries :: "entry list"

definition Memtable_create :: "nat \<Rightarrow> Memtable" where
  "Memtable_create flush_after = \<lparr>mt_bytes = 0, max_memtable_size = flush_after, entries = []\<rparr>"

definition memtable_put :: "Memtable \<Rightarrow> Key \<Rightarrow> bytes \<Rightarrow> u64 \<Rightarrow> Memtable" where
  "memtable_put m key value seq =
     (let memtable_value = \<lparr>data = value, is_tombstone = False, sequence = seq\<rparr>;
          to_add = length (data memtable_value);
          to_remove = (case map_find (entries m) key of Some e \<Rightarrow> length (data e) | None \<Rightarrow> 0);
          to_add = (case map_find (entries m) key of Some _ \<Rightarrow> to_add | None \<Rightarrow> to_add + key_size key)
      in m\<lparr>entries := map_assign key memtable_value (entries m),
           mt_bytes := mt_bytes m + to_add - to_remove\<rparr>)"

definition memtable_remove :: "Memtable \<Rightarrow> Key \<Rightarrow> u64 \<Rightarrow> Memtable" where
  "memtable_remove m key seq =
     (let to_remove = (case map_find (entries m) key of Some e \<Rightarrow> length (data e) | None \<Rightarrow> 0);
          to_add = (case map_find (entries m) key of Some _ \<Rightarrow> 0 | None \<Rightarrow> key_size key)
      in m\<lparr>entries := map_assign key \<lparr>data = [], is_tombstone = True, sequence = seq\<rparr> (entries m),
           mt_bytes := mt_bytes m + to_add - to_remove\<rparr>)"

definition memtable_get :: "Memtable \<Rightarrow> Key \<Rightarrow> InternalValue option" where
  "memtable_get m key = map_find (entries m) key"

definition approximate_size :: "Memtable \<Rightarrow> nat" where
  "approximate_size m = mt_bytes m"

definition should_flush :: "Memtable \<Rightarrow> bool" where
  "should_flush m = (if mt_bytes m \<ge> max_memtable_size m then True else False)"

definition memtable_count :: "Memtable \<Rightarrow> nat" where
  "memtable_count m = length (entries m)"

section \<open>Invariant\<close>

definition entry_bytes :: "entry \<Rightarrow> nat" where
  "entry_bytes e = key_size (fst e) + length (data (snd e))"

lemma entry_bytes_pair [simp]: "entry_bytes (k, v) = key_size k + length (data v)"
  by (simp add: entry_bytes_def)

definition memtable_inv :: "Memtable \<Rightarrow> bool" where
  "memtable_inv m \<longleftrightarrow> ordered (entries m) \<and> mt_bytes m = sum_list (map entry_bytes (entries m))
     \<and> (\<forall>(k, v) \<in> set (entries m). is_tombstone v \<longrightarrow> data v = [])"

lemma sum_entry_bytes_assign:
  "ordered m \<Longrightarrow> sum_list (map entry_bytes (map_assign k v m)) =
   sum_list (map entry_bytes m)
   + (case map_of m k of Some _ \<Rightarrow> length (data v) | None \<Rightarrow> length (data v) + key_size k)
   - (case map_of m k of Some e \<Rightarrow> length (data e) | None \<Rightarrow> 0)"
proof (induction m)
  case (Cons e m)
  obtain k' v' where e: "e = (k', v')" by (cases e)
  have "map_of m k = None" if "k < k'"
    using Cons.prems that e by (auto simp: map_of_eq_None_iff)
  moreover have "length (data w) \<le> sum_list (map entry_bytes m)" if "map_of m k = Some w" for w
  proof -
    have "entry_bytes (k, w) \<le> sum_list (map entry_bytes m)"
      using map_of_SomeD [OF that] by (intro member_le_sum_list) (force, simp)
    then show ?thesis by simp
  qed
  ultimately show ?case
    using Cons e by (auto split: option.splits)
qed simp

lemma memtable_inv_create [simp]: "memtable_inv (Memtable_create n)"
  by (simp add: memtable_inv_def Memtable_create_def)

lemma memtable_inv_put: "memtable_inv m \<Longrightarrow> memtable_inv (memtable_put m k v s)"
  using set_map_assign(1) [of k "\<lparr>data = v, is_tombstone = False, sequence = s\<rparr>" "entries m"]
  by (fastforce simp: memtable_inv_def memtable_put_def Let_def map_find_def sum_entry_bytes_assign
      omap.invar_assign split: option.splits)

lemma memtable_inv_remove: "memtable_inv m \<Longrightarrow> memtable_inv (memtable_remove m k s)"
  using set_map_assign(1) [of k "\<lparr>data = [], is_tombstone = True, sequence = s\<rparr>" "entries m"]
  by (fastforce simp: memtable_inv_def memtable_remove_def Let_def map_find_def sum_entry_bytes_assign
      omap.invar_assign split: option.splits)

lemma memtable_put_simps [simp]:
  "max_memtable_size (memtable_put m k v s) = max_memtable_size m"
  "entries (memtable_put m k v s)
   = map_assign k \<lparr>data = v, is_tombstone = False, sequence = s\<rparr> (entries m)"
  by (simp_all add: memtable_put_def Let_def)

lemma memtable_remove_simps [simp]:
  "max_memtable_size (memtable_remove m k s) = max_memtable_size m"
  "entries (memtable_remove m k s)
   = map_assign k \<lparr>data = [], is_tombstone = True, sequence = s\<rparr> (entries m)"
  by (simp_all add: memtable_remove_def Let_def)

lemma memtable_get_put:
  "memtable_get (memtable_put m k v s)
   = (memtable_get m)(k \<mapsto> \<lparr>data = v, is_tombstone = False, sequence = s\<rparr>)"
  by (simp add: memtable_get_def [abs_def] map_find_def map_of_assign)

lemma memtable_get_remove:
  "memtable_get (memtable_remove m k s)
   = (memtable_get m)(k \<mapsto> \<lparr>data = [], is_tombstone = True, sequence = s\<rparr>)"
  by (simp add: memtable_get_def [abs_def] map_find_def map_of_assign)

lemma memtable_get_create [simp]: "memtable_get (Memtable_create n) k = None"
  by (simp add: memtable_get_def Memtable_create_def map_find_def)

section \<open>Properties\<close>

text \<open>A sequence of writes, as the engine and the recovery apply them.\<close>

datatype wop = Put Key bytes u64 | Remove Key u64

fun apply_write :: "Memtable \<Rightarrow> wop \<Rightarrow> Memtable" where
  "apply_write m (Put k v s) = memtable_put m k v s"
| "apply_write m (Remove k s) = memtable_remove m k s"

lemma memtable_inv_writes: "memtable_inv m \<Longrightarrow> memtable_inv (foldl apply_write m ws)"
proof (induction ws arbitrary: m)
  case (Cons w ws)
  then show ?case by (cases w) (simp_all add: memtable_inv_put memtable_inv_remove)
qed simp

text \<open>
  C24. After any sequence of puts and removes the size estimate of a memtable is exactly the sum
  of the key and value bytes of its entries, and its entries are in strictly increasing key
  order.
\<close>

theorem memtable_size_exact:
  "approximate_size (foldl apply_write (Memtable_create n) ws)
   = (\<Sum>e \<leftarrow> entries (foldl apply_write (Memtable_create n) ws). entry_bytes e)
   \<and> sorted_wrt (<) (map fst (entries (foldl apply_write (Memtable_create n) ws)))"
  using memtable_inv_writes [OF memtable_inv_create, of n ws]
  by (simp add: memtable_inv_def approximate_size_def)

end
