(* ===== verification/Wal.thy ===== *)
theory Wal
  imports Storage_Types Encoding Crc32 Io_Engine
begin

text \<open>
  The write-ahead log: wal_record.cpp, wal_writer.cpp and wal_reader.cpp. The operation type is an
  enum over \<open>uint8_t\<close> that the reader casts unchecked, so it is a byte with two named values.
  Lengths are \<open>size_t\<close> (natural numbers) until they are stored in 32 bits, where they wrap.
\<close>

type_synonym WalOpType = u8

definition PUT_ROW :: WalOpType where "PUT_ROW = 0x01"
definition DELETE_ROW :: WalOpType where "DELETE_ROW = 0x02"

record WalRecord =
  op_type :: WalOpType
  timestamp :: u64
  wal_sequence :: u64
  wal_key :: Key
  wal_value :: bytes

section \<open>Records\<close>

definition get_record_size :: "WalRecord \<Rightarrow> nat" where
  "get_record_size record =
     4 + 4 + 1 + 8 + 8 + (key_size (wal_key record) + 4) + (length (wal_value record) + 4)"

definition serialize_wal_record :: "WalRecord \<Rightarrow> bytes" where
  "serialize_wal_record record =
     (let buf = replicate (get_record_size record) 0;
          (buf, offset) = encode_uint32 0 buf 0;
          (buf, offset) = encode_uint32 0 buf offset;
          (buf, offset) = encode_uint8 (op_type record) buf offset;
          (buf, offset) = encode_uint64 (timestamp record) buf offset;
          (buf, offset) = encode_uint64 (wal_sequence record) buf offset;
          key_length = key_size (wal_key record);
          (buf, offset) = encode_uint32 (word_of_nat key_length) buf offset;
          (buf, offset) =
            (if key_length > 0
             then (overwrite buf offset (key_bytes (wal_key record)), offset + key_length)
             else (buf, offset));
          value_length = length (wal_value record);
          (buf, offset) = encode_uint32 (word_of_nat value_length) buf offset;
          (buf, offset) =
            (if value_length > 0
             then (overwrite buf offset (wal_value record), offset + value_length)
             else (buf, offset));
          body_length = offset - 8;
          checksum = compute_crc_32 (take body_length (drop 8 buf));
          (buf, _) = encode_uint32 (word_of_nat body_length) buf 0;
          (buf, _) = encode_uint32 checksum buf 4
      in buf)"

definition MIN_RECORD_SIZE :: nat where "MIN_RECORD_SIZE = 33"

text \<open>
  The read of \<open>value_len\<close> is not guarded by the code: when the key ends less than four bytes
  before the end of the buffer it reads outside of it.
\<close>

definition deserialize_wal_record :: "bytes \<Rightarrow> nat \<Rightarrow> WalRecord result" where
  "deserialize_wal_record buffer len =
     (if len < MIN_RECORD_SIZE then err READ_OUT_OF_RANGE ''buffer too small for WAL record''
      else
        let body_length = decode_uint32 buffer 0;
            checksum = decode_uint32 buffer 4
        in
        if unat body_length > len - 8 then err READ_OUT_OF_RANGE ''out of range''
        else if checksum \<noteq> compute_crc_32 (take (unat body_length) (drop 8 buffer))
        then err BAD_CONFIG ''checksum mismatch corrupted data found''
        else
          let op = decode_uint8 buffer 8;
              ts = decode_uint64 buffer 9;
              seq = decode_uint64 buffer 17;
              key_len = unat (decode_uint32 buffer 25);
              offset = 29
          in
          if offset + key_len > len then err READ_OUT_OF_RANGE ''key out of range''
          else
            let key = take key_len (drop offset buffer);
                offset = offset + key_len
            in
            if offset + 4 > len then abort ''read of value_len outside the buffer''
            else
              let value_len = unat (decode_uint32 buffer offset);
                  offset = offset + 4
              in
              if offset + value_len > len then err READ_OUT_OF_RANGE ''value out of range''
              else ok \<lparr>op_type = op, timestamp = ts, wal_sequence = seq, wal_key = Key key,
                       wal_value = take value_len (drop offset buffer)\<rparr>)"

section \<open>Writer and reader\<close>

record WalWriter =
  ww_path :: string
  ww_fh :: FileHandle

definition WalWriter_create :: "fs \<Rightarrow> string \<Rightarrow> WalWriter result \<times> fs" where
  "WalWriter_create s path =
     attempt (posix_open s path Append) (\<lambda>fh s. (ok \<lparr>ww_path = path, ww_fh = fh\<rparr>, s))"

definition wal_append :: "fs \<Rightarrow> WalWriter \<Rightarrow> WalRecord \<Rightarrow> unit result \<times> fs" where
  "wal_append s writer record =
     (let serialized = serialize_wal_record record
      in attempt (posix_append s (ww_fh writer) serialized) (\<lambda>_ s. (ok (), s)))"

definition wal_sync :: "fs \<Rightarrow> WalWriter \<Rightarrow> unit result \<times> fs" where
  "wal_sync s writer = attempt (posix_sync_data s (ww_fh writer)) (\<lambda>_ s. (ok (), s))"

record WalReader =
  wr_path :: string
  wr_fh :: FileHandle
  wr_offset :: nat

definition WalReader_create :: "fs \<Rightarrow> string \<Rightarrow> WalReader result \<times> fs" where
  "WalReader_create s path =
     attempt (posix_open s path Read) (\<lambda>fh s. (ok \<lparr>wr_path = path, wr_fh = fh, wr_offset = 0\<rparr>, s))"

text \<open>
  \<open>body_length + 8\<close> and \<open>8 + body_length\<close> are computed in 32 bits. The number of bytes of the
  second read is not inspected: what a short file lacks stays zero in the buffer.
\<close>

definition wal_next :: "fs \<times> WalReader \<Rightarrow> WalRecord result \<times> (fs \<times> WalReader)" where
  "wal_next st =
     (let (s, reader) = st in
      case posix_read s (wr_fh reader) 8 (replicate 9 0) (wr_offset reader) of
        (Inl e, s) \<Rightarrow> (Inl e, (s, reader))
      | (Inr (bytes_read, header_buffer), s) \<Rightarrow>
          if bytes_read = 0 then (err ERR_EOF ''end of WAL file'', (s, reader))
          else
            let body_length = decode_uint32 header_buffer 0 in
            if body_length < 25 then (err ERR_EOF ''wal reader encountered eof'', (s, reader))
            else
              let size = unat (body_length + 8) in
              (case posix_read s (wr_fh reader) size (replicate size 0) (wr_offset reader) of
                 (Inl e, s) \<Rightarrow> (Inl e, (s, reader))
               | (Inr (_, record_buffer), s) \<Rightarrow>
                   let reader = reader\<lparr>wr_offset := wr_offset reader + unat (8 + body_length)\<rparr>
                   in (deserialize_wal_record record_buffer size, (s, reader))))"

section \<open>The image of a record\<close>

definition wal_body :: "WalRecord \<Rightarrow> bytes" where
  "wal_body r = [op_type r] @ be 8 (timestamp r) @ be 8 (wal_sequence r)
     @ be 4 (word_of_nat (key_size (wal_key r)) :: u32) @ key_bytes (wal_key r)
     @ be 4 (word_of_nat (length (wal_value r)) :: u32) @ wal_value r"

definition wal_image :: "WalRecord \<Rightarrow> bytes" where
  "wal_image r = be 4 (word_of_nat (length (wal_body r)) :: u32) @ be 4 (compute_crc_32 (wal_body r)) @ wal_body r"

lemma length_wal_body: "length (wal_body r) = 25 + key_size (wal_key r) + length (wal_value r)"
  by (simp add: wal_body_def key_size_def)

lemma length_wal_image [simp]: "length (wal_image r) = get_record_size r"
  by (simp add: wal_image_def length_wal_body get_record_size_def)

lemma overwrite_extend:
  "off = length xs \<Longrightarrow> off + length ys \<le> length b \<Longrightarrow>
   overwrite (overwrite b 0 xs) off ys = overwrite b 0 (xs @ ys)"
  by (rule overwrite_twice') simp_all

lemma overwrite_header:
  "length hs = 8 \<Longrightarrow> overwrite (be 4 (0::u32) @ be 4 (0::u32) @ body) 0 hs = hs @ body"
  by (simp add: overwrite_def)

lemma serialize_wal_image: "serialize_wal_record r = wal_image r"
  by (simp add: serialize_wal_record_def codec_simps overwrite_extend overwrite_all overwrite_header
      key_size_def get_record_size_def Let_def wal_body_def wal_image_def)

section \<open>Reading back\<close>

lemma deserialize_wal_image:
  assumes "get_record_size r < 2 ^ 32"
  shows "deserialize_wal_record (wal_image r) (get_record_size r) = ok r"
proof -
  have len: "unat (word_of_nat (length (wal_body r)) :: u32) = length (wal_body r)"
      "unat (word_of_nat (key_size (wal_key r)) :: u32) = key_size (wal_key r)"
      "unat (word_of_nat (length (wal_value r)) :: u32) = length (wal_value r)"
    by (rule unat_word_of_nat_eq; use assms in \<open>simp add: length_wal_body get_record_size_def\<close>)+
  have fields: "decode_uint32 (wal_image r) 0 = word_of_nat (length (wal_body r))"
      "decode_uint32 (wal_image r) 4 = compute_crc_32 (wal_body r)"
      "decode_uint8 (wal_image r) 8 = op_type r"
      "decode_uint64 (wal_image r) 9 = timestamp r"
      "decode_uint64 (wal_image r) 17 = wal_sequence r"
      "decode_uint32 (wal_image r) 25 = word_of_nat (key_size (wal_key r))"
    by (rule codec_simps; simp add: wal_image_def wal_body_def key_size_def get_record_size_def)+
  define front where "front = be 4 (word_of_nat (length (wal_body r)) :: u32) @ be 4 (compute_crc_32 (wal_body r))
      @ [op_type r] @ be 8 (timestamp r) @ be 8 (wal_sequence r)
      @ be 4 (word_of_nat (key_size (wal_key r)) :: u32) @ key_bytes (wal_key r)"
  have front: "wal_image r = front @ be 4 (word_of_nat (length (wal_value r)) :: u32) @ wal_value r"
      "length front = 29 + key_size (wal_key r)"
    by (simp_all add: front_def wal_image_def wal_body_def key_size_def)
  have vlen: "decode_uint32 (wal_image r) (29 + key_size (wal_key r)) = word_of_nat (length (wal_value r))"
    by (rule codec_simps) (simp_all add: front)
  have "take (length (wal_body r)) (drop 8 (wal_image r)) = wal_body r"
    and "take (key_size (wal_key r)) (drop 29 (wal_image r)) = key_bytes (wal_key r)"
    by (simp_all add: wal_image_def wal_body_def key_size_def)
  moreover have "drop (29 + key_size (wal_key r) + 4) (wal_image r) = wal_value r"
    by (simp add: front)
  moreover have "get_record_size r - 8 = length (wal_body r)"
      "33 + key_size (wal_key r) + length (wal_value r) = get_record_size r"
    by (simp_all add: length_wal_body get_record_size_def)
  ultimately show ?thesis
    by (simp add: deserialize_wal_record_def fields vlen len MIN_RECORD_SIZE_def Let_def)
qed

text \<open>The reader takes the bytes of a whole record from the file, whether its body is intact or not.\<close>

lemma wal_next_reads:
  assumes "answers s = []" and "readable s (wr_fh rd)" and "view s (wr_fh rd) = Some (pre @ b @ post)"
    and "wr_offset rd = length pre" and "get_record_size r < 2 ^ 32" and "length b = get_record_size r" and "take 8 b = take 8 (wal_image r)"
  shows "wal_next (s, rd) = (deserialize_wal_record b (get_record_size r), (s, rd\<lparr>wr_offset := length pre + get_record_size r\<rparr>))"
proof -
  let ?body = "word_of_nat (length (wal_body r)) :: u32"
  let ?hd = "overwrite (replicate 9 0) 0 (take 8 b) :: bytes"
  have size: "get_record_size r = length (wal_body r) + 8"
    by (simp add: get_record_size_def length_wal_body)
  with assms(5) have u: "unat ?body = length (wal_body r)" by (intro unat_word_of_nat_eq) simp
  have sum: "unat (?body + 8) = get_record_size r"
    using assms(5) size by (simp add: unat_word_ariths u)
  have slice: "take n (drop (length pre) (pre @ b @ post)) = take n b"
    if "n \<le> get_record_size r" for n
    using that assms(6) by simp
  have h: "decode_uint32 ?hd 0 = ?body"
    unfolding assms(7) by (rule codec_simps) (simp_all add: overwrite_def wal_image_def)
  have "25 \<le> length (wal_body r)" by (simp add: length_wal_body)
  then have "\<not> ?body < 25" by (simp add: word_less_nat_alt u)
  moreover have "posix_read s (wr_fh rd) 8 (replicate 9 0) (length pre) = (ok (8, ?hd), s)"
    using posix_read_ok [OF assms(1-3), of 8 "replicate 9 0" "length pre"] size assms(6) by (simp add: slice)
  moreover have "posix_read s (wr_fh rd) (get_record_size r) (replicate (get_record_size r) 0) (length pre)
      = (ok (get_record_size r, b), s)"
    using posix_read_ok [OF assms(1-3), of "get_record_size r" "replicate (get_record_size r) 0" "length pre"] assms(6)
    by (simp add: slice overwrite_all)
  ultimately show ?thesis
    by (simp add: wal_next_def assms(4) h sum add.commute [of 8] ok_def Let_def)
qed

lemma wal_next_record:
  assumes "answers s = []" and "readable s (wr_fh rd)" and "view s (wr_fh rd) = Some (pre @ wal_image r @ post)"
    and "wr_offset rd = length pre" and "get_record_size r < 2 ^ 32"
  shows "wal_next (s, rd) = (ok r, (s, rd\<lparr>wr_offset := length pre + get_record_size r\<rparr>))"
  using wal_next_reads [OF assms] by (simp add: deserialize_wal_image [OF assms(5)])

lemma wal_next_eof:
  assumes "answers s = []" and "readable s (wr_fh rd)" and "view s (wr_fh rd) = Some c"
    and "length c \<le> wr_offset rd"
  shows "wal_next (s, rd) = (err ERR_EOF ''end of WAL file'', (s, rd))"
  using posix_read_ok [OF assms(1-3), of 8 "replicate 9 0" "wr_offset rd"] assms(4)
  by (simp add: wal_next_def ok_def)

text \<open>
  A step of the reader that succeeds starts inside the file, moves forward and leaves the file
  alone, under every schedule of faults. The recovery loop ends because of it.
\<close>

lemma deserialize_ok_size: "deserialize_wal_record b n = Inr r \<Longrightarrow> 33 \<le> n"
  by (auto simp: deserialize_wal_record_def MIN_RECORD_SIZE_def split: if_splits)

lemma wal_next_progress:
  assumes "wal_next (s, rd) = (Inr r, (t, rd'))"
  obtains a c where "t = s\<lparr>answers := a\<rparr>" and "view s (wr_fh rd) = Some c" and "wr_offset rd < length c"
    and "wr_offset rd < wr_offset rd'" and "wr_fh rd' = wr_fh rd"
proof -
  let ?fh = "wr_fh rd" and ?off = "wr_offset rd"
  from assms obtain n h s1 where r1: "posix_read s ?fh 8 (replicate 9 0) ?off = (Inr (n, h), s1)" and n: "n \<noteq> 0"
    by (auto simp: wal_next_def split: prod.splits sum.splits if_splits)
  from posix_read_okI [OF r1] obtain c where v: "readable s ?fh" "view s ?fh = Some c" by auto
  from posix_read_okD [OF r1 v] obtain a where a: "n = length (take 8 (drop ?off c))" "s1 = s\<lparr>answers := a\<rparr>"
    by auto
  let ?b = "decode_uint32 h 0"
  from assms r1 n obtain m b s2 where r2: "posix_read s1 ?fh (unat (?b + 8)) (replicate (unat (?b + 8)) 0) ?off = (Inr (m, b), s2)"
      and d: "deserialize_wal_record b (unat (?b + 8)) = Inr r"
      and fin: "t = s2" "rd' = rd\<lparr>wr_offset := ?off + unat (8 + ?b)\<rparr>"
    by (auto simp: wal_next_def Let_def split: prod.splits sum.splits if_splits)
  from d have "33 \<le> unat (?b + 8)" by (rule deserialize_ok_size)
  moreover from r2 a v obtain a' where "s2 = s\<lparr>answers := a'\<rparr>" by (auto elim!: posix_read_okD)
  ultimately show thesis
    using that [of a' c] v(2) a(1) n fin by (simp add: add.commute [of 8])
qed

text \<open>A record with at most four adjacent bytes of its body changed fails its checksum.\<close>

lemma deserialize_damaged:
  assumes "serialize_wal_record r = pre @ xs @ post" and "8 \<le> length pre"
    and "length ys = length xs" and "length xs \<le> 4" and "ys \<noteq> xs" and "get_record_size r < 2 ^ 32"
  shows "deserialize_wal_record (pre @ ys @ post) (get_record_size r)
       = err BAD_CONFIG ''checksum mismatch corrupted data found''"
proof -
  let ?b = "pre @ ys @ post"
  from assms(1) have img: "wal_image r = pre @ xs @ post" by (simp add: serialize_wal_image)
  then have size: "length ?b = get_record_size r" by (metis assms(3) length_append length_wal_image)
  have body: "wal_body r = drop 8 pre @ xs @ post"
    using arg_cong [OF img, of "drop 8"] assms(2) by (simp add: wal_image_def)
  have head: "take n (drop k ?b) = take n (drop k (wal_image r))" if "k + n \<le> 8" for k n
    using that assms(2) by (simp add: img)
  have "decode_uint32 ?b 0 = word_of_nat (length (wal_body r))" "decode_uint32 ?b 4 = compute_crc_32 (wal_body r)"
    by (rule codec_simps; use head [of 0 4] head [of 4 4] size in \<open>simp add: wal_image_def get_record_size_def\<close>)+
  moreover have "unat (word_of_nat (length (wal_body r)) :: u32) = length (wal_body r)"
    by (rule unat_word_of_nat_eq) (use assms(6) in \<open>simp add: get_record_size_def length_wal_body\<close>)
  moreover have "take (length (wal_body r)) (drop 8 ?b) = drop 8 pre @ ys @ post"
    using assms(2,3) by (simp add: body)
  moreover have "compute_crc_32 (wal_body r) \<noteq> compute_crc_32 (drop 8 pre @ ys @ post)"
    unfolding body using assms(3-5) by (intro crc_burst) auto
  moreover have "get_record_size r - 8 = length (wal_body r)" "33 \<le> get_record_size r"
    by (simp_all add: get_record_size_def length_wal_body)
  ultimately show ?thesis
    by (simp add: deserialize_wal_record_def MIN_RECORD_SIZE_def)
qed

lemma wal_appended_durable:
  assumes "appendable s (ww_fh w)" and "view s (ww_fh w) = Some c"
    and "wal_append s w r = (ok (), t)" and "wal_sync t w = (ok (), u)"
  shows "durable_view u (ww_fh w) = Some (c @ serialize_wal_record r)" and "view u (ww_fh w) = Some (c @ serialize_wal_record r)"
proof -
  from assms(3) obtain n where "posix_append s (ww_fh w) (serialize_wal_record r) = (Inr n, t)"
    by (auto simp: wal_append_def ok_def elim: attempt_eq_InrE)
  then obtain a where t: "t = (fs_append s (ww_fh w) (serialize_wal_record r))\<lparr>answers := a\<rparr>"
    using assms(1) by (rule posix_append_okD)
  from assms(4) have "posix_sync_data t (ww_fh w) = (Inr (), u)"
    by (auto simp: wal_sync_def ok_def elim: attempt_eq_InrE)
  then have "u = (fs_sync t (ww_fh w))\<lparr>answers := tl (answers t)\<rparr>"
    by (rule posix_sync_data_okD)
  then show "durable_view u (ww_fh w) = Some (c @ serialize_wal_record r)" "view u (ww_fh w) = Some (c @ serialize_wal_record r)"
    using assms(1,2) by (simp_all add: t)
qed

section \<open>Properties\<close>

text \<open>
  C13. Deserializing a serialized WAL record of less than 4 GiB gives the record back.
\<close>

theorem wal_record_roundtrip:
  assumes "get_record_size r < 2 ^ 32"
  shows "deserialize_wal_record (serialize_wal_record r) (length (serialize_wal_record r)) = ok r"
  using deserialize_wal_image [OF assms] by (simp add: serialize_wal_image)

definition demo_record :: WalRecord where
  "demo_record = \<lparr>op_type = PUT_ROW, timestamp = 65536, wal_sequence = 7, wal_key = Key [1, 2], wal_value = [3]\<rparr>"

lemma demo_record_size: "get_record_size demo_record = 36"
  by (simp add: demo_record_def get_record_size_def key_size_def)

theorem wal_record_roundtrip_witness:
  "deserialize_wal_record (serialize_wal_record demo_record) (length (serialize_wal_record demo_record)) = ok demo_record"
  by (rule wal_record_roundtrip) (simp add: demo_record_size)

text \<open>
  C14. Changing at most four adjacent bytes of the body of a serialized WAL record of less than
  4 GiB makes deserialization fail with a checksum error.
\<close>

theorem wal_corruption_detected:
  assumes "serialize_wal_record r = pre @ xs @ post" and "8 \<le> length pre"
    and "length ys = length xs" and "length xs \<le> 4" and "ys \<noteq> xs" and "get_record_size r < 2 ^ 32"
  shows "deserialize_wal_record (pre @ ys @ post) (get_record_size r)
       = err BAD_CONFIG ''checksum mismatch corrupted data found''"
  using assms by (rule deserialize_damaged)

theorem wal_corruption_detected_witness:
  "deserialize_wal_record (take 8 (serialize_wal_record demo_record) @ [DELETE_ROW] @ drop 9 (serialize_wal_record demo_record)) 36
   = err BAD_CONFIG ''checksum mismatch corrupted data found''"
proof -
  let ?S = "serialize_wal_record demo_record"
  have "?S = take 8 ?S @ [PUT_ROW] @ drop 9 ?S"
    by (simp add: serialize_wal_image wal_image_def wal_body_def) (simp add: demo_record_def)
  moreover have "length ?S = 36" by (simp add: serialize_wal_image demo_record_size)
  ultimately show ?thesis
    using wal_corruption_detected [of demo_record "take 8 ?S" "[PUT_ROW]" "drop 9 ?S" "[DELETE_ROW]"]
    by (simp add: demo_record_size PUT_ROW_def DELETE_ROW_def)
qed

text \<open>
  C12. Under every schedule of faults, when append and sync of a WAL record both report success,
  the durable bytes of the segment are the old ones followed by the serialized record.
\<close>

theorem wal_append_sync_durable:
  assumes "appendable s (ww_fh w)" and "view s (ww_fh w) = Some c"
    and "wal_append s w r = (ok (), t)" and "wal_sync t w = (ok (), u)"
  shows "durable_view u (ww_fh w) = Some (c @ serialize_wal_record r) \<and> view u (ww_fh w) = durable_view u (ww_fh w)"
  using wal_appended_durable [OF assms] by simp

theorem wal_append_sync_durable_witness:
  "\<exists>t u. wal_append (demo_fs Append [5]) \<lparr>ww_path = ''d/f'', ww_fh = FileHandle 0\<rparr> demo_record = (ok (), t)
     \<and> wal_sync t \<lparr>ww_path = ''d/f'', ww_fh = FileHandle 0\<rparr> = (ok (), u)
     \<and> durable_view u (FileHandle 0) = Some ([5] @ serialize_wal_record demo_record)"
proof -
  let ?s = "demo_fs Append [5]" and ?w = "\<lparr>ww_path = ''d/f'', ww_fh = FileHandle 0\<rparr>"
  let ?t = "fs_append ?s (FileHandle 0) (serialize_wal_record demo_record)"
  have s: "appendable ?s (FileHandle 0)" "answers ?s = []" "view ?s (FileHandle 0) = Some [5]"
    by (simp_all add: demo_fs_handle)
  then have t: "wal_append ?s ?w demo_record = (ok (), ?t)" by (simp add: wal_append_def posix_append_ok)
  moreover have u: "wal_sync ?t ?w = (ok (), fs_sync ?t (FileHandle 0))"
    using s by (simp add: wal_sync_def posix_sync_data_ok)
  ultimately show ?thesis using wal_append_sync_durable [of ?s ?w "[5]" demo_record, OF _ _ t u] s by auto
qed

text \<open>
  C15. A record of the minimal size whose checksum is right and whose key takes the last four
  bytes makes the deserializer read the value length outside the buffer: the bounds check before
  that read is missing.
\<close>

theorem wal_value_len_out_of_bounds:
  "let body = [op] @ be 8 (ts :: u64) @ be 8 (seq :: u64) @ be 4 (4 :: u32) @ [k0, k1, k2, k3];
       buffer = be 4 (25 :: u32) @ be 4 (compute_crc_32 body) @ body
   in length buffer = MIN_RECORD_SIZE \<and>
      deserialize_wal_record buffer MIN_RECORD_SIZE = abort ''read of value_len outside the buffer''"
proof -
  define body where "body = [op] @ be 8 ts @ be 8 seq @ be 4 (4 :: u32) @ [k0, k1, k2, k3]"
  define buffer where "buffer = be 4 (25 :: u32) @ be 4 (compute_crc_32 body) @ body"
  have "decode_uint32 buffer 0 = 25" "decode_uint32 buffer 4 = compute_crc_32 body" "decode_uint32 buffer 25 = 4"
    by (rule codec_simps; simp add: buffer_def body_def)+
  moreover have "drop 8 buffer = body" "length body = 25" by (simp_all add: buffer_def body_def)
  ultimately have "deserialize_wal_record buffer 33 = abort ''read of value_len outside the buffer''"
    by (simp add: deserialize_wal_record_def MIN_RECORD_SIZE_def)
  then show ?thesis
    by (simp add: buffer_def body_def MIN_RECORD_SIZE_def Let_def)
qed

end
