(* ===== verification/Hlc.thy ===== *)
theory Hlc
  imports Prelude
begin

text \<open>
  hlc.cpp: the timestamp generator. Several threads run \<open>next()\<close> on two shared atomics; every
  atomic access is one step of the relation \<open>hlc_step\<close>, so that all interleavings are covered. The
  wall clock is an arbitrary input of each call and may go backwards. The ghost field \<open>issued\<close>
  lists the timestamps returned, newest first, each with the wall time of its call.
\<close>

section \<open>The generator\<close>

record TimestampGenerator =
  logicalCounter :: u64
  lastReturned :: u64

definition wall_time48 :: "int \<Rightarrow> u64" where
  "wall_time48 millis = push_bit 16 ((word_of_int millis :: u64) AND 0xFFFFFFFFFFFF)"

definition hlc_candidate :: "u64 \<Rightarrow> u64 \<Rightarrow> u64 \<Rightarrow> u64" where
  "hlc_candidate wall counter prev =
     (let candidate = wall OR (counter AND 0xFFFF) in
      if candidate \<le> prev then prev + 1 else candidate)"

text \<open>Where a thread stands in \<open>next()\<close>: outside, before the load, before the increment, before the exchange.\<close>

datatype hlc_pc = Idle | AtLoad u64 | AtCounter u64 u64 | AtExchange u64 u64 u64

record hlc_config =
  gen :: TimestampGenerator
  pcs :: "nat \<Rightarrow> hlc_pc"
  issued :: "(u64 \<times> u64) list"

inductive hlc_step :: "hlc_config \<Rightarrow> hlc_config \<Rightarrow> bool" where
  hlc_call: "pcs c t = Idle \<Longrightarrow> hlc_step c (c\<lparr>pcs := (pcs c)(t := AtLoad (wall_time48 millis))\<rparr>)"
| hlc_load: "pcs c t = AtLoad wall \<Longrightarrow>
    hlc_step c (c\<lparr>pcs := (pcs c)(t := AtCounter wall (lastReturned (gen c)))\<rparr>)"
| hlc_counter: "pcs c t = AtCounter wall prev \<Longrightarrow>
    hlc_step c (c\<lparr>gen := (gen c)\<lparr>logicalCounter := logicalCounter (gen c) + 1\<rparr>,
                 pcs := (pcs c)(t := AtExchange wall prev (hlc_candidate wall (logicalCounter (gen c)) prev))\<rparr>)"
| hlc_exchange: "pcs c t = AtExchange wall prev candidate \<Longrightarrow> lastReturned (gen c) = prev \<Longrightarrow>
    hlc_step c (c\<lparr>gen := (gen c)\<lparr>lastReturned := candidate\<rparr>, pcs := (pcs c)(t := Idle),
                 issued := (wall, candidate) # issued c\<rparr>)"
| hlc_retry: "pcs c t = AtExchange wall prev candidate \<Longrightarrow>
    hlc_step c (c\<lparr>pcs := (pcs c)(t := AtLoad wall)\<rparr>)"

definition hlc_init :: hlc_config where
  "hlc_init = \<lparr>gen = \<lparr>logicalCounter = 0, lastReturned = 0\<rparr>, pcs = (\<lambda>_. Idle), issued = []\<rparr>"

inductive hlc_reachable :: "hlc_config \<Rightarrow> bool" where
  hlc_start: "hlc_reachable hlc_init"
| hlc_more: "hlc_reachable c \<Longrightarrow> hlc_step c c' \<Longrightarrow> hlc_reachable c'"

inductive_cases hlc_stepE: "hlc_step c c'"

text \<open>One call that no other thread disturbs and whose exchange does not fail spuriously.\<close>

definition hlc_next :: "int \<Rightarrow> TimestampGenerator \<Rightarrow> u64 \<times> TimestampGenerator" where
  "hlc_next millis g =
     (let candidate = hlc_candidate (wall_time48 millis) (logicalCounter g) (lastReturned g)
      in (candidate, \<lparr>logicalCounter = logicalCounter g + 1, lastReturned = candidate\<rparr>))"

section \<open>Invariant\<close>

lemma or_ge: "(a :: u64) \<le> a OR b"
  by (simp add: word_le_def unsigned_or_eq or_greater_eq)

lemma hlc_candidate_gt:
  assumes "prev \<noteq> - 1"
  shows "prev < hlc_candidate wall n prev" and "wall \<le> hlc_candidate wall n prev"
proof -
  have "prev < prev + 1" using assms unatSuc [of prev] by (simp add: word_less_nat_alt add_eq_0_iff add.commute)
  with or_ge [of wall "n AND 0xFFFF"] show "prev < hlc_candidate wall n prev" "wall \<le> hlc_candidate wall n prev"
    by (auto simp: hlc_candidate_def Let_def)
qed

definition hlc_inv :: "hlc_config \<Rightarrow> bool" where
  "hlc_inv c \<longleftrightarrow> lastReturned (gen c) = (case issued c of [] \<Rightarrow> 0 | (w, ts) # _ \<Rightarrow> ts)
     \<and> (\<forall>t wall prev candidate. pcs c t = AtExchange wall prev candidate \<longrightarrow> prev \<noteq> - 1 \<longrightarrow>
          prev < candidate \<and> wall \<le> candidate)
     \<and> (- 1 \<notin> snd ` set (tl (issued c)) \<longrightarrow>
          sorted_wrt (>) (map snd (issued c)) \<and> (\<forall>(w, ts) \<in> set (issued c). w \<le> ts \<and> 0 < ts))"

lemma hlc_reachable_inv: "hlc_reachable c \<Longrightarrow> hlc_inv c"
proof (induction rule: hlc_reachable.induct)
  case hlc_start
  show ?case by (simp add: hlc_inv_def hlc_init_def)
next
  case (hlc_more c c')
  from hlc_more.hyps(2) show ?case
  proof (cases rule: hlc_step.cases)
    case (hlc_counter t wall prev)
    with hlc_more.IH hlc_candidate_gt show ?thesis by (auto simp: hlc_inv_def)
  next
    case (hlc_exchange t wall prev candidate)
    have last: "prev = (case issued c of [] \<Rightarrow> 0 | (w, ts) # _ \<Rightarrow> ts)" and
        gt: "prev \<noteq> - 1 \<Longrightarrow> prev < candidate \<and> wall \<le> candidate" and
        old: "- 1 \<notin> snd ` set (tl (issued c)) \<Longrightarrow>
          sorted_wrt (>) (map snd (issued c)) \<and> (\<forall>(w, ts) \<in> set (issued c). w \<le> ts \<and> 0 < ts)"
      using hlc_more.IH hlc_exchange by (auto simp: hlc_inv_def)
    have "sorted_wrt (>) (map snd ((wall, candidate) # issued c)) \<and> (\<forall>(w, ts) \<in> set ((wall, candidate) # issued c). w \<le> ts \<and> 0 < ts)"
      if fresh: "- 1 \<notin> snd ` set (issued c)"
    proof (cases "issued c")
      case Nil
      with last gt show ?thesis by auto
    next
      case (Cons e es)
      with last fresh have p: "prev = snd e" "prev \<noteq> - 1" by (auto split: prod.splits)
      from Cons fresh have so: "sorted_wrt (>) (map snd (issued c)) \<and> (\<forall>(w, ts) \<in> set (issued c). w \<le> ts \<and> 0 < ts)"
        by (intro old) auto
      then have "\<forall>x \<in> snd ` set (issued c). x < candidate"
        using p gt unfolding Cons by (auto intro: less_trans)
      with so gt p(2) show ?thesis by (auto intro: le_less_trans [OF word_zero_le])
    qed
    with hlc_exchange hlc_more.IH show ?thesis by (auto simp: hlc_inv_def)
  qed (use hlc_more.IH in \<open>auto simp: hlc_inv_def\<close>)
qed

text \<open>A call that runs alone.\<close>

lemma hlc_solo_steps:
  assumes "pcs c t = Idle"
  shows "case hlc_next millis (gen c) of (ts, g) \<Rightarrow>
     hlc_step\<^sup>*\<^sup>* c (c\<lparr>gen := g, issued := (wall_time48 millis, ts) # issued c\<rparr>)
     \<and> (lastReturned (gen c) \<noteq> - 1 \<longrightarrow> lastReturned (gen c) < ts \<and> wall_time48 millis \<le> ts)"
proof -
  let ?w = "wall_time48 millis" and ?g = "gen c"
  let ?ts = "hlc_candidate ?w (logicalCounter ?g) (lastReturned ?g)"
  let ?c1 = "c\<lparr>pcs := (pcs c)(t := AtLoad ?w)\<rparr>"
  let ?c2 = "?c1\<lparr>pcs := (pcs ?c1)(t := AtCounter ?w (lastReturned (gen ?c1)))\<rparr>"
  let ?c3 = "?c2\<lparr>gen := (gen ?c2)\<lparr>logicalCounter := logicalCounter (gen ?c2) + 1\<rparr>, pcs := (pcs ?c2)(t := AtExchange ?w (lastReturned ?g) ?ts)\<rparr>"
  let ?c4 = "?c3\<lparr>gen := (gen ?c3)\<lparr>lastReturned := ?ts\<rparr>, pcs := (pcs ?c3)(t := Idle), issued := (?w, ?ts) # issued ?c3\<rparr>"
  have "hlc_step c ?c1" by (rule hlc_call [OF assms])
  moreover have "hlc_step ?c1 ?c2" by (rule hlc_load) simp
  moreover have "hlc_step ?c2 ?c3" using hlc_counter [of ?c2 t ?w "lastReturned ?g"] by simp
  moreover have "hlc_step ?c3 ?c4" by (rule hlc_exchange) simp_all
  ultimately have "hlc_step\<^sup>*\<^sup>* c ?c4" by (meson r_into_rtranclp rtranclp.rtrancl_into_rtrancl)
  moreover have "?c4 = c\<lparr>gen := snd (hlc_next millis ?g), issued := (?w, ?ts) # issued c\<rparr>"
    using assms by (simp add: hlc_next_def Let_def fun_upd_idem)
  ultimately show ?thesis
    using hlc_candidate_gt [of "lastReturned ?g" ?w "logicalCounter ?g"] by (simp add: hlc_next_def Let_def)
qed

lemma hlc_reachable_steps: "hlc_step\<^sup>*\<^sup>* c c' \<Longrightarrow> hlc_reachable c \<Longrightarrow> hlc_reachable c'"
  by (induction rule: rtranclp_induct) (auto intro: hlc_more)

lemma hlc_demo: "\<exists>c. hlc_reachable c \<and> map snd (issued c) = [0x10001, 0x10000]"
proof -
  let ?c1 = "hlc_init\<lparr>gen := \<lparr>logicalCounter = 1, lastReturned = 0x10000\<rparr>, issued := [(0x10000, 0x10000)]\<rparr>"
  let ?c2 = "?c1\<lparr>gen := \<lparr>logicalCounter = 2, lastReturned = 0x10001\<rparr>, issued := [(0x10000, 0x10001), (0x10000, 0x10000)]\<rparr>"
  have "hlc_step\<^sup>*\<^sup>* hlc_init ?c1"
    using hlc_solo_steps [of hlc_init 0 1] by (simp add: hlc_init_def hlc_next_def hlc_candidate_def wall_time48_def)
  moreover have "hlc_step\<^sup>*\<^sup>* ?c1 ?c2"
    using hlc_solo_steps [of ?c1 1 1] by (simp add: hlc_init_def hlc_next_def hlc_candidate_def wall_time48_def)
  ultimately have "hlc_reachable ?c2" by (intro hlc_reachable_steps [OF _ hlc_reachable_steps [OF _ hlc_start]])
  then show ?thesis by (intro exI [of _ ?c2]) simp
qed

section \<open>Properties\<close>

text \<open>
  C19. Under every interleaving of threads and every behaviour of the wall clock, the timestamps
  handed out are strictly increasing in the order of their exchanges, hence unique, and none is
  below the wall time of its call, as long as the largest 64-bit value has not been handed out.
\<close>

theorem hlc_strictly_increasing:
  assumes "hlc_reachable c" and "- 1 \<notin> snd ` set (tl (issued c))"
  shows "sorted_wrt (>) (map snd (issued c)) \<and> (\<forall>(wall, ts) \<in> set (issued c). wall \<le> ts)"
  using hlc_reachable_inv [OF assms(1)] assms(2) by (auto simp: hlc_inv_def)

theorem hlc_strictly_increasing_witness:
  "\<exists>c. hlc_reachable c \<and> sorted_wrt (>) (map snd (issued c)) \<and> length (issued c) = 2"
proof -
  obtain c where c: "hlc_reachable c" "map snd (issued c) = [0x10001, 0x10000]" using hlc_demo by (elim exE conjE)
  have "length (issued c) = 2" using arg_cong [OF c(2), of length] by simp
  moreover have "snd ` set (tl (issued c)) = {0x10000}"
    unfolding set_map [symmetric] map_tl c(2) by simp
  ultimately show ?thesis using hlc_strictly_increasing [OF c(1)] c(1) by auto
qed

text \<open>
  A call of next() that runs alone is a sequence of steps of the concurrent relation; it
  returns a timestamp above the last one and not below the wall time.
\<close>

theorem hlc_next_solo:
  assumes "pcs c t = Idle"
  shows "case hlc_next millis (gen c) of (ts, g) \<Rightarrow>
     hlc_step\<^sup>*\<^sup>* c (c\<lparr>gen := g, issued := (wall_time48 millis, ts) # issued c\<rparr>)
     \<and> (lastReturned (gen c) \<noteq> - 1 \<longrightarrow> lastReturned (gen c) < ts \<and> wall_time48 millis \<le> ts)"
  by (rule hlc_solo_steps [OF assms])

theorem hlc_next_solo_witness:
  "hlc_step\<^sup>*\<^sup>* hlc_init (hlc_init\<lparr>gen := \<lparr>logicalCounter = 1, lastReturned = 0x10000\<rparr>, issued := [(0x10000, 0x10000)]\<rparr>)"
  using hlc_next_solo [of hlc_init 0 1] by (simp add: hlc_init_def hlc_next_def hlc_candidate_def wall_time48_def)

end
