(* ===== verification/Dazzle_Engine.thy ===== *)
theory Dazzle_Engine
  imports Compaction Memtable Wal Hlc
begin

text \<open>
  dazzle_engine.h and dazzle_engine.cpp: the storage engine. The state is the file system and the
  engine object. Every public operation is one function of the state; the wall clock a write reads
  is an argument of it. A reader or a version that a function holds in a local variable is released
  when the function returns, on every path. Messages to the log and to \<open>std::cerr\<close> are left out.
\<close>

record Dazzle =
  data_dir :: string
  wal_writer :: WalWriter
  memtable_size :: nat
  active_memtable :: Memtable
  hlc :: TimestampGenerator
  table_cache :: "SSTableReader Cache"
  version_set :: VersionSet
  lsn :: u64
  next_wal_seq :: u64
  next_sst_seq :: u64
  policy :: CompactionPolicy

type_synonym dz_state = "fs \<times> Dazzle"

definition on_fs :: "(fs \<Rightarrow> 'a result \<times> fs) \<Rightarrow> dz_state \<Rightarrow> 'a result \<times> dz_state" where
  "on_fs f st = (case f (fst st) of (r, s) \<Rightarrow> (r, (s, snd st)))"

definition on_cache :: "(tc_state \<Rightarrow> 'a result \<times> tc_state) \<Rightarrow> dz_state \<Rightarrow> 'a result \<times> dz_state" where
  "on_cache f st = (case f (fst st, table_cache (snd st)) of (r, (s, c)) \<Rightarrow> (r, (s, (snd st)\<lparr>table_cache := c\<rparr>)))"

section \<open>Sequences\<close>

definition bump_lsn_sequence :: "Dazzle \<Rightarrow> u64 \<times> Dazzle" where
  "bump_lsn_sequence dz = (lsn dz, dz\<lparr>lsn := lsn dz + 1\<rparr>)"

definition mint_sst_id :: "Dazzle \<Rightarrow> u64 \<times> Dazzle" where
  "mint_sst_id dz = (next_sst_seq dz, dz\<lparr>next_sst_seq := next_sst_seq dz + 1\<rparr>)"

definition mint_wal_id :: "Dazzle \<Rightarrow> u64 \<times> Dazzle" where
  "mint_wal_id dz = (next_wal_seq dz, dz\<lparr>next_wal_seq := next_wal_seq dz + 1\<rparr>)"

definition peek_sst_id :: "Dazzle \<Rightarrow> u64" where
  "peek_sst_id dz = next_sst_seq dz"

definition peek_wal_id :: "Dazzle \<Rightarrow> u64" where
  "peek_wal_id dz = next_wal_seq dz"

definition latest_lsn :: "Dazzle \<Rightarrow> u64" where
  "latest_lsn dz = lsn dz"

definition get_sst_directory :: "Dazzle \<Rightarrow> string" where
  "get_sst_directory dz = data_dir dz @ ''/sst''"

definition get_wal_directory :: "Dazzle \<Rightarrow> string" where
  "get_wal_directory dz = data_dir dz @ ''/wal''"

section \<open>Compaction\<close>

definition meta_of :: "SSTableId \<Rightarrow> SSTFooter \<Rightarrow> SSTableMeta" where
  "meta_of sid footer =
     \<lparr>meta_id = sid, size_bytes = footer_size_bytes footer, entry_count = ucast (footer_entry_count footer),
      max_sequence = highest_sequence footer\<rparr>"

definition dz_sst_meta_to_vector :: "Dazzle \<Rightarrow> SSTableMeta list \<times> Dazzle" where
  "dz_sst_meta_to_vector dz =
     (let (v, vs) = get_current (version_set dz)
      in (sst_meta_to_vector (version_files vs v), dz\<lparr>version_set := release_version v vs\<rparr>))"

fun reclaim :: "SSTableId list \<Rightarrow> dz_state \<Rightarrow> unit result \<times> dz_state" where
  "reclaim [] st = (ok (), st)"
| "reclaim (sid # ids) st =
     attempt (on_cache (tc_evict sid) st) (\<lambda>_ (s, dz).
       case posix_remove s (sst_path (data_dir dz) (id_value sid)) of
         (Inl (Abort what), s) \<Rightarrow> (abort what, (s, dz))
       | (_, s) \<Rightarrow> reclaim ids (s, dz))"

definition apply_edit :: "VersionEdit \<Rightarrow> dz_state \<Rightarrow> unit result \<times> dz_state" where
  "apply_edit edit st =
     (case vs_apply edit (version_set (snd st)) of
        (Inl e, vs) \<Rightarrow> (Inl e, (fst st, (snd st)\<lparr>version_set := vs\<rparr>))
      | (Inr ids, vs) \<Rightarrow> reclaim ids (fst st, (snd st)\<lparr>version_set := vs\<rparr>))"

definition install_flushed_sst :: "SSTableMeta \<Rightarrow> dz_state \<Rightarrow> unit result \<times> dz_state" where
  "install_flushed_sst meta st = apply_edit \<lparr>removed = [], added = [meta], next_sst_id = None\<rparr> st"

definition install :: "CompactionTask \<Rightarrow> dz_state \<Rightarrow> unit result \<times> dz_state" where
  "install task st =
     attempt (on_cache (tc_get (data_dir (snd st)) (output_id task)) st) (\<lambda>(reader, h) st.
       case apply_edit \<lparr>removed = task_inputs task, added = [meta_of (output_id task) (sr_footer reader)], next_sst_id = None\<rparr> st of
         (r, st) \<Rightarrow> attempt (on_cache (tc_release h) st) (\<lambda>_ st. (r, st)))"

definition execute :: "CompactionTask \<Rightarrow> dz_state \<Rightarrow> SSTableId result \<times> dz_state" where
  "execute task st =
     on_cache (compact (data_dir (snd st)) (task_inputs task) (id_value (output_id task)) (task_can_drop_tombstone task)) st"

definition run_task :: "CompactionTask \<Rightarrow> dz_state \<Rightarrow> SSTableId option result \<times> dz_state" where
  "run_task task st =
     attempt (execute task st) (\<lambda>_ st.
       case install task st of
         (Inl (Err e), st) \<Rightarrow> if code e = STALE_VERSION then (ok None, st) else (Inl (Err e), st)
       | (Inl (Abort what), st) \<Rightarrow> (abort what, st)
       | (Inr _, st) \<Rightarrow> (ok (Some (output_id task)), st))"

definition do_compact_work :: "dz_state \<Rightarrow> SSTableId option result \<times> dz_state" where
  "do_compact_work st =
     (let (s, dz) = st; (metas, dz) = dz_sst_meta_to_vector dz in
      case policy_pick (policy dz) metas of
        Inl e \<Rightarrow> (Inl e, (s, dz))
      | Inr None \<Rightarrow> (ok None, (s, dz))
      | Inr (Some candidate) \<Rightarrow>
          let (sid, dz) = mint_sst_id dz in
          run_task \<lparr>task_inputs = cand_inputs candidate, output_id = SSTableId sid,
                    task_can_drop_tombstone = can_drop_tombstone candidate\<rparr> (s, dz))"

definition compact_now :: "dz_state \<Rightarrow> SSTableId option result \<times> dz_state" where
  "compact_now st =
     (let (s, dz) = st; (metas, dz) = dz_sst_meta_to_vector dz in
      if metas = [] then (ok None, (s, dz))
      else
        let inputs = sort (map meta_id metas); (sid, dz) = mint_sst_id dz in
        run_task \<lparr>task_inputs = inputs, output_id = SSTableId sid, task_can_drop_tombstone = True\<rparr> (s, dz))"

definition set_compaction_policy :: "CompactionPolicy option \<Rightarrow> Dazzle \<Rightarrow> unit result \<times> Dazzle" where
  "set_compaction_policy p dz =
     (case p of
        None \<Rightarrow> (err BAD_CONFIG ''Compaction policy was not specified'', dz)
      | Some p \<Rightarrow> (ok (), dz\<lparr>policy := p\<rparr>))"

section \<open>Flushing\<close>

text \<open>\<open>std::filesystem::remove\<close>: a missing file is no error, every other failure throws.\<close>

definition fs_remove :: "string \<Rightarrow> fs \<Rightarrow> bool result \<times> fs" where
  "fs_remove path s =
     (case sys_unlink s path of
        (Inl ENOENT, s) \<Rightarrow> (ok False, s)
      | (Inl e, s) \<Rightarrow> (abort ''std::filesystem::filesystem_error'', s)
      | (Inr _, s) \<Rightarrow> (ok True, s))"

definition write_memtable :: "string \<Rightarrow> Memtable \<Rightarrow> fs \<Rightarrow> unit result \<times> fs" where
  "write_memtable path m s =
     attempt (SSTableWriter_create s path (memtable_count m)) (\<lambda>writer s.
       case attempt (sst_add_all (s, writer) (entries m)) (\<lambda>_ st. sst_finish st) of
         (r, (s, _)) \<Rightarrow> (r, s))"

definition finish_flush :: "SSTableId \<Rightarrow> SSTableReader \<Rightarrow> dz_state \<Rightarrow> unit result \<times> dz_state" where
  "finish_flush new_id reader st =
     (let (s, dz) = st; (new_wal_seq, dz) = mint_wal_id dz in
      attempt (on_fs (\<lambda>s. WalWriter_create s (wal_path (data_dir dz) new_wal_seq)) (s, dz)) (\<lambda>walw st.
      attempt (install_flushed_sst (meta_of new_id (sr_footer reader)) st) (\<lambda>_ (s, dz).
        let dz = dz\<lparr>wal_writer := walw, active_memtable := Memtable_create (memtable_size dz)\<rparr>;
            old_wal_seq = new_wal_seq - 1 in
        attempt (on_fs (fs_remove (wal_path (data_dir dz) old_wal_seq)) (s, dz)) (\<lambda>_ st.
          case do_compact_work st of
            (Inl (Abort what), st) \<Rightarrow> (abort what, st)
          | (_, st) \<Rightarrow> (ok (), st)))))"

definition flush :: "dz_state \<Rightarrow> unit result \<times> dz_state" where
  "flush st =
     (if memtable_count (active_memtable (snd st)) = 0 then (ok (), st)
      else
        let (s, dz) = st; (new_sequence, dz) = mint_sst_id dz in
        attempt (on_fs (write_memtable (sst_path (data_dir dz) new_sequence) (active_memtable dz)) (s, dz)) (\<lambda>_ st.
        attempt (on_cache (tc_get (data_dir dz) (SSTableId new_sequence)) st) (\<lambda>(reader, h) st.
          case finish_flush (SSTableId new_sequence) reader st of
            (r, st) \<Rightarrow> attempt (on_cache (tc_release h) st) (\<lambda>_ st. (r, st)))))"

section \<open>Reads and writes\<close>

definition put_internal :: "Key \<Rightarrow> bytes option \<Rightarrow> bool \<Rightarrow> int \<Rightarrow> dz_state \<Rightarrow> unit result \<times> dz_state" where
  "put_internal key value remove now st =
     (let (s, dz) = st;
          op = (if remove then DELETE_ROW else PUT_ROW);
          (seq, dz) = bump_lsn_sequence dz;
          (ts, gen) = hlc_next now (hlc dz);
          dz = dz\<lparr>hlc := gen\<rparr>;
          record = \<lparr>op_type = op, timestamp = ts, wal_sequence = seq, wal_key = key,
                    wal_value = (case value of Some v \<Rightarrow> v | None \<Rightarrow> [])\<rparr>
      in
      attempt (on_fs (\<lambda>s. wal_append s (wal_writer dz) record) (s, dz)) (\<lambda>_ st.
      attempt (on_fs (\<lambda>s. wal_sync s (wal_writer dz)) st) (\<lambda>_ (s, dz).
        if \<not> remove \<and> value = None then (abort ''std::bad_optional_access'', (s, dz))
        else
          let dz = dz\<lparr>active_memtable :=
                (if remove then memtable_remove (active_memtable dz) key seq
                 else memtable_put (active_memtable dz) key (the value) seq)\<rparr>
          in if should_flush (active_memtable dz) then flush (s, dz) else (ok (), (s, dz)))))"

definition dz_put :: "Key \<Rightarrow> bytes \<Rightarrow> int \<Rightarrow> dz_state \<Rightarrow> unit result \<times> dz_state" where
  "dz_put key value now st =
     (if value = [] then (err BAD_CONFIG ''value is empty'', st) else put_internal key (Some value) False now st)"

definition dz_remove :: "Key \<Rightarrow> int \<Rightarrow> dz_state \<Rightarrow> unit result \<times> dz_state" where
  "dz_remove key now st = put_internal key None True now st"

definition on_version :: "(file_map \<Rightarrow> tc_state \<Rightarrow> 'a result \<times> tc_state) \<Rightarrow> dz_state \<Rightarrow> 'a result \<times> dz_state" where
  "on_version f st =
     (let (s, dz) = st; (v, vs) = get_current (version_set dz) in
      case on_cache (f (version_files vs v)) (s, dz\<lparr>version_set := vs\<rparr>) of
        (r, (s, dz)) \<Rightarrow> (r, (s, dz\<lparr>version_set := release_version v (version_set dz)\<rparr>)))"

definition dz_get :: "Key \<Rightarrow> dz_state \<Rightarrow> Value option result \<times> dz_state" where
  "dz_get key st =
     (case memtable_get (active_memtable (snd st)) key of
        Some found \<Rightarrow> if is_tombstone found then (ok None, st) else (ok (Some \<lparr>value_data = data found\<rparr>), st)
      | None \<Rightarrow> on_version (\<lambda>files. version_lookup (data_dir (snd st)) files key) st)"

definition dz_get_internal :: "Key \<Rightarrow> dz_state \<Rightarrow> InternalValue option result \<times> dz_state" where
  "dz_get_internal key st =
     (case memtable_get (active_memtable (snd st)) key of
        Some found \<Rightarrow> (ok (Some found), st)
      | None \<Rightarrow> on_version (\<lambda>files. lookup_internal (data_dir (snd st)) files key) st)"

end
