(* ===== verification/Engine_Files.thy ===== *)
theory Engine_Files
  imports Dazzle_Engine
begin

text \<open>
  The part of the file system the engine relies on besides the tables: the two directories, the
  names of future tables and logs, and the active log, whose file no reader has open and which is
  no table. Every change the engine makes to the files keeps it.
\<close>

definition wal_name :: "string \<Rightarrow> WalWriter \<Rightarrow> u64 \<Rightarrow> bool" where
  "wal_name d ww nwal \<longleftrightarrow> ww_path ww = wal_path d nwal \<or> nwal \<noteq> 0 \<and> ww_path ww = wal_path d (nwal - 1)"

definition wal_open :: "string \<Rightarrow> WalWriter \<Rightarrow> u64 \<Rightarrow> bytes \<Rightarrow> fs \<Rightarrow> bool" where
  "wal_open d ww nwal lg s \<longleftrightarrow> wal_name d ww nwal \<and> (\<exists>g. fd (ww_fh ww) \<noteq> -1
     \<and> fd_file s (fd (ww_fh ww)) = Some (g, \<lparr>contents = lg, durable = lg\<rparr>) \<and> of_append g \<and> of_writable g
     \<and> unread s (of_ino g) \<and> map_of (dir s) (ww_path ww) = Some (of_ino g)
     \<and> (\<forall>n \<ge> nwal. wal_path d n \<noteq> ww_path ww \<longrightarrow> map_of (dir s) (wal_path d n) = None))"

lemma wal_openE:
  assumes "wal_open d ww nwal lg s"
  obtains g where "wal_name d ww nwal" and "fd (ww_fh ww) \<noteq> -1"
    and "fd_file s (fd (ww_fh ww)) = Some (g, \<lparr>contents = lg, durable = lg\<rparr>)" and "of_append g" and "of_writable g"
    and "unread s (of_ino g)" and "map_of (dir s) (ww_path ww) = Some (of_ino g)"
    and "\<forall>n \<ge> nwal. wal_path d n \<noteq> ww_path ww \<longrightarrow> map_of (dir s) (wal_path d n) = None"
  using assms unfolding wal_open_def by (elim exE conjE)

lemma wal_openI:
  assumes "wal_name d ww nwal" and "fd (ww_fh ww) \<noteq> -1"
    and "fd_file s (fd (ww_fh ww)) = Some (g, \<lparr>contents = lg, durable = lg\<rparr>)" and "of_append g" and "of_writable g"
    and "unread s (of_ino g)" and "map_of (dir s) (ww_path ww) = Some (of_ino g)"
    and "\<forall>n \<ge> nwal. wal_path d n \<noteq> ww_path ww \<longrightarrow> map_of (dir s) (wal_path d n) = None"
  shows "wal_open d ww nwal lg s"
  unfolding wal_open_def using assms by (intro exI conjI)

definition names_free :: "string \<Rightarrow> u64 \<Rightarrow> fs \<Rightarrow> bool" where
  "names_free d nsst s \<longleftrightarrow> is_directory s (d @ ''/sst'') \<and> is_directory s (d @ ''/wal'')
     \<and> (\<forall>n \<ge> nsst. map_of (dir s) (sst_path d n) = None)"

text \<open>The directories hold the files of the live tables and the given logs, and nothing else.\<close>

definition table_paths :: "string \<Rightarrow> SSTableId set \<Rightarrow> string set" where
  "table_paths d ids = (\<lambda>i. sst_path d (id_value i)) ` ids"

definition tidy :: "string \<Rightarrow> SSTableId set \<Rightarrow> string set \<Rightarrow> fs \<Rightarrow> bool" where
  "tidy d live logs s \<longleftrightarrow> (\<forall>p \<in> fst ` set (dir s).
     (parent_of p = d @ ''/sst'' \<longrightarrow> p \<in> table_paths d live) \<and> (parent_of p = d @ ''/wal'' \<longrightarrow> p \<in> logs))"

lemma tidy_mono: "tidy d live logs s \<Longrightarrow> live \<subseteq> live' \<Longrightarrow> logs \<subseteq> logs' \<Longrightarrow> fst ` set (dir t) \<subseteq> fst ` set (dir s) \<Longrightarrow> tidy d live' logs' t"
  unfolding tidy_def table_paths_def by (intro ballI conjI impI) (drule (1) subsetD, drule (1) bspec, simp, fast)+

section \<open>Names\<close>

lemma last_sst_path: "last (sst_path d n) = CHR ''b''" and last_wal_path: "last (wal_path d n) = CHR ''g''"
  by (simp_all add: sst_path_def sstable_filename_def wal_path_def)

lemma wal_neq_sst [simp]: "wal_path d n \<noteq> sst_path d' m" "sst_path d' m \<noteq> wal_path d n"
  using last_sst_path [of d' m] last_wal_path [of d n] by auto

lemma wal_not_table:
  assumes "fs_wf s" and "map_of (dir s) (wal_path d n) = Some i"
  shows "\<not> table_ino s i"
proof
  assume "table_ino s i"
  then obtain d' m where t: "map_of (dir s) (sst_path d' m) = Some i" by (auto simp: table_ino_def)
  have "inj_on snd (set (dir s))" using assms(1) by (simp add: fs_wf_def distinct_map)
  from inj_onD [OF this _ map_of_SomeD [OF assms(2)] map_of_SomeD [OF t]] show False by simp
qed

lemma log_not_table: "fs_wf s \<Longrightarrow> wal_name d ww n \<Longrightarrow> map_of (dir s) (ww_path ww) = Some i \<Longrightarrow> \<not> table_ino s i"
  unfolding wal_name_def by (metis wal_not_table)

lemma logs_named:
  assumes "wal_open d ww n lg s" and "L \<subseteq> {ww_path ww, wal_path d m}"
  shows "\<forall>p \<in> L. \<exists>k. p = wal_path d k"
proof
  fix p assume "p \<in> L"
  with assms(2) have "p = ww_path ww \<or> p = wal_path d m" by blast
  with assms(1) show "\<exists>k. p = wal_path d k" by (auto simp: wal_open_def wal_name_def)
qed

section \<open>Opening tables\<close>

lemma unread_same: "same_files s t \<Longrightarrow> \<not> table_ino s i \<Longrightarrow> unread s i \<Longrightarrow> unread t i"
  unfolding same_files_def unread_def by metis

lemma fd_file_same: "same_files s t \<Longrightarrow> fd_file s k = Some (f, n) \<Longrightarrow> fd_file t k = Some (f, n)"
  by (auto simp: same_files_def fd_file_def split: option.splits)

lemma table_ino_same: "same_files s t \<Longrightarrow> table_ino t = table_ino s"
  by (simp add: same_files_def table_ino_def fun_eq_iff)

lemma wal_open_same:
  assumes "wal_open d ww n lg s" and "same_files s t" and "fs_wf s"
  shows "wal_open d ww n lg t"
proof -
  obtain g where g: "wal_name d ww n" "fd (ww_fh ww) \<noteq> -1"
      "fd_file s (fd (ww_fh ww)) = Some (g, \<lparr>contents = lg, durable = lg\<rparr>)" "of_append g" "of_writable g"
      "unread s (of_ino g)" "map_of (dir s) (ww_path ww) = Some (of_ino g)"
      "\<forall>k \<ge> n. wal_path d k \<noteq> ww_path ww \<longrightarrow> map_of (dir s) (wal_path d k) = None"
    by (rule wal_openE [OF assms(1)])
  have "dir t = dir s" using assms(2) by (simp add: same_files_def)
  with g fd_file_same [OF assms(2) g(3)] unread_same [OF assms(2) log_not_table [OF assms(3) g(1,7)] g(6)]
  show ?thesis by (intro wal_openI [of d ww n t g]) simp_all
qed

lemma tidy_same: "tidy d live logs s \<Longrightarrow> same_files s t \<Longrightarrow> tidy d live logs t"
  by (simp add: tidy_def same_files_def)

lemma names_free_same: "names_free d n s \<Longrightarrow> same_files s t \<Longrightarrow> names_free d n t"
  by (simp add: names_free_def is_directory_same) (simp add: same_files_def)

section \<open>Writing a new table\<close>

lemma fds_stored: "fds (fs_stored s p img) k = Some f \<Longrightarrow> k = next_fd s \<and> \<not> of_readable f \<or> k \<noteq> next_fd s \<and> fds s k = Some f"
  using fs_fresh_file [of s p Write]
  by (auto simp: fs_stored_def Let_def fs_append_def mode_file_def split: if_splits)

lemma fds_stored_other: "k \<noteq> next_fd s \<Longrightarrow> fds (fs_stored s p img) k = fds s k"
  using fs_fresh_file [of s p Write] by (simp add: fs_stored_def Let_def fs_append_def)

lemma wal_open_stored:
  assumes "wal_open d ww nwal lg s" and "fs_wf s"
  shows "wal_open d ww nwal lg (fs_stored s (sst_path d n) img)"
proof -
  let ?t = "fs_stored s (sst_path d n) img" and ?x = "\<lparr>contents = lg, durable = lg\<rparr>"
  obtain g where g: "wal_name d ww nwal" "fd (ww_fh ww) \<noteq> -1" "fd_file s (fd (ww_fh ww)) = Some (g, ?x)" "of_append g" "of_writable g"
      "unread s (of_ino g)" "map_of (dir s) (ww_path ww) = Some (of_ino g)"
      "\<forall>k \<ge> nwal. wal_path d k \<noteq> ww_path ww \<longrightarrow> map_of (dir s) (wal_path d k) = None"
    by (rule wal_openE [OF assms(1)])
  from fd_file_SomeD [OF g(3)] have f: "fds s (fd (ww_fh ww)) = Some g" "inodes s (of_ino g) = Some ?x" by auto
  have ne: "fd (ww_fh ww) \<noteq> next_fd s" "of_ino g \<noteq> next_ino s" using fs_wf_fd [OF assms(2) f(1)] by auto
  have "fd_file ?t (fd (ww_fh ww)) = Some (g, ?x)" using f ne fds_stored_other [of "fd (ww_fh ww)" s] by (simp add: fd_file_def)
  moreover have "unread ?t (of_ino g)" using g(6) by (auto simp: unread_def dest!: fds_stored)
  moreover have "\<forall>k. map_of (dir ?t) (wal_path d k) = map_of (dir s) (wal_path d k)" by (simp add: map_add_def split: option.split)
  moreover have "map_of (dir ?t) (ww_path ww) = Some (of_ino g)" using g(7) by (simp add: map_add_def)
  ultimately show ?thesis using g(1,2,4,5,8) by (intro wal_openI [of d ww nwal ?t g]) simp_all
qed

lemma tidy_stored: "tidy d live logs s \<Longrightarrow> tidy d (insert (SSTableId n) live) logs (fs_stored s (sst_path d n) img)"
  by (auto simp: tidy_def table_paths_def parent_sst_path)

lemma names_free_stored:
  assumes "names_free d n s" and "n < n + 1"
  shows "names_free d (n + 1) (fs_stored s (sst_path d n) img)"
proof -
  have "map_of (dir (fs_stored s (sst_path d n) img)) (sst_path d m) = None" if "n + 1 \<le> m" for m
  proof -
    have "n < m" using assms(2) that by (rule less_le_trans)
    then show ?thesis using assms(1) sst_path_inj [of d m n] by (auto simp: names_free_def map_add_def)
  qed
  with assms(1) show ?thesis by (simp add: names_free_def is_directory_def)
qed

section \<open>Removing files\<close>

definition unlinked :: "(string \<Rightarrow> bool) \<Rightarrow> fs \<Rightarrow> fs" where
  "unlinked P s = s\<lparr>dir := filter (\<lambda>(p, _). \<not> P p) (dir s)\<rparr>"

lemma unlinked_simps [simp]:
  "inodes (unlinked P s) = inodes s" "fds (unlinked P s) = fds s" "answers (unlinked P s) = answers s"
  "subdirs (unlinked P s) = subdirs s" "next_fd (unlinked P s) = next_fd s" "next_ino (unlinked P s) = next_ino s"
  "map_of (dir (unlinked P s)) p = (if P p then None else map_of (dir s) p)"
  "fd_file (unlinked P s) k = fd_file s k" "unread (unlinked P s) i = unread s i"
  "is_directory (unlinked P s) p = is_directory s p" "assertions (unlinked P s) = assertions s"
proof -
  have "map_of (filter (\<lambda>(p, _). \<not> P p) xs) p = (if P p then None else map_of xs p)" for xs :: "(string \<times> nat) list"
    by (induction xs) auto
  then show "map_of (dir (unlinked P s)) p = (if P p then None else map_of (dir s) p)" by (simp add: unlinked_def)
qed (simp_all add: unlinked_def fd_file_def unread_def is_directory_def cong: option.case_cong)

lemma unlinked_wf: "fs_wf s \<Longrightarrow> fs_wf (unlinked P s)"
  unfolding unlinked_def by (rule fs_wf_unlink)

lemma unlinked_kept: "kept s (unlinked P s)"
  by (rule kept_same) simp_all

lemma unlinked_absent: "map_of (dir s) p = None \<Longrightarrow> unlinked (\<lambda>q. q = p) s = s"
proof -
  assume "map_of (dir s) p = None"
  then have "filter (\<lambda>(q, _). q \<noteq> p) (dir s) = dir s" by (auto simp: filter_id_conv map_of_eq_None_iff rev_image_eqI)
  then show ?thesis by (simp add: unlinked_def)
qed

lemma sys_unlink_quiet: "answers s = [] \<Longrightarrow> sys_unlink s p
    = (if map_of (dir s) p = None then Inl ENOENT else Inr (), unlinked (\<lambda>q. q = p) s)"
  by (simp add: sys_unlink_def io_simps unlinked_absent) (simp add: unlinked_def)

lemma posix_remove_quiet:
  assumes "answers s = []" and "calm d s"
  shows "\<exists>r. posix_remove s (sst_path d n) = (r, unlinked (\<lambda>q. q = sst_path d n) s) \<and> (\<forall>w. r \<noteq> abort w)"
proof (cases "map_of (dir s) (sst_path d n) = None")
  case True
  with assms(1) show ?thesis by (auto simp: posix_remove_def sys_unlink_quiet err_def abort_def)
next
  case False
  let ?u = "unlinked (\<lambda>q. q = sst_path d n) s"
  have "sys_unlink s (sst_path d n) = (Inr (), ?u)" using sys_unlink_quiet [OF assms(1)] False by simp
  from posix_remove_after [OF this] assms show ?thesis by (auto simp: calm_def answers_same split: option.splits)
qed

lemma fs_remove_quiet: "answers s = [] \<Longrightarrow> \<exists>b. fs_remove p s = (ok b, unlinked (\<lambda>q. q = p) s)"
  by (cases "map_of (dir s) p = None") (auto simp: fs_remove_def sys_unlink_quiet)

lemma wal_open_unlinked: "wal_open d ww nwal lg s \<Longrightarrow> \<not> P (ww_path ww) \<Longrightarrow> wal_open d ww nwal lg (unlinked P s)"
  unfolding wal_open_def by (elim exE conjE, intro exI conjI) (auto split: if_splits)

lemma tidy_unlinked:
  assumes "tidy d live logs s" and "\<And>sid. sid \<in> live \<Longrightarrow> \<not> P (sst_path d (id_value sid)) \<Longrightarrow> sid \<in> live'"
    and "\<And>p. p \<in> logs \<Longrightarrow> \<not> P p \<Longrightarrow> p \<in> logs'"
  shows "tidy d live' logs' (unlinked P s)"
proof -
  have "p \<in> fst ` set (dir s) \<and> \<not> P p" if "p \<in> fst ` set (dir (unlinked P s))" for p
    using that by (force simp: unlinked_def)
  then show ?thesis using assms by (fastforce simp: tidy_def table_paths_def)
qed

lemma names_free_unlinked: "names_free d n s \<Longrightarrow> names_free d n (unlinked P s)"
  by (simp add: names_free_def)

lemma files_ok_unlinked:
  assumes "files_ok d tables live s" and "\<And>sid. sid \<in> live \<Longrightarrow> \<not> P (sst_path d (id_value sid))"
  shows "files_ok d tables live (unlinked P s)"
proof (rule files_ok_mono [OF assms(1)])
  show "fs_wf (unlinked P s)" "answers (unlinked P s) = []" using assms(1) by (simp_all add: files_ok_def unlinked_wf)
qed (use assms(2) in auto)

section \<open>Writing the log\<close>

lemma fd_file_sync:
  assumes "fd_file s (fd fh) = Some (g, x)"
  shows "fd_file (fs_sync s fh) (fd fh) = Some (g, \<lparr>contents = contents x, durable = contents x\<rparr>)"
  using fd_file_SomeD [OF assms] by (simp add: fs_sync_def assms) (simp add: fd_file_def)

lemma fd_file_append:
  assumes "fd_file s (fd fh) = Some (g, x)"
  shows "\<exists>h y. fd_file (fs_append s fh bs) (fd fh) = Some (h, y) \<and> of_ino h = of_ino g \<and> of_append h = of_append g
     \<and> of_writable h = of_writable g \<and> contents y = contents x @ bs"
  using fd_file_SomeD [OF assms] by (simp add: fs_append_def assms) (simp add: fd_file_def)

lemma unread_append: "unread s i \<Longrightarrow> unread (fs_append s fh bs) i"
  by (cases "fd_file s (fd fh)") (auto simp: unread_def fs_append_def dest!: fd_file_SomeD split: if_splits)

lemma wal_write_quiet:
  assumes "files_ok d tables live s" and "wal_open d ww nwal lg s" and "names_free d nsst s"
  shows "\<exists>t u. wal_append s ww r = (ok (), t) \<and> wal_sync t ww = (ok (), u) \<and> files_ok d tables live u
     \<and> wal_open d ww nwal (lg @ serialize_wal_record r) u \<and> names_free d nsst u \<and> kept s u \<and> dir u = dir s"
proof -
  let ?fh = "ww_fh ww" and ?x = "\<lparr>contents = lg, durable = lg\<rparr>"
  let ?t = "fs_append s ?fh (serialize_wal_record r)"
  let ?u = "fs_sync ?t ?fh"
  have q: "answers s = []" "fs_wf s" using assms(1) by (simp_all add: files_ok_def)
  obtain g where g: "wal_name d ww nwal" "fd ?fh \<noteq> -1" "fd_file s (fd ?fh) = Some (g, ?x)" "of_append g" "of_writable g"
      "unread s (of_ino g)" "map_of (dir s) (ww_path ww) = Some (of_ino g)"
      "\<forall>k \<ge> nwal. wal_path d k \<noteq> ww_path ww \<longrightarrow> map_of (dir s) (wal_path d k) = None"
    by (rule wal_openE [OF assms(2)])
  have app: "appendable s ?fh" using g(2-5) by (simp add: appendable_def)
  then have a: "wal_append s ww r = (ok (), ?t)"
    using posix_append_ok [OF q(1), of ?fh "serialize_wal_record r"] by (simp add: wal_append_def Let_def)
  obtain h y where h: "fd_file ?t (fd ?fh) = Some (h, y)" "of_ino h = of_ino g" "of_append h" "of_writable h"
      "contents y = lg @ serialize_wal_record r"
    using fd_file_append [OF g(3), of "serialize_wal_record r"] g(4,5) by auto
  have b: "wal_sync ?t ww = (ok (), ?u)"
    using posix_sync_data_ok [of ?t ?fh] q(1) h(1) g(2) by (simp add: wal_sync_def view_def)
  note z = fd_file_sync [OF h(1), unfolded h(5)]
  have kt: "kept s ?u" by (rule kept_trans [OF kept_append [OF g(3,6)] kept_sync])
  have "unread ?u (of_ino g)" using unread_append [OF g(6)] by (simp add: unread_def)
  then have "wal_open d ww nwal (lg @ serialize_wal_record r) ?u"
    using g(1,2,7,8) z h(2-4) by (intro wal_openI [of d ww nwal ?u h]) simp_all
  moreover have "names_free d nsst ?u" using assms(3) by (simp add: names_free_def is_directory_def)
  moreover have "files_ok d tables live ?u"
  proof (rule files_ok_mono [OF assms(1)])
    show "fs_wf ?u" "answers ?u = []" using q by (simp_all add: fs_wf_sync fs_wf_append)
    fix sid i n assume i: "map_of (dir s) (sst_path d (id_value sid)) = Some i" "inodes s i = Some n"
    then have "i \<noteq> of_ino g" using log_not_table [OF q(2) g(1,7)] by (auto simp: table_ino_def)
    then show "inodes ?u i = Some n" using i(2) by (simp add: inodes_written [OF g(3)])
  qed simp_all
  moreover have "dir ?u = dir s" by simp
  ultimately show ?thesis using a b kt by (intro exI conjI)
qed

text \<open>The log is rotated: to a new file, or, right after opening, to the active file itself.\<close>

lemma wal_open_opened:
  assumes "fs_wf s" and "map_of (dir s) (wal_path d nwal) = Some i" and "unread s i" and "inodes s i = Some \<lparr>contents = lg, durable = lg\<rparr>"
    and "\<forall>n > nwal. map_of (dir s) (wal_path d n) = None" and "nwal < nwal + 1"
  shows "wal_open d \<lparr>ww_path = wal_path d nwal, ww_fh = FileHandle (next_fd s)\<rparr> (nwal + 1) lg (fs_opened s i Append)"
proof -
  let ?t = "fs_opened s i Append" and ?ww = "\<lparr>ww_path = wal_path d nwal, ww_fh = FileHandle (next_fd s)\<rparr>"
  have fd: "fd_file ?t (next_fd s) = Some (mode_file i Append, \<lparr>contents = lg, durable = lg\<rparr>)" by (rule fd_file_fs_opened [OF assms(4)])
  have "unread ?t i" using assms(3) by (auto simp: unread_def mode_file_def)
  moreover have "0 \<le> next_fd s" using assms(1) by (simp add: fs_wf_def)
  moreover have "\<forall>n \<ge> nwal + 1. map_of (dir ?t) (wal_path d n) = None" using assms(5,6) by (auto dest: less_le_trans)
  ultimately show ?thesis using fd assms(2)
    by (intro wal_openI [of d ?ww "nwal + 1" ?t "mode_file i Append"]) (use assms(6) in \<open>auto simp: wal_name_def mode_file_def\<close>)
qed

lemma wal_rotate_quiet:
  assumes "files_ok d tables live s" and "wal_open d ww nwal lg s" and "names_free d nsst s" and "nwal < nwal + 1"
    and "tidy d live' L s"
  shows "\<exists>ww' t. WalWriter_create s (wal_path d nwal) = (ok ww', t) \<and> ww_path ww' = wal_path d nwal
     \<and> wal_open d ww' (nwal + 1) (if ww_path ww = wal_path d nwal then lg else []) t \<and> files_ok d tables live t
     \<and> names_free d nsst t \<and> kept s t \<and> tidy d live' (insert (wal_path d nwal) L) t"
proof -
  let ?p = "wal_path d nwal" and ?ww = "\<lparr>ww_path = wal_path d nwal, ww_fh = FileHandle (next_fd s)\<rparr>"
  have q: "answers s = []" "fs_wf s" using assms(1) by (simp_all add: files_ok_def)
  obtain g where g: "wal_name d ww nwal" "fd_file s (fd (ww_fh ww)) = Some (g, \<lparr>contents = lg, durable = lg\<rparr>)"
      "unread s (of_ino g)" "map_of (dir s) (ww_path ww) = Some (of_ino g)"
      "\<forall>k \<ge> nwal. wal_path d k \<noteq> ww_path ww \<longrightarrow> map_of (dir s) (wal_path d k) = None"
    by (rule wal_openE [OF assms(2)])
  have fut: "map_of (dir s) (wal_path d k) = None" if "nwal < k" for k
  proof -
    have "wal_path d k \<noteq> ww_path ww"
      using g(1) that measure_unat [of nwal] by (auto simp: wal_name_def word_less_nat_alt dest!: wal_path_inj)
    with g(5) that show ?thesis by simp
  qed
  show ?thesis
  proof (cases "ww_path ww = ?p")
    case True
    let ?i = "of_ino g"
    let ?t = "fs_opened s ?i Append"
    have Some: "map_of (dir s) ?p = Some ?i" using g(4) True by simp
    have i: "?i < next_ino s" "inodes s ?i = Some \<lparr>contents = lg, durable = lg\<rparr>"
      using fs_wf_path [OF q(2) Some] fd_file_SomeD [OF g(2)] by auto
    have "WalWriter_create s ?p = (ok ?ww, ?t)"
      using posix_open_existing [OF q(1) Some, of Append] by (simp add: WalWriter_create_def)
    moreover have "wal_open d ?ww (nwal + 1) lg ?t" using fut by (intro wal_open_opened [OF q(2) Some g(3) i(2) _ assms(4)]) simp
    moreover have "files_ok d tables live ?t"
      by (rule files_ok_mono [OF assms(1) fs_wf_opened [OF q(2) i(1)]]) (use q i(2) in simp_all)
    moreover have "names_free d nsst ?t" using assms(3) by (simp add: names_free_def is_directory_def)
    moreover have "tidy d live' (insert ?p L) ?t" by (rule tidy_mono [OF assms(5)]) auto
    ultimately show ?thesis using kept_opened [OF q(2)] True by (intro exI [of _ ?ww] exI [of _ ?t]) simp
  next
    case False
    let ?s = "create_file s ?p" and ?t = "fs_fresh s ?p Append"
    have None: "map_of (dir s) ?p = None" using g(5) False by simp
    have wf: "fs_wf ?s" by (rule fs_wf_create [OF q(2) None])
    have "is_directory s (parent_of ?p)" using assms(3) by (simp add: parent_wal_path names_free_def)
    then have "WalWriter_create s ?p = (ok ?ww, ?t)"
      using posix_open_new [OF q(1) None, of Append] by (simp add: WalWriter_create_def)
    moreover have "wal_open d ?ww (nwal + 1) [] ?t"
    proof -
      have "map_of (dir ?s) (wal_path d n) = None" if "nwal < n" for n
        using fut that wal_path_inj [of d n nwal] by (auto simp: map_add_def)
      moreover have "unread ?s (next_ino s)" using fs_wf_fd [OF q(2)] by (force simp: unread_def)
      moreover have "map_of (dir ?s) ?p = Some (next_ino s)" using None by (simp add: map_add_def)
      moreover have "inodes ?s (next_ino s) = Some \<lparr>contents = [], durable = []\<rparr>" by simp
      ultimately show ?thesis using wal_open_opened [OF wf _ _ _ _ assms(4), of d "next_ino s" "[]"] by simp
    qed
    moreover have "files_ok d tables live ?t"
    proof (rule files_ok_mono [OF assms(1) fs_fresh_wf [OF q(2) None]])
      fix sid i n assume i: "map_of (dir s) (sst_path d (id_value sid)) = Some i" "inodes s i = Some n"
      then have "i \<noteq> next_ino s" using fs_wf_path [OF q(2)] by blast
      then show "inodes ?t i = Some n" using i(2) by simp
    qed (use q in \<open>simp_all add: map_add_def split: option.split\<close>)
    moreover have "names_free d nsst ?t" using assms(3) by (simp add: names_free_def is_directory_def map_add_def)
    moreover have "tidy d live' (insert ?p L) ?t"
      using assms(5) by (auto simp: tidy_def parent_wal_path)
    ultimately show ?thesis using fs_fresh_kept [OF q(2) None] False by (intro exI [of _ ?ww] exI [of _ ?t]) simp
  qed
qed

end
