(* ===== verification/Engine_Invariant.thy ===== *)
theory Engine_Invariant
  imports Engine_Files
begin

text \<open>
  The invariant of the engine and the map it stands for. Ghost state: the table that was written
  under every id. The live tables, oldest first, and the memtable form a stack in which entries of
  the same key get higher sequence numbers towards the top, so that the order in which the engine
  searches the tables agrees with the order of the writes.
\<close>

section \<open>Stacks of tables\<close>

definition older :: "entry list \<Rightarrow> entry list \<Rightarrow> bool" where
  "older a b \<longleftrightarrow> (\<forall>k v v'. (k, v) \<in> set a \<longrightarrow> (k, v') \<in> set b \<longrightarrow> sequence v < sequence v' \<or> v = v')"

definition stack_ok :: "entry list list \<Rightarrow> bool" where
  "stack_ok tbls \<longleftrightarrow> sorted_wrt older tbls \<and> (\<forall>t \<in> set tbls. ordered t)"

definition stack_map :: "entry list list \<Rightarrow> Key \<rightharpoonup> InternalValue" where
  "stack_map tbls = foldl (\<lambda>m t. m ++ map_of t) Map.empty tbls"

lemma stack_map_simps [simp]: "stack_map [] = Map.empty" "stack_map (tbls @ [t]) = stack_map tbls ++ map_of t"
  by (simp_all add: stack_map_def)

lemma stack_map_append: "stack_map (xs @ ys) = stack_map xs ++ stack_map ys"
  by (induction ys rule: rev_induct) (simp_all add: append_assoc [symmetric] del: append_assoc)

lemma disk_map_stack: "disk_map tables ids = stack_map (map (\<lambda>sid. the (tables sid)) ids)"
  by (simp add: disk_map_def stack_map_def foldl_map)

lemma older_subset: "older a b \<Longrightarrow> set a' \<subseteq> set a \<Longrightarrow> set b' \<subseteq> set b \<Longrightarrow> older a' b'"
  unfolding older_def by blast

lemma stack_ok_append: "stack_ok (xs @ ys) \<longleftrightarrow> stack_ok xs \<and> stack_ok ys \<and> (\<forall>x \<in> set xs. \<forall>y \<in> set ys. older x y)"
  by (auto simp: stack_ok_def sorted_wrt_append)

lemma ordered_key_unique: "ordered t \<Longrightarrow> (k, v) \<in> set t \<Longrightarrow> (k, v') \<in> set t \<Longrightarrow> v = v'"
  using map_of_is_SomeI [of t k v] map_of_is_SomeI [of t k v'] by (simp add: strict_sorted_iff)

lemma ordered_map_of_iff: "ordered t \<Longrightarrow> map_of t k = Some v \<longleftrightarrow> (k, v) \<in> set t"
  by (simp add: strict_sorted_iff)

lemma stack_consistent: "stack_ok tbls \<Longrightarrow> consistent (set (concat tbls))"
proof (induction tbls rule: rev_induct)
  case (snoc t tbls)
  from snoc.prems have s: "stack_ok tbls" "ordered t" "\<forall>x \<in> set tbls. older x t" by (auto simp: stack_ok_append) (simp add: stack_ok_def)
  show ?case unfolding consistent_def
  proof (intro allI impI)
    fix k v v' assume a: "(k, v) \<in> set (concat (tbls @ [t]))" "(k, v') \<in> set (concat (tbls @ [t]))" "sequence v = sequence v'"
    then consider "(k, v) \<in> set (concat tbls)" "(k, v') \<in> set (concat tbls)" | "(k, v) \<in> set t" "(k, v') \<in> set t" | "v = v'"
      using s(3) unfolding older_def by fastforce
    then show "v = v'"
    proof cases
      case 1
      with snoc.IH [OF s(1)] a(3) show ?thesis unfolding consistent_def by blast
    qed (use ordered_key_unique [OF s(2)] in blast)+
  qed
qed (simp add: consistent_def)

lemma stack_map_iff:
  assumes "stack_ok tbls"
  shows "stack_map tbls k = Some v \<longleftrightarrow>
    (k, v) \<in> set (concat tbls) \<and> (\<forall>v'. (k, v') \<in> set (concat tbls) \<longrightarrow> sequence v' \<le> sequence v)"
  using assms
proof (induction tbls arbitrary: v rule: rev_induct)
  case (snoc t tbls)
  from snoc.prems have s: "stack_ok tbls" "ordered t" "\<forall>x \<in> set tbls. older x t" by (auto simp: stack_ok_append) (simp add: stack_ok_def)
  have low: "sequence v < sequence v' \<or> v = v'" if "(k, v) \<in> set (concat tbls)" "(k, v') \<in> set t" for v v'
    using that s(3) unfolding older_def by auto
  show ?case
  proof (cases "map_of t k")
    case None
    then have "\<forall>w. (k, w) \<notin> set t" using ordered_map_of_iff [OF s(2)] by (metis option.distinct(1))
    with None snoc.IH [OF s(1)] show ?thesis by (auto simp: map_add_def)
  next
    case (Some w)
    then have w: "(k, w) \<in> set t" using ordered_map_of_iff [OF s(2)] by blast
    have top: "sequence v' \<le> sequence w" if "(k, v') \<in> set (concat (tbls @ [t]))" for v'
    proof (cases "(k, v') \<in> set (concat tbls)")
      case True
      then show ?thesis using low [OF True w] by (auto intro: less_imp_le)
    qed (use that ordered_key_unique [OF s(2) w, of v'] in auto)
    have "v = w" if "(k, v) \<in> set (concat (tbls @ [t]))" "sequence w \<le> sequence v"
    proof (cases "(k, v) \<in> set (concat tbls)")
      case True
      then show ?thesis using low [OF True w] that(2) by (auto simp: not_less)
    qed (use that ordered_key_unique [OF s(2) w, of v] in auto)
    with w top Some show ?thesis by (auto simp: map_add_def)
  qed
qed simp

lemma merged_stack:
  assumes "stack_ok tbls" and "merged_of (set (concat tbls)) r"
  shows "map_of r = stack_map tbls"
proof
  fix k
  have r: "fst ` set r = fst ` set (concat tbls)"
      "\<forall>(k, v) \<in> set r. (k, v) \<in> set (concat tbls) \<and> (\<forall>v'. (k, v') \<in> set (concat tbls) \<longrightarrow> sequence v' \<le> sequence v)"
    using assms(2) unfolding merged_of_def by blast+
  show "map_of r k = stack_map tbls k"
  proof (cases "map_of r k")
    case (Some v)
    then have "(k, v) \<in> set r" by (rule map_of_SomeD)
    with r(2) have "(k, v) \<in> set (concat tbls) \<and> (\<forall>v'. (k, v') \<in> set (concat tbls) \<longrightarrow> sequence v' \<le> sequence v)" by blast
    with stack_map_iff [OF assms(1), of k v] Some show ?thesis by metis
  next
    case None
    then have "k \<notin> fst ` set (concat tbls)" unfolding r(1) [symmetric] by (simp add: map_of_eq_None_iff)
    then have "\<And>v. stack_map tbls k \<noteq> Some v" using stack_map_iff [OF assms(1), of k] by force
    with None show ?thesis by (metis not_Some_eq)
  qed
qed

lemma ordered_eqI: "ordered xs \<Longrightarrow> ordered ys \<Longrightarrow> map_of xs = map_of ys \<Longrightarrow> xs = ys"
proof -
  assume a: "ordered xs" "ordered ys" "map_of xs = map_of ys"
  then have "dom (map_of xs) = dom (map_of ys)" by simp
  then have "set (map fst xs) = set (map fst ys)" by (simp add: dom_map_of_conv_image_fst)
  with a(1,2) have k: "map fst xs = map fst ys" by (metis strict_sorted_equal)
  have "xs ! i = ys ! i" if "i < length xs" for i
  proof -
    have len: "length xs = length ys" using k by (metis length_map)
    have f: "fst (xs ! i) = fst (ys ! i)" using k that len by (metis nth_map)
    have "map_of xs (fst (xs ! i)) = Some (snd (xs ! i))" "map_of ys (fst (ys ! i)) = Some (snd (ys ! i))"
      using a(1,2) that len by (auto simp: strict_sorted_iff)
    with a(3) f show ?thesis by (simp add: prod_eq_iff)
  qed
  moreover have "length xs = length ys" using k by (metis length_map)
  ultimately show ?thesis by (intro nth_equalityI) simp_all
qed

section \<open>The invariant\<close>

definition live_ids :: "Dazzle \<Rightarrow> SSTableId list" where
  "live_ids dz = map fst (current_files (version_set dz))"

definition live_tables :: "(SSTableId \<rightharpoonup> entry list) \<Rightarrow> Dazzle \<Rightarrow> entry list list" where
  "live_tables tables dz = map (\<lambda>sid. the (tables sid)) (live_ids dz)"

definition small :: "u64 \<Rightarrow> entry list \<Rightarrow> bool" where
  "small n t \<longleftrightarrow> (\<forall>e \<in> set t. length (entry_image e) \<le> MAX_PAGING_SIZE_BYTES \<and> sequence (snd e) < n)"

text \<open>The version set of an engine at rest: no version is held, nothing is left to reclaim.\<close>

definition versions_ok :: "VersionSet \<Rightarrow> bool" where
  "versions_ok vs \<longleftrightarrow> vs_inv vs \<and> (\<forall>v. readers vs v = 0) \<and> pending_obsolete_ids vs = []
     \<and> (\<forall>(i, m) \<in> set (current_files vs). meta_id m = i)"

definition files_inv :: "(SSTableId \<rightharpoonup> entry list) \<Rightarrow> bytes \<Rightarrow> string set \<Rightarrow> dz_state \<Rightarrow> bool" where
  "files_inv tables lg L st \<longleftrightarrow> (case st of (s, dz) \<Rightarrow>
     tc_ok (data_dir dz) tables (set (live_ids dz)) (s, table_cache dz)
     \<and> wal_open (data_dir dz) (wal_writer dz) (next_wal_seq dz) lg s
     \<and> tidy (data_dir dz) (set (live_ids dz)) L s \<and> ww_path (wal_writer dz) \<in> L
     \<and> L \<subseteq> {ww_path (wal_writer dz), wal_path (data_dir dz) (next_wal_seq dz - 1)}
     \<and> names_free (data_dir dz) (next_sst_seq dz) s
     \<and> versions_ok (version_set dz)
     \<and> (\<forall>sid \<in> dom tables. id_value sid < next_sst_seq dz))"

definition data_inv :: "u64 \<Rightarrow> (SSTableId \<rightharpoonup> entry list) \<Rightarrow> Dazzle \<Rightarrow> bool" where
  "data_inv b tables dz \<longleftrightarrow> memtable_inv (active_memtable dz)
     \<and> stack_ok (live_tables tables dz @ [entries (active_memtable dz)])
     \<and> (\<forall>t \<in> set (live_tables tables dz @ [entries (active_memtable dz)]). small b t)"

definition dz_inv :: "u64 \<Rightarrow> (SSTableId \<rightharpoonup> entry list) \<Rightarrow> bytes \<Rightarrow> string set \<Rightarrow> dz_state \<Rightarrow> bool" where
  "dz_inv b tables lg L st \<longleftrightarrow> files_inv tables lg L st \<and> data_inv b tables (snd st)"

text \<open>The map the engine stands for, and the bytes its entries take in table files.\<close>

definition dz_map :: "(SSTableId \<rightharpoonup> entry list) \<Rightarrow> Dazzle \<Rightarrow> Key \<rightharpoonup> Value" where
  "dz_map tables dz = (\<lambda>k. reveal (stack_map (live_tables tables dz @ [entries (active_memtable dz)]) k))"

definition dz_bytes :: "(SSTableId \<rightharpoonup> entry list) \<Rightarrow> Dazzle \<Rightarrow> nat" where
  "dz_bytes tables dz = length (block_image (concat (live_tables tables dz @ [entries (active_memtable dz)])))"

section \<open>Versions at rest\<close>

lemma versions_okD:
  assumes "versions_ok vs"
  shows "vs_inv vs" and "readers vs v = 0" and "pending_obsolete_ids vs = []" and "ordered (current_files vs)"
    and "map meta_id (sst_meta_to_vector (current_files vs)) = map fst (current_files vs)"
  using assms by (auto simp: versions_ok_def vs_inv_def current_files_def sst_meta_to_vector_def)

lemma get_release [simp]:
  "release_version (current_version vs) (vs\<lparr>readers := (readers vs)(current_version vs := Suc (readers vs (current_version vs)))\<rparr>) = vs"
  by (simp add: release_version_def)

lemma get_current_eq:
  "get_current vs = (current_version vs, vs\<lparr>readers := (readers vs)(current_version vs := Suc (readers vs (current_version vs)))\<rparr>)"
  by (simp add: get_current_def Let_def)

lemma metas_eq [simp]: "dz_sst_meta_to_vector dz = (sst_meta_to_vector (current_files (version_set dz)), dz)"
  by (simp add: dz_sst_meta_to_vector_def get_current_eq current_files_def)

lemma map_find_eq: "map_find m = map_of m"
  by (simp add: fun_eq_iff map_find_def)

lemma map_of_filter_keys: "map_of (filter (\<lambda>(i, _). i \<notin> S) xs) i = (if i \<in> S then None else map_of xs i)"
  by (induction xs) auto

lemma vs_apply_replace:
  assumes "versions_ok vs" and "\<forall>i \<in> fst ` set (current_files vs). i < meta_id m" and "set ids \<subseteq> fst ` set (current_files vs)"
  shows "\<exists>is vs'. vs_apply \<lparr>removed = ids, added = [m], next_sst_id = None\<rparr> vs = (ok is, vs') \<and> versions_ok vs'
     \<and> set is = set ids \<and> current_files vs' = filter (\<lambda>(i, _). i \<notin> set ids) (current_files vs) @ [(meta_id m, m)]"
proof -
  let ?edit = "\<lparr>removed = ids, added = [m], next_sst_id = None\<rparr>" and ?rest = "filter (\<lambda>(i, _). i \<notin> set ids) (current_files vs)"
  note v = versions_okD [OF assms(1)]
  have "\<forall>i \<in> set ids. map_find (current_files vs) i \<noteq> None" using assms(3) by (auto simp: map_find_def map_of_eq_None_iff)
  then have "\<not> list_ex (\<lambda>i. map_find (current_files vs) i = None) (removed ?edit)" by (auto simp: list_ex_iff)
  then obtain r vs' where r: "vs_apply ?edit vs = (ok r, vs')"
    by (cases "append_version (fold (\<lambda>m. map_assign (meta_id m) m) (added ?edit) (fold map_erase (removed ?edit) (current_files vs)))
        (removed ?edit) vs") (simp add: vs_apply_def Let_def)
  note a = vs_apply_ok [OF v(1) r]
  have one: "set (live_versions vs') = {current_version vs'}" using a v(2) by simp
  have cur: "map_find (current_files vs') = (map_find (current_files vs) |` (- set ids))(meta_id m \<mapsto> m)" using a by simp
  have ids: "i < meta_id m" if "i \<in> set ids" for i using that assms(2,3) by auto
  then have gone: "map_find (current_files vs') i = None" if "i \<in> set ids" for i using that unfolding cur by (auto simp: restrict_map_def)
  have "set r = {i \<in> set ids. \<forall>v \<in> set (live_versions vs'). map_find (version_files vs' v) i = None}" using a v(3) by simp
  with one gone have sr: "set r = set ids" by (auto simp: current_files_def)
  have "set (pending_obsolete_ids vs') = set ids - set r" using a v(3) by simp
  then have pend: "pending_obsolete_ids vs' = []" using sr by (metis Diff_cancel set_empty)
  have ord: "ordered (current_files vs')" using a by (auto simp: vs_inv_def current_files_def)
  have "ordered ?rest" using v(4) by (simp add: sorted_wrt_map) (rule sorted_wrt_filter)
  then have "ordered (?rest @ [(meta_id m, m)])" using assms(2) by (auto simp: sorted_wrt_append)
  moreover have "map_of (current_files vs') = map_of (?rest @ [(meta_id m, m)])"
  proof
    fix i
    have "meta_id m \<notin> fst ` set (current_files vs)" using assms(2) by auto
    then have "map_of (current_files vs) (meta_id m) = None" by (simp add: map_of_eq_None_iff)
    then show "map_of (current_files vs') i = map_of (?rest @ [(meta_id m, m)]) i"
      using cur ids by (auto simp: map_find_eq map_add_def map_of_filter_keys restrict_map_def split: option.splits)
  qed
  ultimately have cf: "current_files vs' = ?rest @ [(meta_id m, m)]" using ord by (intro ordered_eqI)
  have "versions_ok vs'" using a v(2) pend assms(1) cf by (auto simp: versions_ok_def)
  with r sr cf show ?thesis by blast
qed

end
