(* ===== verification/Engine_Compaction.thy ===== *)
theory Engine_Compaction
  imports Engine_Invariant
begin

text \<open>
  Compaction inside the engine: replacing the newest live tables by their merge keeps the invariant
  and the map the engine stands for.
\<close>

section \<open>Replacing tables of a stack\<close>

lemma stack_ok_replace:
  assumes "stack_ok (P @ I @ Q)" and "ordered t" and "set t \<subseteq> set (concat I)"
  shows "stack_ok (P @ [t] @ Q)"
proof -
  have "older x t" if "x \<in> set P" for x
    using assms(1,3) that unfolding stack_ok_append older_def by (fastforce simp: subset_iff)
  moreover have "older t y" if "y \<in> set Q" for y
    using assms(1,3) that unfolding stack_ok_append older_def by (fastforce simp: subset_iff)
  ultimately show ?thesis using assms(1,2) by (auto simp: stack_ok_append) (simp add: stack_ok_def)
qed

lemma map_of_kept_entries:
  assumes "ordered r"
  shows "map_of (kept_entries full r) k = (case map_of r k of Some v \<Rightarrow> if is_tombstone v \<and> full then None else Some v | None \<Rightarrow> None)"
  using assms
proof (induction r)
  case (Cons e r)
  obtain k' v where e: "e = (k', v)" by (cases e)
  have "k' \<notin> fst ` set (kept_entries full r)" using Cons.prems e by (auto simp: kept_entries_def)
  then have "map_of (kept_entries full r) k' = None" by (simp add: map_of_eq_None_iff)
  with Cons e show ?case by (auto simp: kept_entries_Cons)
qed (simp add: kept_entries_def)

lemma stack_map_Cons: "stack_map (t # Q) = map_of t ++ stack_map Q"
  using stack_map_append [of "[t]" Q] stack_map_simps(2) [of "[]" t] by simp

lemma reveal_replace:
  assumes "stack_ok (P @ I @ Q)" and "merged_of (set (concat I)) r" and "full \<Longrightarrow> P = []"
  shows "reveal (stack_map (P @ [kept_entries full r] @ Q) k) = reveal (stack_map (P @ I @ Q) k)"
proof -
  have I: "stack_ok I" using assms(1) by (simp add: stack_ok_append)
  have "ordered r" using assms(2) by (simp add: merged_of_def)
  note o = map_of_kept_entries [OF this, of full k, unfolded merged_stack [OF I assms(2)]]
  show ?thesis
    using o assms(3) by (cases "stack_map Q k"; cases "stack_map I k") (auto simp: stack_map_append stack_map_Cons map_add_def split: if_splits)
qed

section \<open>Installing a table\<close>

lemma unlinked_unlinked: "unlinked P (unlinked Q s) = unlinked (\<lambda>p. Q p \<or> P p) s"
  by (simp add: unlinked_def) (rule arg_cong, rule filter_cong, auto)

lemma unlinked_False [simp]: "unlinked (\<lambda>p. False) s = s"
  by (simp add: unlinked_def case_prod_unfold)

lemma tc_ok_unlinked:
  assumes "tc_ok d tables live (s, c)" and "\<And>sid. sid \<in> live \<Longrightarrow> \<not> P (sst_path d (id_value sid))"
  shows "tc_ok d tables live (unlinked P s, c)"
proof (rule tc_ok_files [OF assms(1) unlinked_kept])
  show "files_ok d tables live (unlinked P s)" by (rule files_ok_unlinked [OF tc_okD(5) [OF assms(1)]]) (rule assms(2))
qed simp

lemma tc_ok_subset: "tc_ok d tables live st \<Longrightarrow> live' \<subseteq> live \<Longrightarrow> tc_ok d tables live' st"
  by (auto simp: tc_ok_def files_ok_def)

lemma table_path_iff: "sst_path d (id_value sid) \<in> table_paths d ids \<longleftrightarrow> sid \<in> ids"
  by (auto simp: table_paths_def dest!: sst_path_inj SSTableId.expand)

lemma reclaim_ok:
  assumes "tc_ok d tables live (s, table_cache dz)" and "data_dir dz = d" and "set ids \<inter> live = {}"
  shows "\<exists>c. reclaim ids (s, dz) = (ok (), (unlinked (\<lambda>p. p \<in> table_paths d (set ids)) s, dz\<lparr>table_cache := c\<rparr>))
     \<and> tc_ok d tables live (unlinked (\<lambda>p. p \<in> table_paths d (set ids)) s, c) \<and> (\<forall>H. sc.pinned (table_cache dz) H \<longrightarrow> sc.pinned c H)"
  using assms
proof (induction ids arbitrary: s dz)
  case Nil
  then show ?case by (intro exI [of _ "table_cache dz"]) (simp add: table_paths_def)
next
  case (Cons sid ids)
  let ?p = "sst_path d (id_value sid)"
  obtain e where e: "tc_evict sid (s, table_cache dz) = (ok (), (s, e))" "tc_ok d tables live (s, e)"
      "\<forall>H. sc.pinned (table_cache dz) H \<longrightarrow> sc.pinned e H"
    using tc_evict_ok [OF Cons.prems(1), of sid] by (elim exE conjE)
  let ?s = "unlinked (\<lambda>q. q = ?p) s" and ?dz = "dz\<lparr>table_cache := e\<rparr>"
  have "calm d s" using tc_okD(5) [OF Cons.prems(1)] by (simp add: files_ok_def)
  from posix_remove_quiet [OF tc_okD(2) [OF Cons.prems(1)] this] obtain r where rm: "posix_remove s ?p = (r, ?s)" "\<forall>w. r \<noteq> abort w"
    by blast
  have "tc_ok d tables live (?s, e)"
    using Cons.prems(3) by (intro tc_ok_unlinked [OF e(2)]) (auto dest!: sst_path_inj SSTableId.expand)
  then obtain c where c: "reclaim ids (?s, ?dz) = (ok (), (unlinked (\<lambda>p. p \<in> table_paths d (set ids)) ?s, ?dz\<lparr>table_cache := c\<rparr>))"
      "tc_ok d tables live (unlinked (\<lambda>p. p \<in> table_paths d (set ids)) ?s, c)" "\<forall>H. sc.pinned e H \<longrightarrow> sc.pinned c H"
    using Cons.IH [of ?s ?dz] Cons.prems(2,3) by auto
  have un: "unlinked (\<lambda>p. p \<in> table_paths d (set ids)) ?s = unlinked (\<lambda>p. p \<in> table_paths d (set (sid # ids))) s"
    by (simp add: unlinked_unlinked table_paths_def)
  have "reclaim (sid # ids) (s, dz) = reclaim ids (?s, ?dz)"
    using e(1) rm Cons.prems(2) by (auto simp: on_cache_def abort_def split: sum.split failure.split)
  with c e(3) show ?case unfolding un by (intro exI [of _ c]) simp
qed

lemma apply_edit_ok:
  assumes "tc_ok d tables live (s, table_cache dz)" and "data_dir dz = d" and "versions_ok (version_set dz)"
    and "\<forall>i \<in> set (live_ids dz). i < meta_id m" and "set ids \<subseteq> set (live_ids dz)" and "set (live_ids dz) \<union> {meta_id m} \<subseteq> live"
    and "wal_open d ww nwal lg s" and "names_free d nsst s" and "tidy d (set (live_ids dz) \<union> {meta_id m}) logs s"
    and "ww_path ww \<in> logs" and "\<forall>p \<in> logs. \<exists>n. p = wal_path d n"
  shows "\<exists>t vs c. apply_edit \<lparr>removed = ids, added = [m], next_sst_id = None\<rparr> (s, dz)
       = (ok (), (t, dz\<lparr>version_set := vs, table_cache := c\<rparr>))
     \<and> tc_ok d tables (set (live_ids dz) - set ids \<union> {meta_id m}) (t, c) \<and> versions_ok vs
     \<and> current_files vs = filter (\<lambda>(i, _). i \<notin> set ids) (current_files (version_set dz)) @ [(meta_id m, m)]
     \<and> wal_open d ww nwal lg t \<and> names_free d nsst t \<and> tidy d (set (live_ids dz) - set ids \<union> {meta_id m}) logs t
     \<and> (\<forall>H. sc.pinned (table_cache dz) H \<longrightarrow> sc.pinned c H)"
proof -
  let ?live = "set (live_ids dz) - set ids \<union> {meta_id m}"
  obtain ix vs where v: "vs_apply \<lparr>removed = ids, added = [m], next_sst_id = None\<rparr> (version_set dz) = (ok ix, vs)" "versions_ok vs"
      "set ix = set ids" "current_files vs = filter (\<lambda>(i, _). i \<notin> set ids) (current_files (version_set dz)) @ [(meta_id m, m)]"
    using vs_apply_replace [OF assms(3), of m ids] assms(4,5) by (auto simp: live_ids_def)
  let ?dz = "dz\<lparr>version_set := vs\<rparr>" and ?P = "\<lambda>p. p \<in> table_paths d (set ix)"
  have "meta_id m \<notin> set ids" using assms(4,5) by (metis less_irrefl subsetD)
  then have dis: "set ix \<inter> ?live = {}" unfolding v(3) by blast
  have "tc_ok d tables ?live (s, table_cache ?dz)" using tc_ok_subset [OF assms(1), of ?live] assms(6) by auto
  then obtain c where c: "reclaim ix (s, ?dz) = (ok (), (unlinked ?P s, ?dz\<lparr>table_cache := c\<rparr>))"
      "tc_ok d tables ?live (unlinked ?P s, c)" "\<forall>H. sc.pinned (table_cache ?dz) H \<longrightarrow> sc.pinned c H"
    using reclaim_ok [of d tables ?live s ?dz ix] dis assms(2) by auto
  have "apply_edit \<lparr>removed = ids, added = [m], next_sst_id = None\<rparr> (s, dz) = (ok (), (unlinked ?P s, dz\<lparr>version_set := vs, table_cache := c\<rparr>))"
    using v(1) c(1) by (simp add: apply_edit_def ok_def)
  moreover have "p \<notin> table_paths d (set ix)" if "p \<in> logs" for p using that assms(11) by (auto simp: table_paths_def)
  moreover from this have "wal_open d ww nwal lg (unlinked ?P s)" using assms(10) by (intro wal_open_unlinked [OF assms(7)]) blast
  moreover have "tidy d ?live logs (unlinked ?P s)" by (rule tidy_unlinked [OF assms(9)]) (auto simp: table_path_iff v(3))
  ultimately show ?thesis using c(2,3) v(2,4) names_free_unlinked [OF assms(8)]
    by (intro exI [of _ "unlinked ?P s"] exI [of _ vs] exI [of _ c]) simp
qed

lemma install_ok:
  assumes "tc_ok d tables live (s, table_cache dz)" and "data_dir dz = d" and "versions_ok (version_set dz)"
    and "\<forall>i \<in> set (live_ids dz). i < sid" and "set ids \<subseteq> set (live_ids dz)" and "set (live_ids dz) \<union> {sid} \<subseteq> live"
    and "wal_open d ww nwal lg s" and "names_free d nsst s" and "tidy d (set (live_ids dz) \<union> {sid}) logs s"
    and "ww_path ww \<in> logs" and "\<forall>p \<in> logs. \<exists>n. p = wal_path d n"
  shows "\<exists>t vs c m. install \<lparr>task_inputs = ids, output_id = sid, task_can_drop_tombstone = b\<rparr> (s, dz)
       = (ok (), (t, dz\<lparr>version_set := vs, table_cache := c\<rparr>))
     \<and> tc_ok d tables (set (live_ids dz) - set ids \<union> {sid}) (t, c) \<and> versions_ok vs
     \<and> current_files vs = filter (\<lambda>(i, _). i \<notin> set ids) (current_files (version_set dz)) @ [(sid, m)]
     \<and> wal_open d ww nwal lg t \<and> names_free d nsst t \<and> tidy d (set (live_ids dz) - set ids \<union> {sid}) logs t
     \<and> (\<forall>H. sc.pinned (table_cache dz) H \<longrightarrow> sc.pinned c H)"
proof -
  have sid: "sid \<in> live" using assms(6) by simp
  with assms(1) obtain tbl where tbl: "tables sid = Some tbl" by (auto simp: tc_ok_def files_ok_def)
  obtain rd h t e where g: "tc_get d sid (s, table_cache dz) = (ok (rd, h), (t, e))" "tc_ok d tables live (t, e)"
      "same_files s t" "\<forall>H. sc.pinned (table_cache dz) H \<longrightarrow> sc.pinned e (add_mset h H)"
    using tc_get_ok [OF assms(1) sid tbl] by (elim exE conjE)
  let ?m = "meta_of sid (sr_footer rd)" and ?dz = "dz\<lparr>table_cache := e\<rparr>" and ?live = "set (live_ids dz) - set ids \<union> {sid}"
  have m: "meta_id ?m = sid" "live_ids ?dz = live_ids dz" by (simp_all add: meta_of_def live_ids_def)
  obtain u vs c where a: "apply_edit \<lparr>removed = ids, added = [?m], next_sst_id = None\<rparr> (t, ?dz)
       = (ok (), (u, ?dz\<lparr>version_set := vs, table_cache := c\<rparr>))" "tc_ok d tables ?live (u, c)" "versions_ok vs"
     "current_files vs = filter (\<lambda>(i, _). i \<notin> set ids) (current_files (version_set dz)) @ [(sid, ?m)]"
     "wal_open d ww nwal lg u" "names_free d nsst u" "tidy d ?live logs u" "\<forall>H. sc.pinned e H \<longrightarrow> sc.pinned c H"
    using apply_edit_ok [of d tables live t ?dz ?m ids ww nwal lg nsst logs] g(2) assms(2-6,10,11)
      wal_open_same [OF assms(7) g(3) tc_okD(1) [OF assms(1)]] names_free_same [OF assms(8) g(3)] tidy_same [OF assms(9) g(3)]
    unfolding m by auto
  have rel: "\<exists>c'. tc_release h (u, c) = (ok (), (u, c')) \<and> tc_ok d tables ?live (u, c') \<and> sc.pinned c' H"
    if "sc.pinned (table_cache dz) H" for H
    using tc_release_ok [OF a(2), of h H] a(8) g(4) that by blast
  from rel [of "{#}"] obtain c' where c': "tc_release h (u, c) = (ok (), (u, c'))" "tc_ok d tables ?live (u, c')" by auto
  have "\<forall>H. sc.pinned (table_cache dz) H \<longrightarrow> sc.pinned c' H" using rel c'(1) by auto
  moreover have "install \<lparr>task_inputs = ids, output_id = sid, task_can_drop_tombstone = b\<rparr> (s, dz)
      = (ok (), (u, dz\<lparr>version_set := vs, table_cache := c'\<rparr>))"
    using g(1) a(1) c'(1) assms(2) by (simp add: install_def on_cache_def)
  ultimately show ?thesis using a(3-7) c'(2) by (intro exI conjI)
qed

section \<open>Running a task\<close>

lemma blocks_filled_small: "small n t \<Longrightarrow> blocks_filled t"
  by (rule blocks_filledI) (simp add: small_def)

lemma next_id_fresh:
  assumes "files_inv tables lg L (s, dz)" and "sid \<in> set (live_ids dz)"
  shows "id_value sid < next_sst_seq dz" and "sid < SSTableId (next_sst_seq dz)"
proof -
  from assms have "sid \<in> dom tables" by (auto simp: files_inv_def tc_ok_def files_ok_def)
  with assms(1) show "id_value sid < next_sst_seq dz" by (auto simp: files_inv_def)
  then show "sid < SSTableId (next_sst_seq dz)" by (simp add: less_SSTableId_def)
qed

lemma input_image_le:
  assumes "set ids \<subseteq> set (live_ids dz)" and "distinct ids"
  shows "length (block_image (concat (map (\<lambda>sid. the (tables sid)) ids))) \<le> dz_bytes tables dz"
proof -
  let ?f = "\<lambda>sid. length (block_image (the (tables sid)))"
  have b: "length (block_image (concat (map (\<lambda>sid. the (tables sid)) xs))) = sum_list (map ?f xs)" for xs
    by (induction xs) simp_all
  have "sum_list (map ?f ids) = (\<Sum>x \<in> set ids. ?f x)" using assms(2) by (simp add: sum_list_distinct_conv_sum_set)
  also have "\<dots> \<le> (\<Sum>x \<in> set (live_ids dz). ?f x)" using assms(1) by (intro sum_mono2) simp_all
  also have "\<dots> \<le> sum_list (map ?f (live_ids dz))" 
  proof -
    have "(\<Sum>x \<in> set xs. ?f x) \<le> sum_list (map ?f xs)" for xs by (induction xs) (simp_all add: sum.insert_if)
    then show ?thesis .
  qed
  finally show ?thesis by (simp add: dz_bytes_def live_tables_def b)
qed

text \<open>What a task does to the files, whatever live tables it merges.\<close>

lemma run_task_files:
  assumes "dz_inv b tables lg L (s, dz)" and "n = next_sst_seq dz" and "n < n + 1" and "set ids \<subseteq> set (live_ids dz)" and "distinct ids"
    and "I = map (\<lambda>sid. the (tables sid)) ids" and "concat I \<noteq> []" and "dz_bytes tables dz < 2 ^ 28" and "merged_of (set (concat I)) r"
    and "out = kept_entries full r"
  shows "\<exists>t vs c. run_task \<lparr>task_inputs = ids, output_id = SSTableId n, task_can_drop_tombstone = full\<rparr> (s, dz\<lparr>next_sst_seq := n + 1\<rparr>)
       = (ok (Some (SSTableId n)), (t, dz\<lparr>next_sst_seq := n + 1, version_set := vs, table_cache := c\<rparr>))
     \<and> files_inv (tables(SSTableId n \<mapsto> out)) lg L (t, dz\<lparr>next_sst_seq := n + 1, version_set := vs, table_cache := c\<rparr>)
     \<and> map fst (current_files vs) = filter (\<lambda>i. i \<notin> set ids) (live_ids dz) @ [SSTableId n]
     \<and> (\<forall>H. sc.pinned (table_cache dz) H \<longrightarrow> sc.pinned c H)"
proof -
  let ?d = "data_dir dz" and ?sid = "SSTableId n" and ?live = "set (live_ids dz)" and ?tb = "tables(SSTableId n \<mapsto> out)"
  have fi: "files_inv tables lg L (s, dz)" and di: "data_inv b tables dz" using assms(1) by (simp_all add: dz_inv_def)
  have tc: "tc_ok ?d tables ?live (s, table_cache dz)" and wo: "wal_open ?d (wal_writer dz) (next_wal_seq dz) lg s"
    and td: "tidy ?d ?live L s" and L: "ww_path (wal_writer dz) \<in> L" "L \<subseteq> {ww_path (wal_writer dz), wal_path ?d (next_wal_seq dz - 1)}"
    and nf: "names_free ?d n s" and vo: "versions_ok (version_set dz)" and dom: "\<forall>sid \<in> dom tables. id_value sid < n"
    using fi assms(2) by (simp_all add: files_inv_def)
  have fresh: "tables ?sid = None" using dom by (metis SSTableId.sel domIff less_irrefl)
  have sub: "set (concat I) \<subseteq> set (concat (live_tables tables dz))" "set I \<subseteq> set (live_tables tables dz)"
    using assms(4) by (auto simp: assms(6) live_tables_def)
  have "stack_ok (live_tables tables dz)" using di by (simp add: data_inv_def stack_ok_append)
  from consistent_subset [OF stack_consistent [OF this] sub(1)] have con: "consistent (set (concat I))" .
  have p: "map_of (dir s) (sst_path ?d n) = None" "is_directory s (?d @ ''/sst'')" using nf by (simp_all add: names_free_def)
  have bytes: "length (block_image (concat I)) < 2 ^ 28"
    using le_less_trans [OF input_image_le [of ids dz tables] assms(8)] assms(4,5) versions_okD(4) [OF vo] assms(6) by simp
  have filled: "\<forall>t \<in> set I. blocks_filled t" using di sub(2) blocks_filled_small by (auto simp: data_inv_def)
  obtain s1 img e where c: "compact ?d ids n full (s, table_cache dz) = (ok ?sid, (fs_stored s1 (sst_path ?d n) img, e))"
      "tc_ok ?d ?tb (insert ?sid ?live) (fs_stored s1 (sst_path ?d n) img, e)"
      "same_files s s1" "fs_wf s1" "\<forall>H. sc.pinned (table_cache dz) H \<longrightarrow> sc.pinned e H"
    using compact_ok [OF tc assms(4) p fresh assms(6) con assms(9) filled assms(7) bytes assms(10)] by (elim exE conjE)
  let ?s = "fs_stored s1 (sst_path ?d n) img" and ?dz = "dz\<lparr>next_sst_seq := n + 1, table_cache := e\<rparr>"
  have w: "wal_open ?d (wal_writer dz) (next_wal_seq dz) lg ?s" by (rule wal_open_stored [OF wal_open_same [OF wo c(3) tc_okD(1) [OF tc]] c(4)])
  have nf2: "names_free ?d (n + 1) ?s" by (rule names_free_stored [OF names_free_same [OF nf c(3)] assms(3)])
  have td2: "tidy ?d (?live \<union> {?sid}) L ?s" using tidy_stored [OF tidy_same [OF td c(3)], of n img] by simp
  have log: "\<forall>p \<in> L. \<exists>k. p = wal_path ?d k" by (rule logs_named [OF wo L(2)])
  have below: "\<forall>i \<in> ?live. i < ?sid" using next_id_fresh(2) [OF fi] assms(2) by simp
  have ids: "live_ids ?dz = live_ids dz" by (simp add: live_ids_def)
  obtain t vs c' m where i: "install \<lparr>task_inputs = ids, output_id = ?sid, task_can_drop_tombstone = full\<rparr> (?s, ?dz)
       = (ok (), (t, ?dz\<lparr>version_set := vs, table_cache := c'\<rparr>))" "tc_ok ?d ?tb (?live - set ids \<union> {?sid}) (t, c')" "versions_ok vs"
     "current_files vs = filter (\<lambda>(i, _). i \<notin> set ids) (current_files (version_set dz)) @ [(?sid, m)]"
     "wal_open ?d (wal_writer dz) (next_wal_seq dz) lg t" "names_free ?d (n + 1) t" "tidy ?d (?live - set ids \<union> {?sid}) L t"
     "\<forall>H. sc.pinned e H \<longrightarrow> sc.pinned c' H"
    using install_ok [of ?d ?tb "insert ?sid ?live" ?s ?dz ?sid ids "wal_writer dz" "next_wal_seq dz" lg "n + 1" L full]
      c(2) vo assms(4) w nf2 td2 L(1) log below unfolding ids by auto
  let ?st = "dz\<lparr>next_sst_seq := n + 1, version_set := vs, table_cache := c'\<rparr>"
  have run: "run_task \<lparr>task_inputs = ids, output_id = ?sid, task_can_drop_tombstone = full\<rparr> (s, dz\<lparr>next_sst_seq := n + 1\<rparr>)
      = (ok (Some ?sid), (t, ?st))"
    using c(1) i(1) by (simp add: run_task_def execute_def on_cache_def ok_def)
  have "map fst (filter (\<lambda>(i, _). i \<notin> set ids) xs) = filter (\<lambda>i. i \<notin> set ids) (map fst xs)" for xs :: file_map by (induction xs) auto
  then have cf: "map fst (current_files vs) = filter (\<lambda>i. i \<notin> set ids) (live_ids dz) @ [?sid]" by (simp add: i(4) live_ids_def)
  then have ids': "set (live_ids ?st) = ?live - set ids \<union> {?sid}" by (auto simp: live_ids_def)
  have dom': "\<forall>sid \<in> dom ?tb. id_value sid < n + 1" using dom assms(3) by (auto dest: less_trans)
  have "files_inv ?tb lg L (t, ?st)" using i(2,3,5-7) dom' L unfolding files_inv_def prod.case ids' by simp
  moreover have "\<forall>H. sc.pinned (table_cache dz) H \<longrightarrow> sc.pinned c' H" using c(5) i(8) by blast
  ultimately show ?thesis using run cf by (intro exI conjI)
qed

lemma run_task_ok:
  assumes "dz_inv b tables lg L (s, dz)" and "n = next_sst_seq dz" and "n < n + 1"
    and "current_files (version_set dz) = pre @ old" and "ids = map fst old" and "full \<Longrightarrow> pre = []"
    and "concat (map (\<lambda>sid. the (tables sid)) ids) \<noteq> []" and "dz_bytes tables dz < 2 ^ 28"
  shows "\<exists>t vs c out. run_task \<lparr>task_inputs = ids, output_id = SSTableId n, task_can_drop_tombstone = full\<rparr>
         (s, dz\<lparr>next_sst_seq := n + 1\<rparr>)
       = (ok (Some (SSTableId n)), (t, dz\<lparr>next_sst_seq := n + 1, version_set := vs, table_cache := c\<rparr>))
     \<and> dz_inv b (tables(SSTableId n \<mapsto> out)) lg L (t, dz\<lparr>next_sst_seq := n + 1, version_set := vs, table_cache := c\<rparr>)
     \<and> dz_map (tables(SSTableId n \<mapsto> out)) (dz\<lparr>next_sst_seq := n + 1, version_set := vs, table_cache := c\<rparr>) = dz_map tables dz
     \<and> dz_bytes (tables(SSTableId n \<mapsto> out)) (dz\<lparr>next_sst_seq := n + 1, version_set := vs, table_cache := c\<rparr>) \<le> dz_bytes tables dz
     \<and> set (concat (live_tables (tables(SSTableId n \<mapsto> out)) (dz\<lparr>next_sst_seq := n + 1, version_set := vs, table_cache := c\<rparr>)))
         \<subseteq> set (concat (live_tables tables dz))
     \<and> live_ids (dz\<lparr>next_sst_seq := n + 1, version_set := vs, table_cache := c\<rparr>) = map fst pre @ [SSTableId n]
     \<and> (full \<longrightarrow> (\<forall>e \<in> set out. \<not> is_tombstone (snd e)))
     \<and> (\<forall>H. sc.pinned (table_cache dz) H \<longrightarrow> sc.pinned c H)"
proof -
  let ?sid = "SSTableId n" and ?mem = "entries (active_memtable dz)"
  define P where "P = map (\<lambda>sid. the (tables sid)) (map fst pre)"
  define I where "I = map (\<lambda>sid. the (tables sid)) ids"
  have lids: "live_ids dz = map fst pre @ ids" by (simp add: live_ids_def assms(4,5))
  then have lt: "live_tables tables dz = P @ I" by (simp add: live_tables_def P_def I_def)
  have fi: "files_inv tables lg L (s, dz)" and di: "data_inv b tables dz" using assms(1) by (simp_all add: dz_inv_def)
  have "distinct (map fst (current_files (version_set dz)))"
    using fi versions_okD(4) [of "version_set dz"] by (simp add: files_inv_def strict_sorted_iff)
  then have dist: "distinct ids" "set (map fst pre) \<inter> set ids = {}" by (auto simp: assms(4,5))
  obtain r where r: "merged_of (set (concat I)) r" using merged_of_exists [of "set (concat I)"] by auto
  define out where "out = kept_entries full r"
  let ?tb = "tables(?sid \<mapsto> out)"
  have sub: "set ids \<subseteq> set (live_ids dz)" by (simp add: lids)
  obtain t vs c where f: "run_task \<lparr>task_inputs = ids, output_id = ?sid, task_can_drop_tombstone = full\<rparr> (s, dz\<lparr>next_sst_seq := n + 1\<rparr>)
       = (ok (Some ?sid), (t, dz\<lparr>next_sst_seq := n + 1, version_set := vs, table_cache := c\<rparr>))"
     "files_inv ?tb lg L (t, dz\<lparr>next_sst_seq := n + 1, version_set := vs, table_cache := c\<rparr>)"
     "map fst (current_files vs) = filter (\<lambda>i. i \<notin> set ids) (live_ids dz) @ [?sid]" "\<forall>H. sc.pinned (table_cache dz) H \<longrightarrow> sc.pinned c H"
    using run_task_files [OF assms(1-3) sub dist(1) I_def assms(7) [folded I_def] assms(8) r out_def] by (elim exE conjE)
  let ?st = "dz\<lparr>next_sst_seq := n + 1, version_set := vs, table_cache := c\<rparr>"
  have "filter (\<lambda>i. i \<notin> set ids) (live_ids dz) = map fst pre" using dist(2) unfolding lids by (auto simp: filter_id_conv filter_empty_conv)
  then have ids': "live_ids ?st = map fst pre @ [?sid]" using f(3) by (simp add: live_ids_def)
  have "\<forall>i \<in> set (map fst pre). i < ?sid" using next_id_fresh(2) [OF fi] assms(2) lids by simp
  then have "?sid \<notin> set (map fst pre)" by (metis less_irrefl)
  then have lt': "live_tables ?tb ?st = P @ [out]" by (auto simp: live_tables_def ids' P_def rev_image_eqI)
  have st: "stack_ok (P @ I @ [?mem])" and sm: "\<forall>t \<in> set (P @ I @ [?mem]). small b t" using di by (simp_all add: data_inv_def lt)
  have out: "ordered out" "set out \<subseteq> set (concat I)"
    using r by (auto simp: out_def merged_of_def ordered_kept_entries) (auto simp: kept_entries_def split: if_splits)
  have "data_inv b ?tb ?st"
  proof -
    have "small b out" using sm out(2) unfolding small_def by auto
    then show ?thesis using di stack_ok_replace [OF st out] sm by (simp add: data_inv_def lt' lt)
  qed
  moreover have "dz_map ?tb ?st = dz_map tables dz"
  proof -
    have "reveal (stack_map (P @ [out] @ [?mem]) k) = reveal (stack_map (P @ I @ [?mem]) k)" for k
      unfolding out_def by (rule reveal_replace [OF st r]) (use assms(6) in \<open>simp add: P_def\<close>)
    then show ?thesis by (simp add: dz_map_def lt lt' del: stack_map_simps)
  qed
  moreover have "dz_bytes ?tb ?st \<le> dz_bytes tables dz"
    using length_kept_image [OF r, of full, folded out_def] by (simp add: dz_bytes_def lt lt')
  moreover have "set (concat (live_tables ?tb ?st)) \<subseteq> set (concat (live_tables tables dz))" using out(2) unfolding lt lt' by auto
  moreover have "full \<longrightarrow> (\<forall>e \<in> set out. \<not> is_tombstone (snd e))" by (auto simp: out_def kept_entries_def split: if_splits)
  ultimately show ?thesis using f(1,2,4) ids' by (intro exI conjI) (simp_all add: dz_inv_def)
qed

end
