(* ===== verification/Dazzle_Recovery.thy ===== *)
theory Dazzle_Recovery
  imports Dazzle_Engine
begin

text \<open>
  Opening an engine: Dazzle::open and Dazzle::recover of dazzle_engine.cpp, with the calls of
  \<open>std::filesystem\<close> they make and the conversions of utils/numbers.h. A call of \<open>std::filesystem\<close>
  takes one answer of the schedule and throws when it fails for another reason than a missing file.
  A directory is listed in the order its files were created.
\<close>

definition mb_to_b :: "u64 \<Rightarrow> u64" where
  "mb_to_b mb = mb * 1024 * 1024"

definition b_to_mb :: "u64 \<Rightarrow> u64" where
  "b_to_mb bytes = drop_bit 20 bytes"

section \<open>Directories and paths\<close>

definition fs_is_directory :: "string \<Rightarrow> fs \<Rightarrow> bool result \<times> fs" where
  "fs_is_directory path s =
     (let (a, s) = pop_answer s in
      case a of
        Fail e \<Rightarrow> (if e = ENOENT then ok False else abort ''std::filesystem::filesystem_error'', s)
      | _ \<Rightarrow> (ok (is_directory s path), s))"

definition fs_create_directory :: "string \<Rightarrow> fs \<Rightarrow> bool result \<times> fs" where
  "fs_create_directory path s =
     (let (a, s) = pop_answer s in
      case a of
        Fail e \<Rightarrow> (abort ''std::filesystem::filesystem_error'', s)
      | _ \<Rightarrow>
          if is_directory s path then (ok False, s)
          else if map_of (dir s) path \<noteq> None \<or> \<not> is_directory s (parent_of path)
          then (abort ''std::filesystem::filesystem_error'', s)
          else (ok True, s\<lparr>subdirs := subdirs s @ [path]\<rparr>))"

text \<open>The regular files of a directory, as \<open>std::filesystem::directory_iterator\<close> meets them.\<close>

definition directory_files :: "string \<Rightarrow> fs \<Rightarrow> string list result \<times> fs" where
  "directory_files path s =
     (let (a, s) = pop_answer s in
      case a of
        Fail e \<Rightarrow> (abort ''std::filesystem::filesystem_error'', s)
      | _ \<Rightarrow>
          if is_directory s path then (ok (filter (\<lambda>p. parent_of p = path) (map fst (dir s))), s)
          else (abort ''std::filesystem::filesystem_error'', s))"

definition filename :: "string \<Rightarrow> string" where
  "filename p = rev (takeWhile (\<lambda>c. c \<noteq> CHR ''/'') (rev p))"

definition extension :: "string \<Rightarrow> string" where
  "extension p =
     (let name = filename p; suffix = rev (takeWhile (\<lambda>c. c \<noteq> CHR ''.'') (rev name)) in
      if CHR ''.'' \<notin> set name \<or> Suc (length suffix) = length name \<or> name = ''..'' then ''''
      else CHR ''.'' # suffix)"

definition ensure_directory :: "string \<Rightarrow> string \<Rightarrow> fs \<Rightarrow> unit result \<times> fs" where
  "ensure_directory path what s =
     attempt (fs_is_directory path s) (\<lambda>exists s.
       if exists then (ok (), s)
       else attempt (fs_create_directory path s) (\<lambda>created s.
         if created then (ok (), s) else (err UNEXPECTED_ERR what, s)))"

text \<open>The files of a directory with the extension, each with the number in its name.\<close>

fun number_files :: "string list \<Rightarrow> (string \<times> u64) list result" where
  "number_files [] = ok []"
| "number_files (p # ps) =
     (case extract_num (filename p) of
        Inl e \<Rightarrow> Inl e
      | Inr n \<Rightarrow> (case number_files ps of Inl e \<Rightarrow> Inl e | Inr rest \<Rightarrow> ok ((p, n) # rest)))"

definition numbered_files :: "string \<Rightarrow> string \<Rightarrow> fs \<Rightarrow> (string \<times> u64) list result \<times> fs" where
  "numbered_files path ext s =
     attempt (directory_files path s) (\<lambda>files s. (number_files (filter (\<lambda>p. extension p = ext) files), s))"

section \<open>Recovery\<close>

text \<open>
  The replay loop of one segment. It stops at the first error the reader reports, whatever it is;
  it ends because every record it reads moves the reader forward inside the file.
\<close>

definition replay_record :: "WalRecord \<Rightarrow> u64 \<times> Memtable \<Rightarrow> u64 \<times> Memtable" where
  "replay_record r acc =
     (let (highest, m) = acc in
      (if highest < wal_sequence r then wal_sequence r else highest,
       if op_type r = DELETE_ROW then memtable_remove m (wal_key r) (wal_sequence r)
       else memtable_put m (wal_key r) (wal_value r) (wal_sequence r)))"

function replay_segment :: "fs \<times> WalReader \<Rightarrow> u64 \<times> Memtable \<Rightarrow> (u64 \<times> Memtable) result \<times> fs" where
  "replay_segment st acc =
     (case wal_next st of
        (Inl (Abort what), (s, _)) \<Rightarrow> (abort what, s)
      | (Inl (Err e), (s, _)) \<Rightarrow> (ok acc, s)
      | (Inr r, st) \<Rightarrow> replay_segment st (replay_record r acc))"
  by pat_completeness auto
termination
proof (relation "measure (\<lambda>((s, rd), acc). case view s (wr_fh rd) of None \<Rightarrow> 0 | Some c \<Rightarrow> length c - wr_offset rd)", goal_cases)
  case (2 st acc x st' r)
  obtain s rd t rd' where st: "st = (s, rd)" "st' = (t, rd')" by (cases st, cases st')
  with 2 have "wal_next (s, rd) = (Inr r, (t, rd'))" by simp
  then show ?case by (rule wal_next_progress) (simp add: st)
qed simp

declare replay_segment.simps [simp del]

fun replay_segments :: "string list \<Rightarrow> u64 \<times> Memtable \<Rightarrow> fs \<Rightarrow> (u64 \<times> Memtable) result \<times> fs" where
  "replay_segments [] acc s = (ok acc, s)"
| "replay_segments (p # ps) acc s =
     attempt (WalReader_create s p) (\<lambda>wal_reader s.
     attempt (replay_segment (s, wal_reader) acc) (\<lambda>acc s. replay_segments ps acc s))"

fun remove_files :: "string list \<Rightarrow> fs \<Rightarrow> unit result \<times> fs" where
  "remove_files [] s = (ok (), s)"
| "remove_files (p # ps) s = attempt (fs_remove p s) (\<lambda>_ s. remove_files ps s)"

definition finish_recovery :: "string list \<Rightarrow> u64 \<Rightarrow> dz_state \<Rightarrow> u64 result \<times> dz_state" where
  "finish_recovery old_wal_files highest st =
     attempt (if approximate_size (active_memtable (snd st)) > 0 then flush st else (ok (), st)) (\<lambda>_ st.
     attempt (on_fs (remove_files old_wal_files) st) (\<lambda>_ (s, dz).
       (ok highest, (s, dz\<lparr>lsn := max (lsn dz) highest + 1\<rparr>))))"

definition recover :: "dz_state \<Rightarrow> u64 result \<times> dz_state" where
  "recover st =
     attempt (on_fs (fs_is_directory (get_wal_directory (snd st))) st) (\<lambda>exists st.
       if \<not> exists then (err UNEXPECTED_ERR ''wal directory does not exist'', st)
       else
         attempt (on_fs (numbered_files (get_wal_directory (snd st)) ''.log'') st) (\<lambda>files (s, dz).
           let old_wal_files = map fst (sort_key snd (filter (\<lambda>(_, seq). seq < peek_wal_id dz) files)) in
           if old_wal_files = [] then (ok 0, (s, dz))
           else
             attempt (on_fs (replay_segments old_wal_files (0, active_memtable dz)) (s, dz)) (\<lambda>(highest, m) (s, dz).
               finish_recovery old_wal_files highest (s, dz\<lparr>active_memtable := m\<rparr>))))"

section \<open>Opening\<close>

text \<open>\<open>std::map::insert\<close> keeps the entry that is there.\<close>

definition map_insert :: "'k::linorder \<Rightarrow> 'v \<Rightarrow> ('k \<times> 'v) list \<Rightarrow> ('k \<times> 'v) list" where
  "map_insert k v m = (if map_find m k = None then map_assign k v m else m)"

fun load_tables :: "(string \<times> u64) list \<Rightarrow> file_map \<Rightarrow> u64 \<Rightarrow> fs \<Rightarrow> (file_map \<times> u64) result \<times> fs" where
  "load_tables [] sst_meta max_sequence_found s = (ok (sst_meta, max_sequence_found), s)"
| "load_tables ((p, seq) # files) sst_meta max_sequence_found s =
     attempt (SSTableReader_create s p) (\<lambda>reader s.
       let footer = sr_footer reader; sid = SSTableId seq in
       load_tables files (map_insert sid (meta_of sid footer) sst_meta)
         (if highest_sequence footer > max_sequence_found then highest_sequence footer else max_sequence_found) s)"

definition Dazzle_create ::
  "string \<Rightarrow> WalWriter \<Rightarrow> u64 \<Rightarrow> Memtable \<Rightarrow> file_map \<Rightarrow> u64 \<Rightarrow> u64 \<Rightarrow> SSTableReader Cache \<Rightarrow> u64 \<Rightarrow> CompactionPolicy option \<Rightarrow> Dazzle" where
  "Dazzle_create d ww mt_size mt sst_meta wal_seq sst_seq tc highest pol =
     \<lparr>data_dir = d, wal_writer = ww, memtable_size = unat mt_size, active_memtable = mt,
      hlc = \<lparr>logicalCounter = 0, lastReturned = 0\<rparr>, table_cache = tc, version_set = VersionSet_create sst_meta,
      lsn = highest, next_wal_seq = wal_seq, next_sst_seq = sst_seq,
      policy = (case pol of Some p \<Rightarrow> p | None \<Rightarrow> SizeTiered (size_tiered 4 8))\<rparr>"

definition dz_open ::
  "string \<Rightarrow> u64 \<Rightarrow> CompactionPolicy option \<Rightarrow> u64 \<Rightarrow> nat \<Rightarrow> fs \<Rightarrow> Dazzle result \<times> fs" where
  "dz_open d mt_size pol cache_mb file_shards s =
     (if trim_string d = '''' then (err BAD_CONFIG ''Data directory was not specified.'', s)
      else
        attempt (ensure_directory (d @ ''/wal'') ''failed to create wal dir'' s) (\<lambda>_ s.
        attempt (ensure_directory (d @ ''/sst'') ''failed to create sst dir'' s) (\<lambda>_ s.
        attempt (numbered_files (d @ ''/sst'') ''.db'' s) (\<lambda>files s.
          let highest_sst_seq = foldl max 0 (map snd files) in
        attempt (load_tables files [] 0 s) (\<lambda>(sst_meta, max_sst_sequence_found) s.
        attempt (numbered_files (d @ ''/wal'') ''.log'' s) (\<lambda>wal_log_files s.
          let highest_wal_seq = foldl max 0 (map snd wal_log_files) in
        attempt (WalWriter_create s (wal_path d (highest_wal_seq + 1))) (\<lambda>walw s.
          case NewLRUCache (mb_to_b cache_mb) file_shards of
            Inl e \<Rightarrow> (Inl e, s)
          | Inr cache \<Rightarrow>
              (case TableCache_create d cache of
                 Inl e \<Rightarrow> (Inl e, s)
               | Inr tc \<Rightarrow>
                   (case recover (s, Dazzle_create d walw mt_size (Memtable_create (unat mt_size)) sst_meta
                                       (highest_wal_seq + 1) (highest_sst_seq + 1) tc (max_sst_sequence_found + 1) pol) of
                      (Inl e, (s, _)) \<Rightarrow> (Inl e, s)
                    | (Inr _, (s, dz)) \<Rightarrow> (ok dz, s))))))))))"

section \<open>Names of files\<close>

lemma filename_append: "CHR ''/'' \<notin> set f \<Longrightarrow> filename (d @ CHR ''/'' # f) = f"
proof -
  assume "CHR ''/'' \<notin> set f"
  then have "takeWhile (\<lambda>c. c \<noteq> CHR ''/'') (rev f @ CHR ''/'' # rev d) = rev f" by (subst takeWhile_append2) auto
  then show ?thesis by (simp add: filename_def)
qed

lemma extension_append:
  assumes "CHR ''/'' \<notin> set f" and "CHR ''/'' \<notin> set e" and "CHR ''.'' \<notin> set e" and "f \<noteq> []" and "e \<noteq> []"
  shows "extension (d @ CHR ''/'' # f @ CHR ''.'' # e) = CHR ''.'' # e"
proof -
  have "takeWhile (\<lambda>c. c \<noteq> CHR ''.'') (rev e @ CHR ''.'' # rev f) = rev e" using assms(3) by (subst takeWhile_append2) auto
  moreover have "filename (d @ CHR ''/'' # f @ CHR ''.'' # e) = f @ CHR ''.'' # e" using assms(1,2) by (intro filename_append) auto
  moreover have "f @ CHR ''.'' # e \<noteq> ''..''" using assms(3-5) by (cases f; cases e) auto
  ultimately show ?thesis using assms(4) by (simp add: extension_def)
qed

lemma wal_path_split: "wal_path d n = (d @ ''/wal'') @ CHR ''/'' # (''wal_'' @ padded (unat n)) @ CHR ''.'' # ''log''"
  and sst_path_split: "sst_path d n = (d @ ''/sst'') @ CHR ''/'' # (''sst_'' @ padded (unat n)) @ CHR ''.'' # ''db''"
  by (simp_all add: wal_path_def sst_path_def sstable_filename_def)

lemma wal_path_parts:
  shows "filename (wal_path d n) = ''wal_'' @ padded (unat n) @ ''.log''" and "extension (wal_path d n) = ''.log''"
  unfolding wal_path_split
  using filename_append [of "''wal_'' @ padded (unat n) @ ''.log''" "d @ ''/wal''"]
    extension_append [of "''wal_'' @ padded (unat n)" "''log''" "d @ ''/wal''"] padded_notin by simp_all

lemma sst_path_parts:
  shows "filename (sst_path d n) = sstable_filename (SSTableId n)" and "extension (sst_path d n) = ''.db''"
  unfolding sst_path_split
  using filename_append [of "''sst_'' @ padded (unat n) @ ''.db''" "d @ ''/sst''"]
    extension_append [of "''sst_'' @ padded (unat n)" "''db''" "d @ ''/sst''"] padded_notin by (simp_all add: sstable_filename_def)

section \<open>Without faults\<close>

lemma fs_is_directory_quiet [io_simps]: "answers s = [] \<Longrightarrow> fs_is_directory p s = (ok (is_directory s p), s)"
  by (simp add: fs_is_directory_def io_simps)

lemma numbered_files_quiet:
  "answers s = [] \<Longrightarrow> is_directory s p \<Longrightarrow>
   numbered_files p ext s = (number_files (filter (\<lambda>q. parent_of q = p \<and> extension q = ext) (map fst (dir s))), s)"
  by (simp add: numbered_files_def directory_files_def io_simps conj_commute)

lemma ensure_directory_quiet:
  assumes "answers s = []" and "is_directory s (parent_of p)" and "map_of (dir s) p = None"
  shows "\<exists>sub. ensure_directory p what s = (ok (), s\<lparr>subdirs := sub\<rparr>) \<and> set (subdirs s) \<subseteq> set sub \<and> is_directory (s\<lparr>subdirs := sub\<rparr>) p"
proof (cases "is_directory s p")
  case True
  with assms(1) show ?thesis by (intro exI [of _ "subdirs s"]) (simp add: ensure_directory_def io_simps)
next
  case False
  with assms show ?thesis
    by (intro exI [of _ "subdirs s @ [p]"]) (auto simp: ensure_directory_def fs_create_directory_def io_simps is_directory_def)
qed

lemma number_files_wal:
  "number_files (map (wal_path d) ns) = ok (map (\<lambda>n. (wal_path d n, n)) ns)" if "\<forall>n \<in> set ns. unat n < 2 ^ 63"
  using that
proof (induction ns)
  case (Cons n ns)
  then have "extract_num (filename (wal_path d n)) = ok n" by (simp only: wal_path_parts wal_filename_num if_True list.set ball_simps simp_thms)
  with Cons show ?case by (simp add: ok_def)
qed (simp add: ok_def)

lemma extract_num_sst: "unat n < 2 ^ 63 \<Longrightarrow> extract_num (sstable_filename (SSTableId n)) = ok n"
  using extract_padded [of "''sst''" "unat n" "''db''"] by (simp add: sstable_filename_def)

lemma number_files_sst:
  "number_files (map (sst_path d) ns) = ok (map (\<lambda>n. (sst_path d n, n)) ns)" if "\<forall>n \<in> set ns. unat n < 2 ^ 63"
  using that extract_num_sst by (induction ns) (simp_all add: sst_path_parts ok_def)

text \<open>What \<open>open\<close> does once the directories are there and the tables have been loaded.\<close>

lemma dz_open_quiet:
  assumes "answers s = []" and "trim_string d \<noteq> ''''" and "0 < n" and "is_directory s (d @ ''/wal'')" and "is_directory s (d @ ''/sst'')"
    and "number_files (filter (\<lambda>q. parent_of q = d @ ''/sst'' \<and> extension q = ''.db'') (map fst (dir s))) = ok files"
    and "load_tables files [] 0 s = (ok (ms, mx), t)" and "answers t = []" and "subdirs t = subdirs s"
    and "number_files (filter (\<lambda>q. parent_of q = d @ ''/wal'' \<and> extension q = ''.log'') (map fst (dir t))) = ok logs"
    and "k = foldl max 0 (map snd logs) + 1" and "WalWriter_create t (wal_path d k) = (ok ww, u)"
  shows "\<exists>c. NewLRUCache (mb_to_b mb) n = ok c \<and>
     dz_open d sz pol mb n s =
       (case recover (u, Dazzle_create d ww sz (Memtable_create (unat sz)) ms k (foldl max 0 (map snd files) + 1) c (mx + 1) pol) of
          (Inl e, (s, _)) \<Rightarrow> (Inl e, s) | (Inr _, (s, dz)) \<Rightarrow> (ok dz, s))"
proof -
  obtain c where c: "NewLRUCache (mb_to_b mb) n = (ok c :: SSTableReader Cache result)"
    using assms(3) by (simp add: NewLRUCache_def Let_def)
  have ens: "ensure_directory (d @ ''/wal'') w s = (ok (), s)" "ensure_directory (d @ ''/sst'') w s = (ok (), s)" for w
    using assms(1,4,5) by (simp_all add: ensure_directory_def io_simps)
  have wal: "is_directory t (d @ ''/wal'')" using assms(4,9) by (simp add: is_directory_def)
  have tc: "TableCache_create d c = ok c" using assms(2) by (simp add: TableCache_create_def)
  show ?thesis
    using assms(2,7,11,12) c tc
    by (simp add: dz_open_def ens numbered_files_quiet [OF assms(1,5)] assms(6) numbered_files_quiet [OF assms(8) wal] assms(10))
      (simp add: ok_def)
qed

lemma dz_open_directories:
  assumes "answers s = []" and "is_directory s d" and "map_of (dir s) (d @ ''/wal'') = None" and "map_of (dir s) (d @ ''/sst'') = None"
    and "trim_string d \<noteq> ''''"
  shows "\<exists>sub. dz_open d sz pol mb n s = dz_open d sz pol mb n (s\<lparr>subdirs := sub\<rparr>) \<and> set (subdirs s) \<subseteq> set sub
     \<and> is_directory (s\<lparr>subdirs := sub\<rparr>) (d @ ''/wal'') \<and> is_directory (s\<lparr>subdirs := sub\<rparr>) (d @ ''/sst'')"
proof -
  have par: "parent_of (d @ ''/wal'') = d" "parent_of (d @ ''/sst'') = d"
    using parent_of_append [of "''wal''" d] parent_of_append [of "''sst''" d] by simp_all
  from ensure_directory_quiet [OF assms(1), of "d @ ''/wal''" "''failed to create wal dir''"] assms(2,3)
  obtain a where a: "ensure_directory (d @ ''/wal'') ''failed to create wal dir'' s = (ok (), s\<lparr>subdirs := a\<rparr>)"
      "set (subdirs s) \<subseteq> set a" "is_directory (s\<lparr>subdirs := a\<rparr>) (d @ ''/wal'')" by (auto simp: par)
  let ?s = "s\<lparr>subdirs := a\<rparr>"
  have "is_directory ?s d" using assms(2) a(2) by (auto simp: is_directory_def)
  with ensure_directory_quiet [of ?s "d @ ''/sst''" "''failed to create sst dir''"] assms(1,4)
  obtain b where b: "ensure_directory (d @ ''/sst'') ''failed to create sst dir'' ?s = (ok (), s\<lparr>subdirs := b\<rparr>)"
      "set a \<subseteq> set b" "is_directory (s\<lparr>subdirs := b\<rparr>) (d @ ''/sst'')" by (auto simp: par)
  let ?t = "s\<lparr>subdirs := b\<rparr>"
  have w: "is_directory ?t (d @ ''/wal'')" using a(3) b(2) by (auto simp: is_directory_def)
  have "ensure_directory (d @ ''/wal'') m ?t = (ok (), ?t)" "ensure_directory (d @ ''/sst'') m ?t = (ok (), ?t)" for m
    using assms(1) w b(3) by (simp_all add: ensure_directory_def io_simps)
  then have "dz_open d sz pol mb n s = dz_open d sz pol mb n ?t"
    using assms(5) unfolding dz_open_def a(1) b(1) attempt_ok by simp
  with a(2) b(2,3) w show ?thesis by blast
qed

lemma recover_nothing:
  assumes "answers s = []" and "is_directory s (d @ ''/wal'')"
    and "number_files (filter (\<lambda>q. parent_of q = d @ ''/wal'' \<and> extension q = ''.log'') (map fst (dir s))) = ok files"
    and "data_dir dz = d" and "\<forall>(_, seq) \<in> set files. next_wal_seq dz \<le> seq"
  shows "recover (s, dz) = (ok 0, (s, dz))"
proof -
  have "filter (\<lambda>(_, seq). seq < next_wal_seq dz) files = []" using assms(5) by (auto simp: filter_empty_conv)
  then show ?thesis
    using assms(2,4) by (simp add: recover_def on_fs_def fs_is_directory_quiet [OF assms(1)] get_wal_directory_def
        numbered_files_quiet [OF assms(1,2)] assms(3) peek_wal_id_def)
qed

end
