(* ===== verification/Engine_Log.thy ===== *)
theory Engine_Log
  imports Engine_Compaction Dazzle_Recovery
begin

text \<open>
  What the active log holds: the records of the writes that are not in a table yet. Right after
  the engine was opened the first flush keeps the log, so it may also hold records that have been
  flushed; whatever it holds is the newest write of its key.
\<close>

definition replayed :: "WalRecord list \<Rightarrow> Memtable \<Rightarrow> u64 \<times> Memtable" where
  "replayed rs m = foldl (\<lambda>acc r. replay_record r acc) (0, m) rs"

definition record_ok :: "WalRecord \<Rightarrow> bool" where
  "record_ok r \<longleftrightarrow> get_record_size r < 2 ^ 32 \<and> key_bytes (wal_key r) \<noteq> []"

abbreviation log_entries :: "WalRecord list \<Rightarrow> entry list" where
  "log_entries rs \<equiv> entries (snd (replayed rs (Memtable_create 0)))"

definition log_inv :: "u64 \<Rightarrow> (SSTableId \<rightharpoonup> entry list) \<Rightarrow> WalRecord list \<Rightarrow> Dazzle \<Rightarrow> bool" where
  "log_inv b tables rs dz \<longleftrightarrow> (\<forall>r \<in> set rs. record_ok r \<and> wal_sequence r < b) \<and> small b (log_entries rs)
     \<and> map_of (entries (active_memtable dz)) \<subseteq>\<^sub>m map_of (log_entries rs)
     \<and> (\<forall>k v. map_of (log_entries rs) k = Some v \<longrightarrow> dz_map tables dz k = reveal (Some v))
     \<and> older (concat (live_tables tables dz)) (log_entries rs)"

definition logged :: "u64 \<Rightarrow> (SSTableId \<rightharpoonup> entry list) \<Rightarrow> bytes \<Rightarrow> Dazzle \<Rightarrow> bool" where
  "logged b tables lg dz \<longleftrightarrow> (\<exists>rs. lg = concat (map serialize_wal_record rs) \<and> log_inv b tables rs dz)"

definition written_value :: "bytes option \<Rightarrow> bool \<Rightarrow> u64 \<Rightarrow> InternalValue" where
  "written_value value remove seq = \<lparr>data = (if remove then [] else the value), is_tombstone = remove, sequence = seq\<rparr>"

section \<open>Replaying\<close>

lemma replayed_append: "snd (replayed (rs @ [r]) m) = snd (replay_record r (replayed rs m))"
  by (simp add: replayed_def)

lemma replayed_inv: "memtable_inv m \<Longrightarrow> memtable_inv (snd (replayed rs m))"
  by (induction rs rule: rev_induct)
    (auto simp: replayed_def replay_record_def Let_def memtable_inv_put memtable_inv_remove split: prod.splits)

lemma ordered_log: "ordered (log_entries rs)"
  using replayed_inv [OF memtable_inv_create, of rs 0] by (simp add: memtable_inv_def)

lemma replay_record_entries:
  "entries (snd (replay_record r acc))
   = map_assign (wal_key r) (written_value (Some (wal_value r)) (op_type r = DELETE_ROW) (wal_sequence r)) (entries (snd acc))"
  by (simp add: replay_record_def Let_def written_value_def split: prod.splits)

lemma log_entries_snoc:
  "log_entries (rs @ [r])
   = map_assign (wal_key r) (written_value (Some (wal_value r)) (op_type r = DELETE_ROW) (wal_sequence r)) (log_entries rs)"
  by (simp add: replayed_append replay_record_entries)

section \<open>Preservation\<close>

lemma logged_empty: "entries (active_memtable dz) = [] \<Longrightarrow> logged b tables [] dz"
  unfolding logged_def by (rule exI [of _ "[]"]) (simp add: log_inv_def replayed_def Memtable_create_def small_def older_def)

lemma logged_replace:
  assumes "logged b tables lg dz" and "dz_map tables' dz' = dz_map tables dz" and "entries (active_memtable dz') = entries (active_memtable dz)"
    and "set (concat (live_tables tables' dz')) \<subseteq> set (concat (live_tables tables dz))"
  shows "logged b tables' lg dz'"
proof -
  obtain rs where rs: "lg = concat (map serialize_wal_record rs)" "log_inv b tables rs dz" using assms(1) unfolding logged_def by blast
  have "older (concat (live_tables tables' dz')) (log_entries rs)"
    using rs(2) older_subset [OF _ assms(4) order_refl] by (simp add: log_inv_def)
  with rs assms(2,3) show ?thesis unfolding logged_def log_inv_def by (intro exI [of _ rs]) simp
qed

lemma logged_flush:
  assumes "logged b tables lg dz" and "memtable_inv (active_memtable dz)" and "dz_map tables' dz' = dz_map tables dz"
    and "entries (active_memtable dz') = []" and "lg' = lg \<or> lg' = []"
    and "set (concat (live_tables tables' dz')) \<subseteq> set (concat (live_tables tables dz @ [entries (active_memtable dz)]))"
  shows "logged b tables' lg' dz'"
proof -
  let ?mem = "entries (active_memtable dz)"
  obtain rs where rs: "lg = concat (map serialize_wal_record rs)" "log_inv b tables rs dz" using assms(1) unfolding logged_def by blast
  have sub: "map_of ?mem \<subseteq>\<^sub>m map_of (log_entries rs)" and old: "older (concat (live_tables tables dz)) (log_entries rs)"
    using rs(2) by (simp_all add: log_inv_def)
  have "v = v'" if "(k, v) \<in> set ?mem" "(k, v') \<in> set (log_entries rs)" for k v v'
  proof -
    have "map_of ?mem k = Some v" using that(1) assms(2) ordered_map_of_iff [of ?mem k v] by (simp add: memtable_inv_def)
    then have "map_of (log_entries rs) k = Some v" using sub by (metis domI map_le_def)
    moreover have "map_of (log_entries rs) k = Some v'" using that(2) ordered_map_of_iff [OF ordered_log] by simp
    ultimately show ?thesis by simp
  qed
  with old have "older (concat (live_tables tables dz @ [?mem])) (log_entries rs)" unfolding older_def by auto
  from older_subset [OF this assms(6) order_refl] have "log_inv b tables' rs dz'" using rs(2) assms(3,4) by (simp add: log_inv_def)
  then have "logged b tables' lg dz'" unfolding logged_def using rs(1) by blast
  with assms(5) logged_empty [OF assms(4)] show ?thesis by blast
qed

lemma logged_written:
  assumes "logged (lsn dz) tables lg dz" and "data_inv (lsn dz) tables dz" and "lsn dz < lsn dz + 1"
    and "v = written_value value remove (lsn dz)" and "remove \<or> value \<noteq> None"
    and "r = \<lparr>op_type = if remove then DELETE_ROW else PUT_ROW, timestamp = ts, wal_sequence = lsn dz, wal_key = key,
      wal_value = (case value of Some v \<Rightarrow> v | None \<Rightarrow> [])\<rparr>"
    and "record_ok r" and "length (entry_image (key, v)) \<le> MAX_PAGING_SIZE_BYTES"
    and "entries (active_memtable dz') = map_assign key v (entries (active_memtable dz))"
    and "live_tables tables dz' = live_tables tables dz" and "dz_map tables dz' = (dz_map tables dz)(key := reveal (Some v))"
  shows "logged (lsn dz + 1) tables (lg @ serialize_wal_record r) dz'"
proof -
  obtain rs where rs: "lg = concat (map serialize_wal_record rs)" "log_inv (lsn dz) tables rs dz" using assms(1) unfolding logged_def by blast
  have "DELETE_ROW \<noteq> PUT_ROW" by (simp add: DELETE_ROW_def PUT_ROW_def)
  then have v: "written_value (Some (wal_value r)) (op_type r = DELETE_ROW) (wal_sequence r) = v"
    using assms(5) by (auto simp: assms(4,6) written_value_def)
  have R: "log_entries (rs @ [r]) = map_assign key v (log_entries rs)"
    unfolding log_entries_snoc v by (simp add: assms(6))
  have new: "set (log_entries (rs @ [r])) \<subseteq> insert (key, v) (set (log_entries rs))" unfolding R by (rule set_map_assign)
  have seq: "sequence v = lsn dz" by (simp add: assms(4) written_value_def)
  have grow: "small (lsn dz + 1) t" if "small (lsn dz) t" for t using that assms(3) by (auto simp: small_def dest: less_trans)
  have "small (lsn dz) (log_entries rs)" using rs(2) by (simp add: log_inv_def)
  from grow [OF this] new seq assms(3,8) have "small (lsn dz + 1) (log_entries (rs @ [r]))" by (auto simp: small_def dest!: subsetD)
  moreover have "older (concat (live_tables tables dz')) (log_entries (rs @ [r]))"
  proof -
    have "\<forall>e \<in> set (concat (live_tables tables dz)). sequence (snd e) < lsn dz" using assms(2) by (auto simp: data_inv_def small_def)
    with rs(2) new seq show ?thesis unfolding older_def log_inv_def assms(10) by fastforce
  qed
  moreover have "map_of (entries (active_memtable dz')) \<subseteq>\<^sub>m map_of (log_entries (rs @ [r]))"
    using rs(2) unfolding R assms(9) map_of_assign log_inv_def by (auto simp: map_le_def)
  moreover have "\<forall>k u. map_of (log_entries (rs @ [r])) k = Some u \<longrightarrow> dz_map tables dz' k = reveal (Some u)"
    using rs(2) unfolding R assms(11) map_of_assign log_inv_def by simp
  moreover have "\<forall>x \<in> set (rs @ [r]). record_ok x \<and> wal_sequence x < lsn dz + 1"
    using rs(2) assms(3,7) by (auto simp: log_inv_def assms(6) dest: less_trans)
  ultimately have "log_inv (lsn dz + 1) tables (rs @ [r]) dz'" by (simp add: log_inv_def)
  then show ?thesis unfolding logged_def using rs(1) by (intro exI [of _ "rs @ [r]"]) simp
qed

end
