(* ===== verification/Engine_Refinement.thy ===== *)
theory Engine_Refinement
  imports Engine_Log
begin

text \<open>
  The engine implements a map from keys to values: without faults, \<open>get\<close> returns what the map holds,
  \<open>put\<close> and \<open>remove\<close> update it, and flushing and compacting leave it alone, as long as a compaction
  merges the newest tables.
\<close>

section \<open>Reads\<close>

lemma files_inv_cache:
  assumes "files_inv tables lg L (s, dz)" and "tc_ok (data_dir dz) tables (set (live_ids dz)) (t, c)"
    and "wal_open (data_dir dz) (wal_writer dz) (next_wal_seq dz) lg t" and "names_free (data_dir dz) (next_sst_seq dz) t"
    and "tidy (data_dir dz) (set (live_ids dz)) L t"
  shows "files_inv tables lg L (t, dz\<lparr>table_cache := c\<rparr>)"
  using assms by (simp add: files_inv_def live_ids_def)

lemma data_inv_cache [simp]: "data_inv b tables (dz\<lparr>table_cache := c\<rparr>) = data_inv b tables dz"
  by (simp add: data_inv_def live_tables_def live_ids_def)

lemma dz_map_cache [simp]: "dz_map tables (dz\<lparr>table_cache := c\<rparr>) = dz_map tables dz"
  by (simp add: dz_map_def live_tables_def live_ids_def)

lemma dz_bytes_cache [simp]: "dz_bytes tables (dz\<lparr>table_cache := c\<rparr>) = dz_bytes tables dz"
  by (simp add: dz_bytes_def live_tables_def live_ids_def)

lemma files_inv_step:
  assumes "files_inv tables lg L (s, dz)" and "tc_step (data_dir dz) tables (set (live_ids dz)) (s, table_cache dz) (t, c)"
  shows "files_inv tables lg L (t, dz\<lparr>table_cache := c\<rparr>)"
  using assms files_inv_cache [of tables lg L s dz t c] wal_open_same [of _ _ _ _ s t] names_free_same [of _ _ s t] tidy_same [of _ _ _ s t]
    tc_okD(1) [of "data_dir dz" tables "set (live_ids dz)" s "table_cache dz"]
  by (simp add: tc_step_def files_inv_def live_ids_def)

lemma on_version_ok:
  assumes "files_inv tables lg L (s, dz)"
    and "\<And>st. tc_ok (data_dir dz) tables (set (live_ids dz)) st \<Longrightarrow>
      \<exists>st'. f (current_files (version_set dz)) st = (ok r, st') \<and> tc_step (data_dir dz) tables (set (live_ids dz)) st st'"
  shows "\<exists>t c. on_version f (s, dz) = (ok r, (t, dz\<lparr>table_cache := c\<rparr>)) \<and> files_inv tables lg L (t, dz\<lparr>table_cache := c\<rparr>)"
proof -
  have "tc_ok (data_dir dz) tables (set (live_ids dz)) (s, table_cache dz)" using assms(1) by (simp add: files_inv_def)
  from assms(2) [OF this] obtain t c where f: "f (current_files (version_set dz)) (s, table_cache dz) = (ok r, (t, c))"
      "tc_step (data_dir dz) tables (set (live_ids dz)) (s, table_cache dz) (t, c)" by auto
  have "on_version f (s, dz) = (ok r, (t, dz\<lparr>table_cache := c\<rparr>))"
    using f(1) by (simp add: on_version_def on_cache_def get_current_eq current_files_def release_version_def)
  with files_inv_step [OF assms(1) f(2)] show ?thesis by blast
qed

lemma live_files: "fst ` set (current_files (version_set dz)) \<subseteq> set (live_ids dz)"
  by (simp add: live_ids_def)

lemma dz_get_files:
  assumes "files_inv tables lg L (s, dz)"
  shows "\<exists>t c. dz_get key (s, dz) = (ok (dz_map tables dz key), (t, dz\<lparr>table_cache := c\<rparr>)) \<and> files_inv tables lg L (t, dz\<lparr>table_cache := c\<rparr>)"
proof (cases "memtable_get (active_memtable dz) key")
  case (Some v)
  then have "dz_map tables dz key = reveal (Some v)"
    by (simp add: dz_map_def memtable_get_def map_find_def map_add_def)
  with Some assms show ?thesis by (intro exI [of _ s] exI [of _ "table_cache dz"]) (simp add: dz_get_def)
next
  case None
  then have m: "dz_map tables dz key = reveal (disk_map tables (map fst (current_files (version_set dz))) key)"
    by (simp add: dz_map_def memtable_get_def map_find_def map_add_def disk_map_stack live_tables_def live_ids_def)
  have "\<exists>t c. on_version (\<lambda>files. version_lookup (data_dir dz) files key) (s, dz)
      = (ok (reveal (disk_map tables (map fst (current_files (version_set dz))) key)), (t, dz\<lparr>table_cache := c\<rparr>))
    \<and> files_inv tables lg L (t, dz\<lparr>table_cache := c\<rparr>)"
    using assms by (intro on_version_ok version_lookup_ok [OF _ live_files])
  with None show ?thesis by (auto simp: dz_get_def m)
qed

lemma dz_get_ok:
  assumes "dz_inv b tables lg L (s, dz)"
  shows "\<exists>t c. dz_get key (s, dz) = (ok (dz_map tables dz key), (t, dz\<lparr>table_cache := c\<rparr>)) \<and> dz_inv b tables lg L (t, dz\<lparr>table_cache := c\<rparr>)"
  using assms dz_get_files [of tables lg L s dz key] by (auto simp: dz_inv_def)

section \<open>Compactions\<close>

lemma compact_now_ok:
  assumes "dz_inv b tables lg L (s, dz)" and "next_sst_seq dz < next_sst_seq dz + 1"
    and "concat (live_tables tables dz) \<noteq> []" and "dz_bytes tables dz < 2 ^ 28"
  shows "\<exists>tables' t dz'. compact_now (s, dz) = (ok (Some (SSTableId (next_sst_seq dz))), (t, dz')) \<and> dz_inv b tables' lg L (t, dz')
     \<and> dz_map tables' dz' = dz_map tables dz \<and> dz_bytes tables' dz' \<le> dz_bytes tables dz
     \<and> set (concat (live_tables tables' dz')) \<subseteq> set (concat (live_tables tables dz)) \<and> active_memtable dz' = active_memtable dz
     \<and> live_ids dz' = [SSTableId (next_sst_seq dz)] \<and> wal_writer dz' = wal_writer dz \<and> data_dir dz' = data_dir dz
     \<and> lsn dz' = lsn dz \<and> next_sst_seq dz' = next_sst_seq dz + 1 \<and> next_wal_seq dz' = next_wal_seq dz \<and> policy dz' = policy dz"
proof -
  let ?files = "current_files (version_set dz)"
  have vo: "versions_ok (version_set dz)" using assms(1) by (simp add: dz_inv_def files_inv_def)
  have ne: "sst_meta_to_vector ?files \<noteq> []" using assms(3) by (auto simp: live_tables_def live_ids_def sst_meta_to_vector_def)
  have "sorted (map fst ?files)" using versions_okD(4) [OF vo] by (simp add: strict_sorted_iff)
  then have ids: "sort (map meta_id (sst_meta_to_vector ?files)) = map fst ?files"
    using versions_okD(5) [OF vo] by (simp add: sorted_sort_id)
  have now: "compact_now (s, dz) = run_task \<lparr>task_inputs = map fst ?files, output_id = SSTableId (next_sst_seq dz),
      task_can_drop_tombstone = True\<rparr> (s, dz\<lparr>next_sst_seq := next_sst_seq dz + 1\<rparr>)"
    using ne ids by (simp add: compact_now_def mint_sst_id_def)
  have "concat (map (\<lambda>sid. the (tables sid)) (map fst ?files)) \<noteq> []" using assms(3) by (simp add: live_tables_def live_ids_def)
  from run_task_ok [OF assms(1) refl assms(2) append_Nil [symmetric] refl refl this assms(4), of True]
  show ?thesis unfolding now by (elim exE conjE, intro exI conjI) (assumption | simp)+
qed

text \<open>
  A candidate is safe when it is made of the newest live tables; it may drop tombstones only when it
  is made of all of them. The table a flush adds is part of the choice.
\<close>

definition safe_pick :: "CompactionPolicy \<Rightarrow> SSTableMeta list \<Rightarrow> bool" where
  "safe_pick p live \<longleftrightarrow>
     (case policy_pick p live of
        Inl _ \<Rightarrow> False
      | Inr None \<Rightarrow> True
      | Inr (Some c) \<Rightarrow> (\<exists>pre. map meta_id live = pre @ cand_inputs c \<and> cand_inputs c \<noteq> [] \<and> (can_drop_tombstone c \<longrightarrow> pre = [])))"

definition picks_newest :: "Dazzle \<Rightarrow> bool" where
  "picks_newest dz \<longleftrightarrow> (\<forall>m. meta_id m = SSTableId (next_sst_seq dz) \<longrightarrow>
     safe_pick (policy dz) (sst_meta_to_vector (current_files (version_set dz)) @ [m]))"

definition picks_none :: "Dazzle \<Rightarrow> bool" where
  "picks_none dz \<longleftrightarrow> (\<forall>m. policy_pick (policy dz) (sst_meta_to_vector (current_files (version_set dz)) @ [m]) = Inr None)"

lemma full_picks_newest: "policy dz = FullCompactionPolicy \<Longrightarrow> picks_newest dz"
  by (simp add: picks_newest_def safe_pick_def policy_pick_def full_pick_def ok_def)

lemma few_pick_none:
  assumes "length live < min_merge_width p" and "min_merge_width p \<le> max_merge_width p"
  shows "size_tiered_pick p live = ok None"
proof (cases "live = []")
  case False
  let ?s = "sort_key size_bytes live"
  have "?s \<noteq> []" using False by (metis length_0_conv length_sort)
  have "\<not> min_merge_width p \<le> length (metas b)" if "b \<in> set (make_buckets p ?s)" for b
  proof -
    from bucket_run [OF that \<open>?s \<noteq> []\<close>] obtain xs ys where "?s = xs @ metas b @ ys" by (elim exE)
    from arg_cong [OF this, of length] assms(1) show ?thesis by simp
  qed
  then have "filter (\<lambda>b. length (metas b) \<ge> min_merge_width p) (make_buckets p ?s) = []" by (auto simp: filter_empty_conv)
  with False assms(2) show ?thesis by (simp add: size_tiered_pick_def Let_def)
qed (simp add: size_tiered_pick_def)

lemma few_picks_none:
  assumes "policy dz = SizeTiered p" and "length (live_ids dz) + 1 < min_merge_width p" and "min_merge_width p \<le> max_merge_width p"
  shows "picks_none dz" and "picks_newest dz"
proof -
  have "size_tiered_pick p (sst_meta_to_vector (current_files (version_set dz)) @ [m]) = ok None" for m
    using assms(2,3) by (intro few_pick_none) (simp_all add: live_ids_def sst_meta_to_vector_def)
  with assms(1) show "picks_none dz" and "picks_newest dz" by (simp_all add: picks_none_def picks_newest_def safe_pick_def policy_pick_def ok_def)
qed

definition fully_compacted :: "(SSTableId \<rightharpoonup> entry list) \<Rightarrow> Dazzle \<Rightarrow> bool" where
  "fully_compacted tables dz \<longleftrightarrow> length (live_ids dz) = 1 \<and> (\<forall>e \<in> set (concat (live_tables tables dz)). \<not> is_tombstone (snd e))"

lemma do_compact_work_ok:
  assumes "dz_inv b tables lg L (s, dz)" and "next_sst_seq dz < next_sst_seq dz + 1"
    and "safe_pick (policy dz) (sst_meta_to_vector (current_files (version_set dz)))"
    and "live_tables tables dz \<noteq> []" and "last (live_tables tables dz) \<noteq> []" and "dz_bytes tables dz < 2 ^ 28"
  shows "\<exists>r tables' t n vs c. do_compact_work (s, dz) = (ok r, (t, dz\<lparr>next_sst_seq := n, version_set := vs, table_cache := c\<rparr>))
     \<and> dz_inv b tables' lg L (t, dz\<lparr>next_sst_seq := n, version_set := vs, table_cache := c\<rparr>)
     \<and> dz_map tables' (dz\<lparr>next_sst_seq := n, version_set := vs, table_cache := c\<rparr>) = dz_map tables dz
     \<and> dz_bytes tables' (dz\<lparr>next_sst_seq := n, version_set := vs, table_cache := c\<rparr>) \<le> dz_bytes tables dz
     \<and> set (concat (live_tables tables' (dz\<lparr>next_sst_seq := n, version_set := vs, table_cache := c\<rparr>))) \<subseteq> set (concat (live_tables tables dz))
     \<and> (policy dz = FullCompactionPolicy \<longrightarrow> fully_compacted tables' (dz\<lparr>next_sst_seq := n, version_set := vs, table_cache := c\<rparr>))
     \<and> unat n \<le> unat (next_sst_seq dz) + 1 \<and> (\<forall>H. sc.pinned (table_cache dz) H \<longrightarrow> sc.pinned c H)
     \<and> (policy_pick (policy dz) (sst_meta_to_vector (current_files (version_set dz))) = Inr None
          \<longrightarrow> live_tables tables' (dz\<lparr>next_sst_seq := n, version_set := vs, table_cache := c\<rparr>) = live_tables tables dz)"
proof -
  let ?files = "current_files (version_set dz)" and ?n = "next_sst_seq dz"
  have vo: "versions_ok (version_set dz)" using assms(1) by (simp add: dz_inv_def files_inv_def)
  from assms(3) consider "policy_pick (policy dz) (sst_meta_to_vector ?files) = Inr None"
    | c pre where "policy_pick (policy dz) (sst_meta_to_vector ?files) = Inr (Some c)"
        "map fst ?files = pre @ cand_inputs c" "cand_inputs c \<noteq> []" "can_drop_tombstone c \<longrightarrow> pre = []"
    using versions_okD(5) [OF vo] by (auto simp: safe_pick_def split: sum.splits option.splits)
  then show ?thesis
  proof cases
    case 1
    then have "do_compact_work (s, dz) = (ok None, (s, dz))" by (simp add: do_compact_work_def)
    moreover have "policy dz \<noteq> FullCompactionPolicy"
      using 1 assms(4) by (auto simp: policy_pick_def full_pick_def sst_meta_to_vector_def live_tables_def live_ids_def ok_def split: if_splits)
    ultimately show ?thesis using assms(1)
      by (intro exI [of _ None] exI [of _ tables] exI [of _ s] exI [of _ ?n] exI [of _ "version_set dz"] exI [of _ "table_cache dz"]) simp
  next
    case 2
    let ?k = "length pre"
    have ids: "cand_inputs c = map fst (drop ?k ?files)" using 2(2) by (metis append_eq_conv_conj drop_map)
    have pre: "map fst (take ?k ?files) = pre" using 2(2) by (metis append_eq_conv_conj take_map)
    have split: "?files = take ?k ?files @ drop ?k ?files" by simp
    have drop: "take ?k ?files = []" if "can_drop_tombstone c" using that 2(4) pre by simp
    have "last (map (\<lambda>sid. the (tables sid)) (cand_inputs c)) = last (live_tables tables dz)"
      using 2(2,3) by (simp add: live_tables_def live_ids_def)
    moreover have "last (map (\<lambda>sid. the (tables sid)) (cand_inputs c)) \<in> set (map (\<lambda>sid. the (tables sid)) (cand_inputs c))"
      using 2(3) by (intro last_in_set) simp
    ultimately have ne: "concat (map (\<lambda>sid. the (tables sid)) (cand_inputs c)) \<noteq> []" using assms(5) by (metis concat_eq_Nil_conv)
    have w: "do_compact_work (s, dz) = run_task \<lparr>task_inputs = cand_inputs c, output_id = SSTableId ?n,
        task_can_drop_tombstone = can_drop_tombstone c\<rparr> (s, dz\<lparr>next_sst_seq := ?n + 1\<rparr>)"
      using 2(1) by (simp add: do_compact_work_def mint_sst_id_def)
    obtain t vs e out where r: "run_task \<lparr>task_inputs = cand_inputs c, output_id = SSTableId ?n, task_can_drop_tombstone = can_drop_tombstone c\<rparr>
         (s, dz\<lparr>next_sst_seq := ?n + 1\<rparr>) = (ok (Some (SSTableId ?n)), (t, dz\<lparr>next_sst_seq := ?n + 1, version_set := vs, table_cache := e\<rparr>))"
      "dz_inv b (tables(SSTableId ?n \<mapsto> out)) lg L (t, dz\<lparr>next_sst_seq := ?n + 1, version_set := vs, table_cache := e\<rparr>)"
      "dz_map (tables(SSTableId ?n \<mapsto> out)) (dz\<lparr>next_sst_seq := ?n + 1, version_set := vs, table_cache := e\<rparr>) = dz_map tables dz"
      "dz_bytes (tables(SSTableId ?n \<mapsto> out)) (dz\<lparr>next_sst_seq := ?n + 1, version_set := vs, table_cache := e\<rparr>) \<le> dz_bytes tables dz"
      "set (concat (live_tables (tables(SSTableId ?n \<mapsto> out)) (dz\<lparr>next_sst_seq := ?n + 1, version_set := vs, table_cache := e\<rparr>)))
         \<subseteq> set (concat (live_tables tables dz))"
      "live_ids (dz\<lparr>next_sst_seq := ?n + 1, version_set := vs, table_cache := e\<rparr>) = map fst (take ?k ?files) @ [SSTableId ?n]"
      "can_drop_tombstone c \<longrightarrow> (\<forall>e \<in> set out. \<not> is_tombstone (snd e))"
      "\<forall>H. sc.pinned (table_cache dz) H \<longrightarrow> sc.pinned e H"
      using run_task_ok [OF assms(1) refl assms(2) split ids _ ne assms(6), of "can_drop_tombstone c"] drop by auto
    have "unat (?n + 1) \<le> unat ?n + 1" by (simp add: unat_word_ariths)
    moreover have "fully_compacted (tables(SSTableId ?n \<mapsto> out)) (dz\<lparr>next_sst_seq := ?n + 1, version_set := vs, table_cache := e\<rparr>)"
      if "policy dz = FullCompactionPolicy"
    proof -
      have "can_drop_tombstone c" using 2(1) that by (auto simp: policy_pick_def full_pick_def ok_def split: if_splits)
      with r(6,7) drop show ?thesis by (simp add: fully_compacted_def live_tables_def)
    qed
    moreover have "policy_pick (policy dz) (sst_meta_to_vector ?files) = Inr None \<longrightarrow>
        live_tables (tables(SSTableId ?n \<mapsto> out)) (dz\<lparr>next_sst_seq := ?n + 1, version_set := vs, table_cache := e\<rparr>) = live_tables tables dz"
      using 2(1) by simp
    ultimately show ?thesis using r(1-5,8) unfolding w by (intro exI conjI impI) simp_all
  qed
qed

section \<open>Flushes\<close>

lemma write_memtable_ok:
  assumes "tc_ok d tables live (s, c)" and "names_free d n s" and "tables (SSTableId n) = None"
    and "entries m \<noteq> []" and "ordered (entries m)" and "length (block_image (entries m)) < 2 ^ 28"
  shows "\<exists>img. write_memtable (sst_path d n) m s = (ok (), fs_stored s (sst_path d n) img)
     \<and> tc_ok d (tables(SSTableId n \<mapsto> entries m)) (insert (SSTableId n) live) (fs_stored s (sst_path d n) img, c)"
proof -
  let ?p = "sst_path d n" and ?es = "entries m"
  note ok = tc_okD [OF assms(1)]
  have p: "map_of (dir s) ?p = None" "is_directory s (parent_of ?p)" using assms(2) by (simp_all add: names_free_def parent_sst_path)
  have fd: "0 \<le> next_fd s" using ok(1) by (simp add: fs_wf_def)
  obtain f0 where f0: "BloomFilter_create (length ?es) (1 / 100) = ok f0"
    using assms(4) BloomFilter_create_wf [of "length ?es"] by auto
  let ?f = "foldl bloom_add f0 (map fst ?es)"
  obtain w t st w' where w: "SSTableWriter_create s ?p (length ?es) = (ok w, t)" "sst_add_all (t, w) ?es = (Inr (), st)"
      "sst_finish st = (Inr (), (fs_stored s ?p (sst_image ?es ?f), w'))"
    using sst_write_table [OF ok(2) fd p f0, of ?es] by (elim exE conjE)
  have "table_ok ?es ?f" using table_ok_written [OF f0 assms(5)] assms(6) length_es_image [of ?es] by simp
  then have "files_ok d (tables(SSTableId n \<mapsto> ?es)) (insert (SSTableId n) live) (fs_stored s ?p (sst_image ?es ?f))"
    by (rule files_ok_stored [OF ok(5) p(1) _ assms(3)])
  moreover have "tables \<subseteq>\<^sub>m tables(SSTableId n \<mapsto> ?es)" using assms(3) by (auto simp: map_le_def)
  ultimately have "tc_ok d (tables(SSTableId n \<mapsto> ?es)) (insert (SSTableId n) live) (fs_stored s ?p (sst_image ?es ?f), c)"
    using kept_stored [OF ok(1) p(1)] by (intro tc_ok_files [OF assms(1)])
  moreover have "write_memtable ?p m s = (ok (), fs_stored s ?p (sst_image ?es ?f))"
    using w by (simp add: write_memtable_def memtable_count_def ok_def)
  ultimately show ?thesis by blast
qed

lemma stack_ok_empty_top: "stack_ok (tbls @ [[]]) = stack_ok tbls"
  unfolding stack_ok_append by (simp add: older_def) (simp add: stack_ok_def)

lemma empty_memtable [simp]: "entries (Memtable_create k) = []" "memtable_inv (Memtable_create k)"
  by (simp_all add: Memtable_create_def memtable_inv_def)

text \<open>The engine after the new table, the new log and the empty memtable are in place.\<close>

lemma flushed_inv:
  assumes "dz_inv b tables lg L (s, dz)" and "n = next_sst_seq dz" and "n < n + 1"
    and "tables' = tables(SSTableId n \<mapsto> entries (active_memtable dz))"
    and "dz' = dz\<lparr>next_sst_seq := n + 1, next_wal_seq := nwal, wal_writer := ww, version_set := vs,
           active_memtable := Memtable_create k, table_cache := c\<rparr>"
    and "current_files vs = current_files (version_set dz) @ [(SSTableId n, m)]" and "versions_ok vs"
    and "tc_ok (data_dir dz) tables' (insert (SSTableId n) (set (live_ids dz))) (t, c)"
    and "wal_open (data_dir dz) ww nwal lg' t" and "names_free (data_dir dz) (n + 1) t"
    and "tidy (data_dir dz) (insert (SSTableId n) (set (live_ids dz))) {ww_path ww} t"
  shows "dz_inv b tables' lg' {ww_path ww} (t, dz') \<and> dz_map tables' dz' = dz_map tables dz \<and> dz_bytes tables' dz' = dz_bytes tables dz
     \<and> live_tables tables' dz' = live_tables tables dz @ [entries (active_memtable dz)]"
proof -
  let ?mem = "entries (active_memtable dz)"
  have fi: "files_inv tables lg L (s, dz)" and di: "data_inv b tables dz" using assms(1) by (simp_all add: dz_inv_def)
  have ids: "live_ids dz' = live_ids dz @ [SSTableId n]" by (simp add: live_ids_def assms(5,6))
  have "\<forall>i \<in> set (live_ids dz). i < SSTableId n" using next_id_fresh(2) [OF fi] assms(2) by blast
  then have "\<forall>i \<in> set (live_ids dz). i \<noteq> SSTableId n" by (metis less_irrefl)
  then have lt: "live_tables tables' dz' = live_tables tables dz @ [?mem]" by (auto simp: live_tables_def ids assms(4))
  have "\<forall>sid \<in> dom tables. id_value sid < n" using fi assms(2) by (auto simp: files_inv_def)
  then have "\<forall>sid \<in> dom tables'. id_value sid < n + 1" using assms(3) by (auto simp: assms(4) dest: less_trans)
  moreover have "set (live_ids dz') = insert (SSTableId n) (set (live_ids dz))" by (simp add: ids)
  moreover have "data_dir dz' = data_dir dz" "wal_writer dz' = ww" "next_wal_seq dz' = nwal" "next_sst_seq dz' = n + 1"
    "version_set dz' = vs" "table_cache dz' = c" by (simp_all add: assms(5))
  ultimately have "files_inv tables' lg' {ww_path ww} (t, dz')" using assms(7-11) by (simp add: files_inv_def)
  moreover have mem: "active_memtable dz' = Memtable_create k" "lsn dz' = lsn dz" by (simp_all add: assms(5))
  have top: "live_tables tables' dz' @ [[]] = (live_tables tables dz @ [?mem]) @ [[]]" by (simp only: lt)
  have "data_inv b tables' dz'"
    using di unfolding data_inv_def mem empty_memtable(1) top stack_ok_empty_top by (auto simp: small_def)
  moreover have "dz_map tables' dz' = dz_map tables dz" unfolding dz_map_def mem empty_memtable(1) top stack_map_simps(2) by simp
  moreover have "dz_bytes tables' dz' = dz_bytes tables dz" by (simp add: dz_bytes_def mem lt)
  ultimately show ?thesis using lt by (simp add: dz_inv_def)
qed

definition flushed :: "Dazzle \<Rightarrow> u64 \<Rightarrow> WalWriter \<Rightarrow> VersionSet \<Rightarrow> SSTableReader Cache \<Rightarrow> Dazzle" where
  "flushed dz n ww vs c = dz\<lparr>next_sst_seq := n, next_wal_seq := next_wal_seq dz + 1, wal_writer := ww, version_set := vs,
     active_memtable := Memtable_create (memtable_size dz), table_cache := c\<rparr>"

text \<open>The bytes of the active log after a flush: none, unless the log is rotated to itself.\<close>

definition log_after :: "Dazzle \<Rightarrow> bytes \<Rightarrow> bytes" where
  "log_after dz lg = (if ww_path (wal_writer dz) = wal_path (data_dir dz) (next_wal_seq dz) then lg else [])"

lemma finish_flush_ok:
  assumes "dz_inv b tables lg L (s0, dz)" and "n = next_sst_seq dz" and "n < n + 1" and "n + 1 < n + 1 + 1"
    and "next_wal_seq dz < next_wal_seq dz + 1" and "entries (active_memtable dz) \<noteq> []" and "dz_bytes tables dz < 2 ^ 28"
    and "picks_newest dz" and "tables' = tables(SSTableId n \<mapsto> entries (active_memtable dz))"
    and "tc_ok (data_dir dz) tables' (insert (SSTableId n) (set (live_ids dz))) (s, c)"
    and "wal_open (data_dir dz) (wal_writer dz) (next_wal_seq dz) lg s" and "names_free (data_dir dz) (n + 1) s"
    and "tidy (data_dir dz) (insert (SSTableId n) (set (live_ids dz))) L s"
  shows "\<exists>tables'' t n' ww vs e. finish_flush (SSTableId n) rd (s, dz\<lparr>next_sst_seq := n + 1, table_cache := c\<rparr>)
       = (ok (), (t, flushed dz n' ww vs e))
     \<and> dz_inv b tables'' (log_after dz lg) {ww_path ww} (t, flushed dz n' ww vs e) \<and> dz_map tables'' (flushed dz n' ww vs e) = dz_map tables dz
     \<and> dz_bytes tables'' (flushed dz n' ww vs e) \<le> dz_bytes tables dz
     \<and> set (concat (live_tables tables'' (flushed dz n' ww vs e))) \<subseteq> set (concat (live_tables tables dz @ [entries (active_memtable dz)]))
     \<and> (policy dz = FullCompactionPolicy \<longrightarrow> fully_compacted tables'' (flushed dz n' ww vs e))
     \<and> unat n' \<le> unat n + 2 \<and> (\<forall>H. sc.pinned c H \<longrightarrow> sc.pinned e H)
     \<and> (picks_none dz
          \<longrightarrow> live_tables tables'' (flushed dz n' ww vs e) = live_tables tables dz @ [entries (active_memtable dz)])"
proof -
  let ?d = "data_dir dz" and ?sid = "SSTableId n" and ?w = "next_wal_seq dz" and ?files = "current_files (version_set dz)"
  let ?m = "meta_of ?sid (sr_footer rd)"
  have fi: "files_inv tables lg L (s0, dz)" using assms(1) by (simp add: dz_inv_def)
  then have vo: "versions_ok (version_set dz)" by (simp add: files_inv_def)
  have m: "meta_id ?m = ?sid" by (simp add: meta_of_def)
  let ?lg = "log_after dz lg" and ?logs = "insert (wal_path ?d ?w) L"
  have L: "L \<subseteq> {ww_path (wal_writer dz), wal_path ?d (?w - 1)}" using fi by (simp add: files_inv_def)
  obtain ww s1 where w: "WalWriter_create s (wal_path ?d ?w) = (ok ww, s1)" "wal_open ?d ww (?w + 1) ?lg s1"
      "files_ok ?d tables' (insert ?sid (set (live_ids dz))) s1" "names_free ?d (n + 1) s1" "kept s s1" "ww_path ww = wal_path ?d ?w"
      "tidy ?d (insert ?sid (set (live_ids dz))) ?logs s1"
    using wal_rotate_quiet [OF tc_okD(5) [OF assms(10)] assms(11,12,5,13), folded log_after_def] by (elim exE conjE)
  have logs: "ww_path ww \<in> ?logs" "\<forall>p \<in> ?logs. \<exists>k. p = wal_path ?d k"
    using w(6) logs_named [OF assms(11) L] by auto
  let ?dz1 = "dz\<lparr>next_sst_seq := n + 1, table_cache := c, next_wal_seq := ?w + 1\<rparr>"
  have tc1: "tc_ok ?d tables' (insert ?sid (set (live_ids dz))) (s1, table_cache ?dz1)"
    using tc_ok_files [OF assms(10) w(5,3)] by simp
  have ids1: "live_ids ?dz1 = live_ids dz" by (simp add: live_ids_def)
  have below: "\<forall>i \<in> set (live_ids dz). i < ?sid" using next_id_fresh(2) [OF fi] assms(2) by simp
  obtain s2 vs c2 where a: "apply_edit \<lparr>removed = [], added = [?m], next_sst_id = None\<rparr> (s1, ?dz1)
       = (ok (), (s2, ?dz1\<lparr>version_set := vs, table_cache := c2\<rparr>))"
     "tc_ok ?d tables' (insert ?sid (set (live_ids dz))) (s2, c2)" "versions_ok vs" "current_files vs = ?files @ [(?sid, ?m)]"
     "wal_open ?d ww (?w + 1) ?lg s2" "names_free ?d (n + 1) s2" "tidy ?d (insert ?sid (set (live_ids dz))) ?logs s2"
     "\<forall>H. sc.pinned c H \<longrightarrow> sc.pinned c2 H"
    using apply_edit_ok [OF tc1, of ?m "[]" ww "?w + 1" ?lg "n + 1" ?logs] vo w(2,4,7) logs below
    unfolding ids1 m by (auto simp: case_prod_unfold)
  let ?old = "wal_path ?d (?w - 1)" and ?dz3 = "flushed dz (n + 1) ww vs c2"
  let ?s3 = "unlinked (\<lambda>q. q = ?old) s2"
  obtain x where x: "fs_remove ?old s2 = (ok x, ?s3)" using fs_remove_quiet [OF tc_okD(2) [OF a(2)]] by auto
  have tc3: "tc_ok ?d tables' (insert ?sid (set (live_ids dz))) (?s3, c2)"
    by (rule tc_ok_unlinked [OF a(2)]) (metis wal_path_neq_sst_path)
  have "wal_path ?d ?w \<noteq> ?old" using wal_path_inj [of ?d ?w "?w - 1"] by auto
  then have wo3: "wal_open ?d ww (?w + 1) ?lg ?s3" by (intro wal_open_unlinked [OF a(5)]) (simp add: w(6))
  have td3: "tidy ?d (insert ?sid (set (live_ids dz))) {ww_path ww} ?s3"
    using assms(11) L by (intro tidy_unlinked [OF a(7)]) (auto simp: w(6) wal_open_def wal_name_def dest!: subsetD)
  note inv3 = flushed_inv [OF assms(1-3,9) flushed_def [of dz "n + 1" ww vs c2] a(4,3) tc3 wo3 names_free_unlinked [OF a(6)] td3]
  have ord: "dz\<lparr>next_sst_seq := n + 1, next_wal_seq := ?w + 1, version_set := vs, table_cache := c2, wal_writer := ww,
      active_memtable := Memtable_create (memtable_size dz)\<rparr> = ?dz3" by (simp add: flushed_def)
  have fin: "finish_flush ?sid rd (s, dz\<lparr>next_sst_seq := n + 1, table_cache := c\<rparr>)
      = (case do_compact_work (?s3, ?dz3) of (Inl (Abort what), st) \<Rightarrow> (abort what, st) | (_, st) \<Rightarrow> (ok (), st))"
    using w(1) a(1) x by (simp add: finish_flush_def mint_wal_id_def on_fs_def install_flushed_sst_def ord)
  have pol: "policy ?dz3 = policy dz" "next_sst_seq ?dz3 = n + 1" "version_set ?dz3 = vs" "table_cache ?dz3 = c2" by (simp_all add: flushed_def)
  have "safe_pick (policy ?dz3) (sst_meta_to_vector (current_files (version_set ?dz3)))"
    using assms(8) m assms(2) unfolding picks_newest_def pol a(4) by (simp add: sst_meta_to_vector_def)
  then obtain r tables'' t n' vs' e where d: "do_compact_work (?s3, ?dz3) = (ok r, (t, ?dz3\<lparr>next_sst_seq := n', version_set := vs', table_cache := e\<rparr>))"
     "dz_inv b tables'' ?lg {ww_path ww} (t, ?dz3\<lparr>next_sst_seq := n', version_set := vs', table_cache := e\<rparr>)"
     "dz_map tables'' (?dz3\<lparr>next_sst_seq := n', version_set := vs', table_cache := e\<rparr>) = dz_map tables' ?dz3"
     "dz_bytes tables'' (?dz3\<lparr>next_sst_seq := n', version_set := vs', table_cache := e\<rparr>) \<le> dz_bytes tables' ?dz3"
     "set (concat (live_tables tables'' (?dz3\<lparr>next_sst_seq := n', version_set := vs', table_cache := e\<rparr>))) \<subseteq> set (concat (live_tables tables' ?dz3))"
     "policy ?dz3 = FullCompactionPolicy \<longrightarrow> fully_compacted tables'' (?dz3\<lparr>next_sst_seq := n', version_set := vs', table_cache := e\<rparr>)"
     "unat n' \<le> unat (next_sst_seq ?dz3) + 1" "\<forall>H. sc.pinned (table_cache ?dz3) H \<longrightarrow> sc.pinned e H"
     "policy_pick (policy ?dz3) (sst_meta_to_vector (current_files (version_set ?dz3))) = Inr None
        \<longrightarrow> live_tables tables'' (?dz3\<lparr>next_sst_seq := n', version_set := vs', table_cache := e\<rparr>) = live_tables tables' ?dz3"
    using do_compact_work_ok [of b tables' ?lg "{ww_path ww}" ?s3 ?dz3] inv3 assms(4,6,7) pol(2) by auto
  have out: "?dz3\<lparr>next_sst_seq := n', version_set := vs', table_cache := e\<rparr> = flushed dz n' ww vs' e" by (simp add: flushed_def)
  have "unat (n + 1) \<le> unat n + 1" by (simp add: unat_word_ariths)
  then have "unat n' \<le> unat n + 2" using d(7) unfolding pol(2) by simp
  moreover have "finish_flush ?sid rd (s, dz\<lparr>next_sst_seq := n + 1, table_cache := c\<rparr>) = (ok (), (t, flushed dz n' ww vs' e))"
    unfolding fin d(1) out by (simp add: ok_def)
  moreover have "\<forall>H. sc.pinned c H \<longrightarrow> sc.pinned e H" using a(8) d(8) unfolding pol(4) by simp
  moreover have "set (concat (live_tables tables'' (flushed dz n' ww vs' e))) \<subseteq> set (concat (live_tables tables dz @ [entries (active_memtable dz)]))"
    using d(5) inv3 unfolding out by simp
  moreover have "policy dz = FullCompactionPolicy \<longrightarrow> fully_compacted tables'' (flushed dz n' ww vs' e)" using d(6) unfolding out pol(1) .
  moreover have "live_tables tables'' (flushed dz n' ww vs' e) = live_tables tables dz @ [entries (active_memtable dz)]"
    if "picks_none dz"
    using d(9) inv3 that unfolding out pol a(4) picks_none_def by (simp add: sst_meta_to_vector_def)
  ultimately show ?thesis using d(2-4) inv3 unfolding out by (intro exI conjI impI) simp_all
qed

lemma dz_inv_release:
  assumes "dz_inv b tables lg L (s, dz)" and "sc.pinned (table_cache dz) (add_mset h H)"
  shows "\<exists>c. on_cache (tc_release h) (s, dz) = (ok (), (s, dz\<lparr>table_cache := c\<rparr>)) \<and> dz_inv b tables lg L (s, dz\<lparr>table_cache := c\<rparr>)"
proof -
  have fi: "files_inv tables lg L (s, dz)" "data_inv b tables dz" using assms(1) by (simp_all add: dz_inv_def)
  then have "tc_ok (data_dir dz) tables (set (live_ids dz)) (s, table_cache dz)" by (simp add: files_inv_def)
  from tc_release_ok [OF this assms(2)] obtain c where c: "tc_release h (s, table_cache dz) = (ok (), (s, c))"
      "tc_ok (data_dir dz) tables (set (live_ids dz)) (s, c)" by (elim exE conjE)
  have "files_inv tables lg L (s, dz\<lparr>table_cache := c\<rparr>)" using fi(1) by (intro files_inv_cache [OF fi(1) c(2)]) (simp_all add: files_inv_def)
  with c(1) fi(2) show ?thesis by (intro exI [of _ c]) (simp add: on_cache_def dz_inv_def)
qed

lemma flush_ok:
  assumes "dz_inv b tables lg L (s, dz)" and "next_sst_seq dz < next_sst_seq dz + 1" and "next_sst_seq dz + 1 < next_sst_seq dz + 1 + 1"
    and "next_wal_seq dz < next_wal_seq dz + 1" and "entries (active_memtable dz) \<noteq> []" and "dz_bytes tables dz < 2 ^ 28"
    and "picks_newest dz"
  shows "\<exists>tables' t n ww vs c. flush (s, dz) = (ok (), (t, flushed dz n ww vs c))
     \<and> dz_inv b tables' (log_after dz lg) {ww_path ww} (t, flushed dz n ww vs c) \<and> dz_map tables' (flushed dz n ww vs c) = dz_map tables dz
     \<and> dz_bytes tables' (flushed dz n ww vs c) \<le> dz_bytes tables dz
     \<and> set (concat (live_tables tables' (flushed dz n ww vs c))) \<subseteq> set (concat (live_tables tables dz @ [entries (active_memtable dz)]))
     \<and> (policy dz = FullCompactionPolicy \<longrightarrow> fully_compacted tables' (flushed dz n ww vs c))
     \<and> unat n \<le> unat (next_sst_seq dz) + 2
     \<and> (picks_none dz
          \<longrightarrow> live_tables tables' (flushed dz n ww vs c) = live_tables tables dz @ [entries (active_memtable dz)])"
proof -
  let ?d = "data_dir dz" and ?n = "next_sst_seq dz" and ?mem = "active_memtable dz"
  let ?sid = "SSTableId ?n"
  let ?tb = "tables(?sid \<mapsto> entries ?mem)" and ?live = "insert ?sid (set (live_ids dz))"
  have fi: "files_inv tables lg L (s, dz)" and di: "data_inv b tables dz" using assms(1) by (simp_all add: dz_inv_def)
  have tc: "tc_ok ?d tables (set (live_ids dz)) (s, table_cache dz)" and wo: "wal_open ?d (wal_writer dz) (next_wal_seq dz) lg s"
    and td: "tidy ?d (set (live_ids dz)) L s"
    and nf: "names_free ?d ?n s" and dom: "\<forall>sid \<in> dom tables. id_value sid < ?n" using fi by (simp_all add: files_inv_def)
  have fresh: "tables ?sid = None" using dom by (metis SSTableId.sel domIff less_irrefl)
  have ord: "ordered (entries ?mem)" using di by (simp add: data_inv_def memtable_inv_def)
  have bytes: "length (block_image (entries ?mem)) < 2 ^ 28" using assms(6) by (simp add: dz_bytes_def)
  obtain img where w: "write_memtable (sst_path ?d ?n) ?mem s = (ok (), fs_stored s (sst_path ?d ?n) img)"
      "tc_ok ?d ?tb ?live (fs_stored s (sst_path ?d ?n) img, table_cache dz)"
    using write_memtable_ok [OF tc nf fresh assms(5) ord bytes] by (elim exE conjE)
  let ?s1 = "fs_stored s (sst_path ?d ?n) img"
  have wf: "fs_wf s" using tc_okD(1) [OF tc] .
  obtain rd h s2 c where g: "tc_get ?d ?sid (?s1, table_cache dz) = (ok (rd, h), (s2, c))" "tc_ok ?d ?tb ?live (s2, c)"
      "same_files ?s1 s2" "\<forall>H. sc.pinned (table_cache dz) H \<longrightarrow> sc.pinned c (add_mset h H)"
    using tc_get_ok [OF w(2), of ?sid "entries ?mem"] by auto
  have w2: "wal_open ?d (wal_writer dz) (next_wal_seq dz) lg s2" by (rule wal_open_same [OF wal_open_stored [OF wo wf] g(3) tc_okD(1) [OF w(2)]])
  have td2: "tidy ?d ?live L s2" by (rule tidy_same [OF tidy_stored [OF td] g(3)])
  have nf2: "names_free ?d (?n + 1) s2" by (rule names_free_same [OF names_free_stored [OF nf assms(2)] g(3)])
  obtain tables' t n ww vs e where f: "finish_flush ?sid rd (s2, dz\<lparr>next_sst_seq := ?n + 1, table_cache := c\<rparr>) = (ok (), (t, flushed dz n ww vs e))"
      "dz_inv b tables' (log_after dz lg) {ww_path ww} (t, flushed dz n ww vs e)" "dz_map tables' (flushed dz n ww vs e) = dz_map tables dz"
      "dz_bytes tables' (flushed dz n ww vs e) \<le> dz_bytes tables dz" "unat n \<le> unat ?n + 2" "\<forall>H. sc.pinned c H \<longrightarrow> sc.pinned e H"
      "set (concat (live_tables tables' (flushed dz n ww vs e))) \<subseteq> set (concat (live_tables tables dz @ [entries ?mem]))"
      "policy dz = FullCompactionPolicy \<longrightarrow> fully_compacted tables' (flushed dz n ww vs e)"
      "picks_none dz
        \<longrightarrow> live_tables tables' (flushed dz n ww vs e) = live_tables tables dz @ [entries ?mem]"
    using finish_flush_ok [OF assms(1) refl assms(2-7) refl g(2) w2 nf2 td2, of rd] by (elim exE conjE)
  have "sc.pinned (table_cache (flushed dz n ww vs e)) {#h#}" using f(6) g(4) by (auto simp: flushed_def)
  from dz_inv_release [OF f(2) this] obtain e' where r: "on_cache (tc_release h) (t, flushed dz n ww vs e) = (ok (), (t, flushed dz n ww vs e'))"
      "dz_inv b tables' (log_after dz lg) {ww_path ww} (t, flushed dz n ww vs e')" by (auto simp: flushed_def)
  have same: "flushed dz n ww vs e' = (flushed dz n ww vs e)\<lparr>table_cache := e'\<rparr>" by (simp add: flushed_def)
  have "flush (s, dz) = (ok (), (t, flushed dz n ww vs e'))"
    using assms(5) w(1) g(1) f(1) r(1) by (simp add: flush_def memtable_count_def mint_sst_id_def on_fs_def on_cache_def)
  moreover have "dz_map tables' (flushed dz n ww vs e') = dz_map tables dz" "dz_bytes tables' (flushed dz n ww vs e') \<le> dz_bytes tables dz"
    using f(3,4) unfolding same by simp_all
  moreover have "live_tables tables' (flushed dz n ww vs e') = live_tables tables' (flushed dz n ww vs e)"
      "fully_compacted tables' (flushed dz n ww vs e') = fully_compacted tables' (flushed dz n ww vs e)"
    unfolding same by (simp_all add: fully_compacted_def live_tables_def live_ids_def)
  ultimately show ?thesis using r(2) f(5,7-9) by (intro exI [of _ tables'] exI conjI) (assumption | simp)+
qed

section \<open>Writes\<close>

lemma block_image_assign: "length (block_image (map_assign k v m)) \<le> length (block_image m) + length (entry_image (k, v))"
  by (induction k v m rule: map_assign.induct) auto

lemma map_assign_nonempty [simp]: "map_assign k v m \<noteq> []"
  by (induction k v m rule: map_assign.induct) auto

lemma written_inv:
  assumes "dz_inv (lsn dz) tables lg L (s, dz)" and "lsn dz < lsn dz + 1" and "sequence v = lsn dz"
    and "length (entry_image (k, v)) \<le> MAX_PAGING_SIZE_BYTES" and "memtable_inv m" and "entries m = map_assign k v (entries (active_memtable dz))"
    and "tc_ok (data_dir dz) tables (set (live_ids dz)) (t, table_cache dz)"
    and "wal_open (data_dir dz) (wal_writer dz) (next_wal_seq dz) lg' t" and "names_free (data_dir dz) (next_sst_seq dz) t" and "dir t = dir s"
    and "dz' = dz\<lparr>lsn := lsn dz + 1, hlc := clk, active_memtable := m\<rparr>"
  shows "dz_inv (lsn dz + 1) tables lg' L (t, dz')" and "dz_map tables dz' = (dz_map tables dz)(k := reveal (Some v))"
    and "dz_bytes tables dz' \<le> dz_bytes tables dz + length (entry_image (k, v))" and "live_tables tables dz' = live_tables tables dz"
proof -
  let ?mem = "entries (active_memtable dz)" and ?live = "live_tables tables dz"
  have fi: "files_inv tables lg L (s, dz)" and di: "data_inv (lsn dz) tables dz" using assms(1) by (simp_all add: dz_inv_def)
  have sel: "active_memtable dz' = m" "lsn dz' = lsn dz + 1" by (simp_all add: assms(11))
  have live: "live_ids dz' = live_ids dz" "live_tables tables dz' = ?live" by (simp_all add: assms(11) live_ids_def live_tables_def)
  show "live_tables tables dz' = live_tables tables dz" by (rule live(2))
  have st: "stack_ok ?live" "\<forall>t \<in> set ?live. older t ?mem" and sm: "\<forall>t \<in> set ?live. small (lsn dz) t" "small (lsn dz) ?mem"
    using di by (auto simp: data_inv_def stack_ok_append)
  have new: "set (entries m) \<subseteq> insert (k, v) (set ?mem)" unfolding assms(6) by (rule set_map_assign)
  have "older t (entries m)" if "t \<in> set ?live" for t
    using that st(2) sm(1) new assms(3) unfolding older_def small_def by fastforce
  moreover have "ordered (entries m)" using assms(5) by (simp add: memtable_inv_def)
  ultimately have "stack_ok (?live @ [entries m])" using st(1) by (simp add: stack_ok_append) (simp add: stack_ok_def)
  moreover have "small (lsn dz + 1) t" if "small (lsn dz) t" for t using that assms(2) by (auto simp: small_def dest: less_trans)
  moreover have "small (lsn dz + 1) (entries m)"
    using new sm(2) assms(2-4) by (auto simp: small_def dest!: subsetD dest: less_trans)
  ultimately have "data_inv (lsn dz + 1) tables dz'" using assms(5) sm(1) by (simp add: data_inv_def live sel)
  moreover have "files_inv tables lg' L (t, dz')"
    using fi assms(7-10) by (simp add: files_inv_def live tidy_def) (simp add: assms(11))
  ultimately show "dz_inv (lsn dz + 1) tables lg' L (t, dz')" by (simp add: dz_inv_def)
  show "dz_map tables dz' = (dz_map tables dz)(k := reveal (Some v))"
    by (auto simp: dz_map_def live sel assms(6) map_of_assign map_add_def)
  show "dz_bytes tables dz' \<le> dz_bytes tables dz + length (entry_image (k, v))"
    using block_image_assign [of k v ?mem] by (simp add: dz_bytes_def live sel assms(6))
qed

text \<open>The write up to the point where the memtable may be flushed.\<close>

lemma put_write_ok:
  assumes "dz_inv (lsn dz) tables lg L (s, dz)" and "lsn dz < lsn dz + 1" and "remove \<or> value \<noteq> None" and "v = written_value value remove (lsn dz)"
    and "length (entry_image (key, v)) \<le> MAX_PAGING_SIZE_BYTES"
  shows "\<exists>u dz' lg'. put_internal key value remove now (s, dz) = (if should_flush (active_memtable dz') then flush (u, dz') else (ok (), (u, dz')))
     \<and> dz_inv (lsn dz + 1) tables lg' L (u, dz') \<and> dz_map tables dz' = (dz_map tables dz)(key := reveal (Some v))
     \<and> dz_bytes tables dz' \<le> dz_bytes tables dz + length (entry_image (key, v))
     \<and> length lg' \<le> length lg + length (entry_image (key, v)) + 16 + (if remove then length (case value of Some v \<Rightarrow> v | None \<Rightarrow> []) else 0)
     \<and> (logged (lsn dz) tables lg dz \<longrightarrow> key_bytes key \<noteq> [] \<longrightarrow> (remove \<longrightarrow> value = None) \<longrightarrow> logged (lsn dz + 1) tables lg' dz')
     \<and> entries (active_memtable dz') \<noteq> [] \<and> lsn dz' = lsn dz + 1 \<and> next_sst_seq dz' = next_sst_seq dz
     \<and> next_wal_seq dz' = next_wal_seq dz \<and> policy dz' = policy dz \<and> version_set dz' = version_set dz \<and> data_dir dz' = data_dir dz
     \<and> wal_writer dz' = wal_writer dz \<and> entries (active_memtable dz') = map_assign key v (entries (active_memtable dz))"
proof -
  let ?d = "data_dir dz" and ?mem = "active_memtable dz"
  define clk where "clk = snd (hlc_next now (hlc dz))"
  define m where "m = (if remove then memtable_remove ?mem key (lsn dz) else memtable_put ?mem key (the value) (lsn dz))"
  define dz1 where "dz1 = dz\<lparr>lsn := lsn dz + 1, hlc := clk, active_memtable := m\<rparr>"
  have fi: "files_inv tables lg L (s, dz)" and di: "data_inv (lsn dz) tables dz" using assms(1) by (simp_all add: dz_inv_def)
  have tc: "tc_ok ?d tables (set (live_ids dz)) (s, table_cache dz)" and wo: "wal_open ?d (wal_writer dz) (next_wal_seq dz) lg s"
    and nf: "names_free ?d (next_sst_seq dz) s" using fi by (simp_all add: files_inv_def)
  obtain ts where ts: "hlc_next now (hlc dz) = (ts, clk)" unfolding clk_def by (metis prod.collapse)
  define r where "r = \<lparr>op_type = if remove then DELETE_ROW else PUT_ROW, timestamp = ts, wal_sequence = lsn dz, wal_key = key,
      wal_value = (case value of Some v \<Rightarrow> v | None \<Rightarrow> [])\<rparr>"
  obtain t u where w: "wal_append s (wal_writer dz) r = (ok (), t)" "wal_sync t (wal_writer dz) = (ok (), u)"
      "files_ok ?d tables (set (live_ids dz)) u" "wal_open ?d (wal_writer dz) (next_wal_seq dz) (lg @ serialize_wal_record r) u"
      "names_free ?d (next_sst_seq dz) u" "kept s u" "dir u = dir s"
    using wal_write_quiet [OF tc_okD(5) [OF tc] wo nf, of r] by (elim exE conjE)
  have em: "entries m = map_assign key v (entries ?mem)" by (simp add: m_def assms(4) written_value_def)
  have mi: "memtable_inv m" using di by (simp add: m_def data_inv_def memtable_inv_put memtable_inv_remove)
  have vs: "sequence v = lsn dz" by (simp add: assms(4) written_value_def)
  note inv1 = written_inv [OF assms(1,2) vs assms(5) mi em tc_ok_files [OF tc w(6,3) map_le_refl] w(4,5,7) dz1_def]
  have sel: "next_sst_seq dz1 = next_sst_seq dz" "next_wal_seq dz1 = next_wal_seq dz" "lsn dz1 = lsn dz + 1" "policy dz1 = policy dz"
      "active_memtable dz1 = m" "version_set dz1 = version_set dz" "data_dir dz1 = data_dir dz" "wal_writer dz1 = wal_writer dz" by (simp_all add: dz1_def)
  have run: "put_internal key value remove now (s, dz) = (if should_flush (active_memtable dz1) then flush (u, dz1) else (ok (), (u, dz1)))"
    using w(1,2) ts assms(3) by (auto simp: put_internal_def bump_lsn_sequence_def on_fs_def dz1_def m_def r_def)
  have size: "get_record_size r = length (entry_image (key, v)) + 16 + (if remove then length (case value of Some v \<Rightarrow> v | None \<Rightarrow> []) else 0)"
    using assms(3) by (auto simp: get_record_size_def r_def length_entry_image assms(4) written_value_def)
  have lg: "logged (lsn dz + 1) tables (lg @ serialize_wal_record r) dz1"
    if "logged (lsn dz) tables lg dz" "key_bytes key \<noteq> []" "remove \<longrightarrow> value = None"
  proof -
    have "get_record_size r < 2 ^ 32" using assms(5) that(3) unfolding size by (auto simp: MAX_PAGING_SIZE_BYTES_def)
    then have "record_ok r" using that(2) by (simp add: record_ok_def r_def)
    then show ?thesis using em inv1(2,4) by (intro logged_written [OF that(1) di assms(2,4,3) r_def _ assms(5)]) (simp_all add: sel)
  qed
  have "length (lg @ serialize_wal_record r) \<le> length lg + length (entry_image (key, v)) + 16 + (if remove then length (case value of Some v \<Rightarrow> v | None \<Rightarrow> []) else 0)"
    using size by (simp add: serialize_wal_image)
  then show ?thesis using run inv1(1-3) lg em
    by (intro exI [of _ u] exI [of _ dz1] exI [of _ "lg @ serialize_wal_record r"]) (simp add: sel)
qed

lemma put_internal_ok:
  assumes "dz_inv (lsn dz) tables lg L (s, dz)" and "lsn dz < lsn dz + 1" and "next_sst_seq dz < next_sst_seq dz + 1"
    and "next_sst_seq dz + 1 < next_sst_seq dz + 1 + 1" and "next_wal_seq dz < next_wal_seq dz + 1" and "picks_newest dz"
    and "remove \<or> value \<noteq> None" and "v = written_value value remove (lsn dz)"
    and "length (entry_image (key, v)) \<le> MAX_PAGING_SIZE_BYTES" and "dz_bytes tables dz + length (entry_image (key, v)) < 2 ^ 28"
    and "remove \<longrightarrow> value = None"
  shows "\<exists>tables' t dz' lg' L'. put_internal key value remove now (s, dz) = (ok (), (t, dz')) \<and> dz_inv (lsn dz') tables' lg' L' (t, dz')
     \<and> (L = {ww_path (wal_writer dz)} \<longrightarrow> L' = {ww_path (wal_writer dz')})
     \<and> dz_map tables' dz' = (dz_map tables dz)(key := reveal (Some v))
     \<and> dz_bytes tables' dz' \<le> dz_bytes tables dz + length (entry_image (key, v)) \<and> length lg' \<le> length lg + length (entry_image (key, v)) + 16
     \<and> (logged (lsn dz) tables lg dz \<longrightarrow> key_bytes key \<noteq> [] \<longrightarrow> logged (lsn dz') tables' lg' dz')
     \<and> lsn dz' = lsn dz + 1 \<and> unat (next_sst_seq dz') \<le> unat (next_sst_seq dz) + 2
     \<and> unat (next_wal_seq dz') \<le> unat (next_wal_seq dz) + 1 \<and> policy dz' = policy dz \<and> data_dir dz' = data_dir dz"
proof -
  obtain u dz1 lg1 where p: "put_internal key value remove now (s, dz) = (if should_flush (active_memtable dz1) then flush (u, dz1) else (ok (), (u, dz1)))"
     "dz_inv (lsn dz + 1) tables lg1 L (u, dz1)" "dz_map tables dz1 = (dz_map tables dz)(key := reveal (Some v))"
     "dz_bytes tables dz1 \<le> dz_bytes tables dz + length (entry_image (key, v))"
     "length lg1 \<le> length lg + length (entry_image (key, v)) + 16 + (if remove then length (case value of Some v \<Rightarrow> v | None \<Rightarrow> []) else 0)"
     "logged (lsn dz) tables lg dz \<longrightarrow> key_bytes key \<noteq> [] \<longrightarrow> (remove \<longrightarrow> value = None) \<longrightarrow> logged (lsn dz + 1) tables lg1 dz1"
     "entries (active_memtable dz1) \<noteq> []" "lsn dz1 = lsn dz + 1" "next_sst_seq dz1 = next_sst_seq dz"
     "next_wal_seq dz1 = next_wal_seq dz" "policy dz1 = policy dz" "version_set dz1 = version_set dz" "data_dir dz1 = data_dir dz"
     "wal_writer dz1 = wal_writer dz"
    using put_write_ok [OF assms(1,2,7-9), of now] by (elim exE conjE)
  have len: "length lg1 \<le> length lg + length (entry_image (key, v)) + 16" using p(5) assms(11) by (cases remove) simp_all
  show ?thesis
  proof (cases "should_flush (active_memtable dz1)")
    case True
    have "picks_newest dz1" using assms(6) by (simp add: picks_newest_def p(9,11,12))
    then obtain tables' t n ww vs c where f: "flush (u, dz1) = (ok (), (t, flushed dz1 n ww vs c))"
       "dz_inv (lsn dz + 1) tables' (log_after dz1 lg1) {ww_path ww} (t, flushed dz1 n ww vs c)" "dz_map tables' (flushed dz1 n ww vs c) = dz_map tables dz1"
       "dz_bytes tables' (flushed dz1 n ww vs c) \<le> dz_bytes tables dz1"
       "set (concat (live_tables tables' (flushed dz1 n ww vs c))) \<subseteq> set (concat (live_tables tables dz1 @ [entries (active_memtable dz1)]))"
       "unat n \<le> unat (next_sst_seq dz1) + 2"
      using flush_ok [OF p(2)] p(4,7) assms(3-5,10) unfolding p(9,10) by auto
    let ?dz = "flushed dz1 n ww vs c"
    have sel: "lsn ?dz = lsn dz + 1" "unat (next_sst_seq ?dz) \<le> unat (next_sst_seq dz) + 2" "unat (next_wal_seq ?dz) \<le> unat (next_wal_seq dz) + 1"
        "policy ?dz = policy dz" "entries (active_memtable ?dz) = []" "data_dir ?dz = data_dir dz" "wal_writer ?dz = ww"
      using f(6) by (simp_all add: flushed_def p unat_word_ariths)
    have "memtable_inv (active_memtable dz1)" using p(2) by (simp add: dz_inv_def data_inv_def)
    then have "logged (lsn dz + 1) tables' (log_after dz1 lg1) ?dz" if "logged (lsn dz + 1) tables lg1 dz1"
      using that f(3,5) sel(5) by (intro logged_flush [OF that]) (simp_all add: log_after_def)
    moreover have "length (log_after dz1 lg1) \<le> length lg1" by (simp add: log_after_def)
    ultimately show ?thesis using f(1-4) p(1,3,4,6) len True sel assms(11)
      by (intro exI [of _ tables'] exI [of _ t] exI [of _ ?dz] exI [of _ "log_after dz1 lg1"] exI [of _ "{ww_path ww}"]) simp
  next
    case False
    with p len assms(11) show ?thesis by (intro exI [of _ tables] exI [of _ u] exI [of _ dz1] exI [of _ lg1] exI [of _ L]) simp
  qed
qed

end
