(* ===== verification/Engine_Restart.thy ===== *)
theory Engine_Restart
  imports Engine_Refinement
begin

text \<open>
  Stopping and reopening the engine. A crash closes every descriptor and leaves of every file the
  bytes that were synced; the names in the directories are kept. Opening loads the tables, replays
  the log into the memtable and flushes it.
\<close>

definition crash :: "fs \<Rightarrow> fs" where
  "crash s = s\<lparr>fds := Map.empty, inodes := (\<lambda>i. map_option (\<lambda>n. n\<lparr>contents := durable n\<rparr>) (inodes s i))\<rparr>"

lemma crash_simps [simp]:
  "dir (crash s) = dir s" "subdirs (crash s) = subdirs s" "answers (crash s) = answers s" "fds (crash s) = Map.empty"
  "next_ino (crash s) = next_ino s" "next_fd (crash s) = next_fd s" "is_directory (crash s) p = is_directory s p"
  "assertions (crash s) = assertions s"
  by (simp_all add: crash_def is_directory_def)

lemma fs_wf_crash: "fs_wf s \<Longrightarrow> fs_wf (crash s)"
  by (auto simp: fs_wf_def crash_def)

lemma inodes_crash: "inodes s i = Some n \<Longrightarrow> durable n = contents n \<Longrightarrow> inodes (crash s) i = Some n"
  by (cases n) (simp add: crash_def)

lemma files_ok_crash:
  assumes "files_ok d tables live s"
  shows "files_ok d tables live (crash s)"
proof -
  have "stored d (crash s) sid tbl" if st: "stored d s sid tbl" for sid tbl
  proof -
    from st obtain i n f where "map_of (dir s) (sst_path d (id_value sid)) = Some i" "inodes s i = Some n"
      "contents n = sst_image tbl f" "durable n = contents n" "table_ok tbl f" unfolding stored_def by blast
    moreover from this(2,4) have "inodes (crash s) i = Some n" by (rule inodes_crash)
    ultimately show ?thesis unfolding stored_def by (intro exI [of _ i] exI [of _ n] exI [of _ f]) simp
  qed
  with assms show ?thesis unfolding files_ok_def by (auto simp: fs_wf_crash calm_def)
qed

section \<open>Loading the tables\<close>

lemma ordered_insert: "ordered m \<Longrightarrow> ordered (map_insert k v m)"
  by (simp add: map_insert_def ordered_assign)

lemma keys_insert: "fst ` set (map_insert k v m) = insert k (fst ` set m)"
proof (cases "map_of m k = None")
  case False
  then have "k \<in> fst ` set m" by (simp add: map_of_eq_None_iff)
  with False show ?thesis by (auto simp: map_insert_def map_find_def)
qed (simp add: map_insert_def map_find_def set_map_assign)

definition named_metas :: "file_map \<Rightarrow> bool" where
  "named_metas ms \<longleftrightarrow> (\<forall>(i, m) \<in> set ms. meta_id m = i)"

lemma named_metas_insert: "named_metas ms \<Longrightarrow> meta_id m = i \<Longrightarrow> named_metas (map_insert i m ms)"
  using set_map_assign(1) [of i m ms] by (auto simp: named_metas_def map_insert_def)

lemma load_tables_ok:
  assumes "files_ok d tables (SSTableId ` set ns) s" and "ordered ms" and "named_metas ms"
  shows "\<exists>ms' mx' t. load_tables (map (\<lambda>n. (sst_path d n, n)) ns) ms mx s = (ok (ms', mx'), t) \<and> same_files s t \<and> fs_wf t
     \<and> ordered ms' \<and> named_metas ms' \<and> fst ` set ms' = fst ` set ms \<union> SSTableId ` set ns \<and> mx \<le> mx'
     \<and> (\<forall>n \<in> set ns. max_seq (the (tables (SSTableId n))) \<le> mx')
     \<and> (\<forall>u. mx < u \<longrightarrow> (\<forall>n \<in> set ns. max_seq (the (tables (SSTableId n))) < u) \<longrightarrow> mx' < u)"
  using assms
proof (induction ns arbitrary: ms mx s)
  case Nil
  then show ?case by (simp add: files_ok_def)
next
  case (Cons n ns)
  have q: "fs_wf s" "answers s = []" using Cons.prems(1) by (simp_all add: files_ok_def)
  obtain tbl where tbl: "tables (SSTableId n) = Some tbl" "stored d s (SSTableId n) tbl"
    using Cons.prems(1) by (auto simp: files_ok_def)
  from open_stored [OF tbl(2) q] obtain rd t where r: "SSTableReader_create s (sst_path d n) = (ok rd, t)" "good_reader t rd tbl"
      "fs_wf t" "same_files s t" by auto
  let ?ms = "map_insert (SSTableId n) (meta_of (SSTableId n) (sr_footer rd)) ms"
  have hs: "highest_sequence (sr_footer rd) = max_seq tbl" using r(2) by (simp add: good_reader_def)
  let ?mx = "if highest_sequence (sr_footer rd) > mx then highest_sequence (sr_footer rd) else mx"
  have "files_ok d tables (SSTableId ` set ns) t"
    using files_ok_same [OF _ r(4,3), of d tables "SSTableId ` set ns"] Cons.prems(1) by (simp add: files_ok_def)
  from Cons.IH [OF this ordered_insert [OF Cons.prems(2)] named_metas_insert [OF Cons.prems(3)], of "meta_of (SSTableId n) (sr_footer rd)" "SSTableId n" ?mx]
  obtain ms' mx' u where l: "load_tables (map (\<lambda>n. (sst_path d n, n)) ns) ?ms ?mx t = (ok (ms', mx'), u)" "same_files t u" "fs_wf u"
     "ordered ms'" "named_metas ms'" "fst ` set ms' = fst ` set ?ms \<union> SSTableId ` set ns" "?mx \<le> mx'"
     "\<forall>n \<in> set ns. max_seq (the (tables (SSTableId n))) \<le> mx'"
     "\<forall>u. ?mx < u \<longrightarrow> (\<forall>n \<in> set ns. max_seq (the (tables (SSTableId n))) < u) \<longrightarrow> mx' < u"
    by (auto simp: meta_of_def)
  have "load_tables (map (\<lambda>n. (sst_path d n, n)) (n # ns)) ms mx s = (ok (ms', mx'), u)"
    using r(1) l(1) by (simp add: Let_def split del: if_split)
  moreover have "mx \<le> mx'" "max_seq tbl \<le> mx'" using l(7) by (auto simp: hs split: if_splits)
  ultimately show ?case
    using l(3-6,8,9) same_files_trans [OF r(4) l(2)] tbl(1)
    by (intro exI [of _ ms'] exI [of _ mx'] exI [of _ u]) (auto simp: keys_insert hs)
qed

section \<open>Replaying the log\<close>

lemma serialize_image: "serialize_wal_record = wal_image"
  by (rule ext) (rule serialize_wal_image)

lemma replay_segment_prefix:
  assumes "answers s = []" and "readable s (wr_fh rd)" and "view s (wr_fh rd) = Some (pre @ concat (map serialize_wal_record rs) @ post)"
    and "wr_offset rd = length pre" and "\<forall>r \<in> set rs. get_record_size r < 2 ^ 32"
  shows "replay_segment (s, rd) acc = replay_segment (s, rd\<lparr>wr_offset := length (pre @ concat (map serialize_wal_record rs))\<rparr>)
    (foldl (\<lambda>acc r. replay_record r acc) acc rs)"
  using assms [unfolded serialize_image] unfolding serialize_image
proof (induction rs arbitrary: pre rd acc)
  case Nil
  then have "rd\<lparr>wr_offset := length pre\<rparr> = rd" by simp
  then show ?case by simp
next
  case (Cons r rs)
  let ?rd = "rd\<lparr>wr_offset := length pre + get_record_size r\<rparr>"
  have "wal_next (s, rd) = (ok r, (s, ?rd))"
    using Cons.prems by (intro wal_next_record [of s rd pre r "concat (map wal_image rs) @ post"]) simp_all
  then have "replay_segment (s, rd) acc = replay_segment (s, ?rd) (replay_record r acc)"
    by (subst replay_segment.simps) (simp add: ok_def)
  also have "\<dots> = replay_segment (s, rd\<lparr>wr_offset := length ((pre @ wal_image r) @ concat (map wal_image rs))\<rparr>)
      (foldl (\<lambda>acc r. replay_record r acc) (replay_record r acc) rs)"
    using Cons.IH [of ?rd "pre @ wal_image r"] Cons.prems by simp
  finally show ?case by simp
qed

lemma replay_segment_ok:
  assumes "answers s = []" and "readable s (wr_fh rd)" and "view s (wr_fh rd) = Some (pre @ concat (map serialize_wal_record rs))"
    and "wr_offset rd = length pre" and "\<forall>r \<in> set rs. get_record_size r < 2 ^ 32"
  shows "replay_segment (s, rd) acc = (ok (foldl (\<lambda>acc r. replay_record r acc) acc rs), s)"
proof -
  let ?rd = "rd\<lparr>wr_offset := length (pre @ concat (map serialize_wal_record rs))\<rparr>"
  have "replay_segment (s, ?rd) acc = (ok acc, s)" for acc
    using wal_next_eof [of s ?rd "pre @ concat (map serialize_wal_record rs)"] assms(1-3) by (subst replay_segment.simps) (simp add: err_def)
  then show ?thesis using replay_segment_prefix [of s rd pre rs "[]"] assms by simp
qed

section \<open>Listing the directories\<close>

lemma dir_names: "fs_wf s \<Longrightarrow> distinct (map fst (dir s))"
  by (simp add: fs_wf_def)

lemma table_listing:
  assumes "files_ok d tables live s" and "tidy d live L s"
  shows "\<exists>ns. filter (\<lambda>q. parent_of q = d @ ''/sst'' \<and> extension q = ''.db'') (map fst (dir s)) = map (sst_path d) ns \<and> SSTableId ` set ns = live"
proof -
  let ?ps = "filter (\<lambda>q. parent_of q = d @ ''/sst'' \<and> extension q = ''.db'') (map fst (dir s))"
  have sub: "set ?ps \<subseteq> table_paths d live" using assms(2) by (auto simp: tidy_def)
  then have "\<forall>p \<in> set ?ps. \<exists>n. p = sst_path d n" by (auto simp: table_paths_def)
  then obtain ns where ns: "?ps = map (sst_path d) ns" unfolding ex_map_conv [symmetric] by (elim exE)
  have "sst_path d (id_value i) \<in> set ?ps" if i: "i \<in> live" for i
  proof -
    from i assms(1) have "map_of (dir s) (sst_path d (id_value i)) \<noteq> None" by (auto simp: files_ok_def stored_def)
    then show ?thesis by (auto simp: map_of_eq_None_iff parent_sst_path sst_path_parts)
  qed
  with sub have "set ?ps = table_paths d live" by (auto simp: table_paths_def)
  then have "sst_path d ` set ns = sst_path d ` id_value ` live" by (simp only: ns set_map table_paths_def image_image)
  then have "set ns = id_value ` live" using sst_path_inj by (subst (asm) inj_image_eq_iff) (auto intro: injI)
  then have "SSTableId ` set ns = live" by (force simp: image_image)
  with ns show ?thesis by blast
qed

lemma log_listing:
  assumes "fs_wf s" and "tidy d live {wal_path d k} s" and "map_of (dir s) (wal_path d k) \<noteq> None"
  shows "filter (\<lambda>q. parent_of q = d @ ''/wal'' \<and> extension q = ''.log'') (map fst (dir s)) = [wal_path d k]"
proof -
  let ?ps = "filter (\<lambda>q. parent_of q = d @ ''/wal'' \<and> extension q = ''.log'') (map fst (dir s))"
  have "set ?ps \<subseteq> {wal_path d k}" using assms(2) by (auto simp: tidy_def)
  moreover have "wal_path d k \<in> set ?ps" using assms(3) by (auto simp: map_of_eq_None_iff parent_wal_path wal_path_parts)
  ultimately have "set ?ps = {wal_path d k}" by blast
  moreover have "distinct ?ps" by (rule distinct_filter [OF dir_names [OF assms(1)]])
  moreover have "xs = [x]" if "set xs = {x}" "distinct xs" for x :: string and xs using that by (cases xs) (auto dest: subset_singletonD)
  ultimately show ?thesis by blast
qed

section \<open>Opening\<close>

lemma foldl_max_ge: "(a :: u64) \<le> foldl max a ns"
  by (induction ns arbitrary: a) (auto intro: order_trans [OF max.cobounded1])

lemma foldl_max_props:
  fixes ns :: "u64 list"
  shows "n \<in> set ns \<Longrightarrow> n \<le> foldl max a ns" and "foldl max a ns = a \<or> foldl max a ns \<in> set ns"
  by (induction ns arbitrary: a) (auto simp: max_def intro: order_trans [OF _ foldl_max_ge] split: if_splits)

lemma max_seq_bounds:
  shows "e \<in> set es \<Longrightarrow> sequence (snd e) \<le> max_seq es" and "small b es \<Longrightarrow> 0 < b \<Longrightarrow> max_seq es < b"
  by (induction es rule: rev_induct) (auto simp: max_seq_snoc small_def intro: less_imp_le order_trans, simp_all add: max_seq_def)

definition reopened :: "string \<Rightarrow> u64 \<Rightarrow> file_map \<Rightarrow> fs \<Rightarrow> u64 \<Rightarrow> u64 \<Rightarrow> SSTableReader Cache \<Rightarrow> u64 \<Rightarrow> CompactionPolicy \<Rightarrow> dz_state" where
  "reopened d sz ms t k h c mx p =
     (fs_fresh t (wal_path d k) Append,
      Dazzle_create d \<lparr>ww_path = wal_path d k, ww_fh = FileHandle (next_fd t)\<rparr> sz (Memtable_create (unat sz)) ms k (h + 1) c (mx + 1) (Some p))"

lemma restart_load:
  assumes "dz_inv b tables lg {wal_path d k} (s, dz)" and "d = data_dir dz" and "ww_path (wal_writer dz) = wal_path d k"
    and "unat (next_sst_seq dz) \<le> 2 ^ 63" and "unat k + 1 < 2 ^ 63" and "trim_string d \<noteq> ''''" and "0 < n" and "0 < b"
  shows "\<exists>ms mx t h c. NewLRUCache (mb_to_b mb) n = ok c \<and>
     dz_open d sz (Some p) mb n (crash s) =
       (case recover (reopened d sz ms t (k + 1) h c mx p) of (Inl e, (s, _)) \<Rightarrow> (Inl e, s) | (Inr _, (s, dz)) \<Rightarrow> (ok dz, s))
     \<and> same_files (crash s) t \<and> fs_wf t \<and> map fst ms = live_ids dz \<and> ordered ms \<and> named_metas ms
     \<and> (\<forall>tbl \<in> set (live_tables tables dz). max_seq tbl \<le> mx) \<and> mx < b
     \<and> (\<forall>i \<in> set (live_ids dz). id_value i \<le> h) \<and> unat h \<le> unat (next_sst_seq dz)"
proof -
  let ?s = "crash s" and ?live = "set (live_ids dz)"
  have fi: "files_inv tables lg {wal_path d k} (s, dz)" and di: "data_inv b tables dz" using assms(1) by (simp_all add: dz_inv_def)
  have tc: "tc_ok d tables ?live (s, table_cache dz)" and td: "tidy d ?live {wal_path d k} s" and nf: "names_free d (next_sst_seq dz) s"
    and vo: "versions_ok (version_set dz)" and wo: "wal_open d (wal_writer dz) (next_wal_seq dz) lg s" using fi assms(2) by (simp_all add: files_inv_def)
  note ok = files_ok_crash [OF tc_okD(5) [OF tc]]
  have q: "answers ?s = []" "fs_wf ?s" using ok by (simp_all add: files_ok_def)
  have dirs: "is_directory ?s (d @ ''/wal'')" "is_directory ?s (d @ ''/sst'')" using nf by (simp_all add: names_free_def)
  have tdc: "tidy d ?live {wal_path d k} ?s" using td by (simp add: tidy_def)
  obtain ns where ns: "filter (\<lambda>q. parent_of q = d @ ''/sst'' \<and> extension q = ''.db'') (map fst (dir ?s)) = map (sst_path d) ns" "SSTableId ` set ns = ?live"
    using table_listing [OF ok tdc] by auto
  have below: "n < next_sst_seq dz" if "n \<in> set ns" for n
    using next_id_fresh(1) [OF fi, of "SSTableId n"] that ns(2) by auto
  then have small: "\<forall>n \<in> set ns. unat n < 2 ^ 63" using assms(4) by (metis less_le_trans word_less_nat_alt)
  have files: "number_files (filter (\<lambda>q. parent_of q = d @ ''/sst'' \<and> extension q = ''.db'') (map fst (dir ?s))) = ok (map (\<lambda>n. (sst_path d n, n)) ns)"
    unfolding ns(1) by (rule number_files_sst [OF small])
  obtain ms mx t where l: "load_tables (map (\<lambda>n. (sst_path d n, n)) ns) [] 0 ?s = (ok (ms, mx), t)" "same_files ?s t" "fs_wf t"
     "ordered ms" "named_metas ms" "fst ` set ms = ?live" "\<forall>n \<in> set ns. max_seq (the (tables (SSTableId n))) \<le> mx"
     "\<forall>u. 0 < u \<longrightarrow> (\<forall>n \<in> set ns. max_seq (the (tables (SSTableId n))) < u) \<longrightarrow> mx < u"
    using load_tables_ok [of d tables ns ?s "[]" 0] ok ns(2) by (auto simp: named_metas_def)
  have dirt: "dir t = dir s" "subdirs t = subdirs s" "answers t = []" using l(2) q(1) by (simp_all add: same_files_def)
  have "map_of (dir t) (wal_path d k) \<noteq> None" using wo assms(3) dirt(1) by (auto simp: wal_open_def)
  moreover have tdt: "tidy d ?live {wal_path d k} t" using td dirt(1) by (simp add: tidy_def)
  ultimately have "filter (\<lambda>q. parent_of q = d @ ''/wal'' \<and> extension q = ''.log'') (map fst (dir t)) = map (wal_path d) [k]"
    using log_listing [OF l(3)] by simp
  then have logs: "number_files (filter (\<lambda>q. parent_of q = d @ ''/wal'' \<and> extension q = ''.log'') (map fst (dir t))) = ok [(wal_path d k, k)]"
    using number_files_wal [of "[k]" d] assms(5) by simp
  have k: "k < k + 1" using assms(5) by (simp add: word_less_nat_alt unat_word_ariths)
  let ?p = "wal_path d (k + 1)" and ?ww = "\<lparr>ww_path = wal_path d (k + 1), ww_fh = FileHandle (next_fd t)\<rparr>"
  have new: "map_of (dir t) ?p = None"
  proof -
    have "?p \<noteq> wal_path d k" using k wal_path_inj [of d "k + 1" k] by auto
    then show ?thesis using tdt by (auto simp: tidy_def map_of_eq_None_iff parent_wal_path)
  qed
  have "WalWriter_create t ?p = (ok ?ww, fs_fresh t ?p Append)"
    using posix_open_new [OF dirt(3) new, of Append] dirs(1) dirt(2) by (simp add: WalWriter_create_def parent_wal_path is_directory_def)
  then obtain c where c: "NewLRUCache (mb_to_b mb) n = ok c" "dz_open d sz (Some p) mb n ?s =
      (case recover (reopened d sz ms t (k + 1) (foldl max 0 ns) c mx p) of (Inl e, (s, _)) \<Rightarrow> (Inl e, s) | (Inr _, (s, dz)) \<Rightarrow> (ok dz, s))"
    using dz_open_quiet [OF q(1) assms(6,7) dirs files l(1) dirt(3) _ logs, of "k + 1" ?ww "fs_fresh t ?p Append" mb sz "Some p"] dirt(2)
    by (auto simp: reopened_def comp_def)
  have ids: "map fst ms = live_ids dz"
    using l(4,6) versions_okD(4) [OF vo] by (intro strict_sorted_equal) (simp_all add: live_ids_def)
  have mx: "\<forall>tbl \<in> set (live_tables tables dz). max_seq tbl \<le> mx" using l(7) by (simp add: live_tables_def ns(2) [symmetric])
  have "max_seq (the (tables (SSTableId n))) < b" if "n \<in> set ns" for n
  proof -
    have "SSTableId n \<in> set (live_ids dz)" using that ns(2) by blast
    then have "the (tables (SSTableId n)) \<in> set (live_tables tables dz)" by (simp add: live_tables_def)
    with di have "small b (the (tables (SSTableId n)))" by (simp add: data_inv_def)
    then show ?thesis using assms(8) by (rule max_seq_bounds)
  qed
  then have "mx < b" using l(8) assms(8) by blast
  moreover have "\<forall>i \<in> ?live. id_value i \<le> foldl max 0 ns" unfolding ns(2) [symmetric] by (simp add: foldl_max_props(1))
  moreover have "unat (foldl max 0 ns) \<le> unat (next_sst_seq dz)"
    using foldl_max_props(2) [of 0 ns] below by (auto simp: word_less_nat_alt less_imp_le)
  ultimately show ?thesis using c l(2-5) ids mx by (intro exI conjI)
qed

section \<open>The recovered memtable\<close>

lemma replayed_entries: "entries (snd (replayed rs (Memtable_create n))) = log_entries rs"
  by (induction rs rule: rev_induct) (simp_all add: replayed_append replay_record_entries, simp add: replayed_def)

lemma replayed_sequence:
  shows "(k, v) \<in> set (entries (snd (replayed rs (Memtable_create n)))) \<Longrightarrow> sequence v \<le> fst (replayed rs (Memtable_create n))"
    and "\<forall>r \<in> set rs. wal_sequence r < b \<Longrightarrow> 0 < b \<Longrightarrow> fst (replayed rs (Memtable_create n)) < b"
proof (induction rs rule: rev_induct)
  case (snoc r rs)
  let ?a = "replayed rs (Memtable_create n)"
  have hi: "fst (replayed (rs @ [r]) (Memtable_create n)) = (if fst ?a < wal_sequence r then wal_sequence r else fst ?a)"
    by (simp add: replayed_def replay_record_def Let_def split: prod.splits)
  {
    case 1
    then have "(k, v) \<in> set (map_assign (wal_key r) (written_value (Some (wal_value r)) (op_type r = DELETE_ROW) (wal_sequence r)) (entries (snd ?a)))"
      by (simp add: replayed_append replay_record_entries)
    then consider "sequence v = wal_sequence r" | "(k, v) \<in> set (entries (snd ?a))"
      using set_map_assign(1) by (fastforce simp: written_value_def)
    then show ?case by cases (use snoc.IH(1) in \<open>auto simp: hi intro: less_imp_le order_trans\<close>)
  next
    case 2
    then show ?case using snoc.IH(2) by (simp add: hi)
  }
qed (simp_all add: replayed_def)

lemma log_bytes: "length (block_image (log_entries rs)) \<le> length (concat (map serialize_wal_record rs))"
proof (induction rs rule: rev_induct)
  case (snoc r rs)
  let ?v = "written_value (Some (wal_value r)) (op_type r = DELETE_ROW) (wal_sequence r)"
  have "length (entry_image (wal_key r, ?v)) \<le> get_record_size r" by (simp add: length_entry_image get_record_size_def written_value_def)
  with snoc block_image_assign [of "wal_key r" ?v "log_entries rs"] show ?case by (simp add: log_entries_snoc serialize_wal_image)
qed (simp add: replayed_def)

lemma log_size_pos:
  assumes "\<forall>r \<in> set rs. record_ok r" and "log_entries rs \<noteq> []"
  shows "0 < approximate_size (snd (replayed rs (Memtable_create n)))"
proof -
  let ?m = "snd (replayed rs (Memtable_create n))"
  have keys: "\<forall>k \<in> fst ` set (log_entries rs). 0 < key_size k" using assms(1)
    by (induction rs rule: rev_induct)
      (simp_all add: log_entries_snoc set_map_assign record_ok_def key_size_def, simp add: replayed_def)
  obtain e es where e: "log_entries rs = e # es" using assms(2) by (cases "log_entries rs") auto
  have "memtable_inv ?m" by (rule replayed_inv [OF memtable_inv_create])
  then have "mt_bytes ?m = sum_list (map entry_bytes (log_entries rs))" by (simp add: memtable_inv_def replayed_entries [of rs n])
  with keys e show ?thesis by (simp add: approximate_size_def entry_bytes_def)
qed

section \<open>Recovery\<close>

text \<open>The files once the new log has been created and the old one opened for the replay.\<close>

lemma reopened_files:
  assumes "files_ok d tables live t" and "\<forall>f g. fds t f = Some g \<longrightarrow> table_ino t (of_ino g)" and "tidy d live {wal_path d k} t"
    and "map_of (dir t) (wal_path d k) = Some i" and "k < k + 1" and "u = fs_fresh t (wal_path d (k + 1)) Append" and "v = fs_opened u i Read"
  shows "files_ok d tables live v" and "wal_open d \<lparr>ww_path = wal_path d (k + 1), ww_fh = FileHandle (next_fd t)\<rparr> (k + 1) [] v"
    and "tidy d live {wal_path d (k + 1), wal_path d k} v" and "dir v = dir t @ [(wal_path d (k + 1), next_ino t)]"
proof -
  let ?p = "wal_path d (k + 1)" and ?ww = "\<lparr>ww_path = wal_path d (k + 1), ww_fh = FileHandle (next_fd t)\<rparr>"
  have q: "fs_wf t" "answers t = []" using assms(1) by (simp_all add: files_ok_def)
  have other: "map_of (dir t) (wal_path d n) = None" if "k < n" for n
  proof -
    have "wal_path d n \<noteq> wal_path d k" using that wal_path_inj [of d n k] by auto
    then show ?thesis using assms(3) by (auto simp: tidy_def map_of_eq_None_iff parent_wal_path)
  qed
  note new = other [OF assms(5)]
  show dv: "dir v = dir t @ [(?p, next_ino t)]" by (simp add: assms(6,7) create_file_def)
  have i: "i < next_ino t" "inodes t i \<noteq> None" "\<not> table_ino t i" using fs_wf_path [OF q(1) assms(4)] wal_not_table [OF q(1) assms(4)] by auto
  have wfu: "fs_wf u" unfolding assms(6) by (rule fs_fresh_wf [OF q(1) new])
  have wfv: "fs_wf v" unfolding assms(7) by (rule fs_wf_opened [OF wfu]) (use i in \<open>simp_all add: assms(6)\<close>)
  show "files_ok d tables live v"
  proof (rule files_ok_mono [OF assms(1) wfv])
    fix sid j n assume j: "map_of (dir t) (sst_path d (id_value sid)) = Some j" "inodes t j = Some n"
    then have "j \<noteq> next_ino t" using fs_wf_path [OF q(1)] by blast
    then show "inodes v j = Some n" using j(2) by (simp add: assms(6,7))
  qed (use q in \<open>simp_all add: assms(6,7) map_add_def split: option.split\<close>)
  show "tidy d live {?p, wal_path d k} v" using assms(3) unfolding tidy_def dv by (auto simp: parent_wal_path)
  have fdu: "fd_file u (next_fd t) = Some (mode_file (next_ino t) Append, \<lparr>contents = [], durable = []\<rparr>)"
    unfolding assms(6) by (rule fs_fresh_file)
  have nf: "next_fd u = next_fd t + 1" by (simp add: assms(6))
  have fdv: "fd_file v (next_fd t) = Some (mode_file (next_ino t) Append, \<lparr>contents = [], durable = []\<rparr>)"
    using fd_file_SomeD [OF fdu] nf by (simp add: assms(7) fd_file_def)
  have "fs_wf t \<Longrightarrow> \<not> table_ino t (next_ino t)" by (auto simp: table_ino_def dest: fs_wf_path)
  with q(1) assms(2) i(1) have un: "unread v (next_ino t)"
    by (auto simp: assms(6,7) unread_def mode_file_def) metis
  show "wal_open d ?ww (k + 1) [] v"
  proof (rule wal_openI [of _ _ _ _ "mode_file (next_ino t) Append"])
    show "map_of (dir v) (ww_path ?ww) = Some (of_ino (mode_file (next_ino t) Append))" using new by (simp add: dv map_add_def mode_file_def)
    show "\<forall>n \<ge> k + 1. wal_path d n \<noteq> ww_path ?ww \<longrightarrow> map_of (dir v) (wal_path d n) = None"
      using other assms(5) by (auto simp: dv map_add_def dest: less_le_trans)
    show "fd (ww_fh ?ww) \<noteq> -1" using q(1) by (simp add: fs_wf_def)
  qed (use fdv un in \<open>simp_all add: wal_name_def mode_file_def\<close>)
qed

lemma new_cache_ok:
  assumes "NewLRUCache cap n = ok c"
  shows "cache_inv c" and "sc.all_hold P c"
proof -
  show "cache_inv c" using cache_reachable_inv [OF cache_new [OF assms]] .
  have "handles (shards c ! shard c h) e = None" for h e
    using cache_invD [OF \<open>cache_inv c\<close>, of h] assms by (auto simp: NewLRUCache_def Let_def LRUCache_create_def split: if_splits)
  then show "sc.all_hold P c" by (simp add: sc.all_hold_def cache_holds_def lru_holds_def)
qed

lemma new_versions_ok: "ordered ms \<Longrightarrow> named_metas ms \<Longrightarrow> versions_ok (VersionSet_create ms) \<and> current_files (VersionSet_create ms) = ms"
  using vs_reachable_inv [OF vs_start [of ms]]
  by (simp add: versions_ok_def named_metas_def current_files_def) (simp add: VersionSet_create_def)

lemma reopened_inv:
  assumes "data_inv b tables dz" and "log_inv b tables rs dz" and "live = set (live_ids dz)"
    and "files_ok d tables live v" and "NewLRUCache cap n = ok c" and "wal_open d ww (k + 1) [] v"
    and "tidy d live {wal_path d (k + 1), wal_path d k} v" and "ww_path ww = wal_path d (k + 1)"
    and "is_directory v (d @ ''/sst'')" and "is_directory v (d @ ''/wal'')"
    and "map fst ms = live_ids dz" and "ordered ms" and "named_metas ms"
    and "\<forall>tbl \<in> set (live_tables tables dz). max_seq tbl < B" and "fst (replayed rs (Memtable_create (unat sz))) < B"
    and "\<forall>i \<in> live. id_value i \<le> h" and "h < h + 1"
    and "dz1 = (Dazzle_create d ww sz mt ms (k + 1) (h + 1) c q pol)\<lparr>active_memtable := snd (replayed rs (Memtable_create (unat sz)))\<rparr>"
    and "tables' = tables |` live"
  shows "dz_inv B tables' [] {wal_path d (k + 1), wal_path d k} (v, dz1)" and "dz_map tables' dz1 = dz_map tables dz"
    and "dz_bytes tables' dz1 \<le> dz_bytes tables dz + length (concat (map serialize_wal_record rs))"
proof -
  let ?R = "log_entries rs" and ?L = "live_tables tables dz"
  have sel: "data_dir dz1 = d" "wal_writer dz1 = ww" "next_wal_seq dz1 = k + 1" "next_sst_seq dz1 = h + 1" "table_cache dz1 = c"
      "version_set dz1 = VersionSet_create ms" by (simp_all add: assms(18) Dazzle_create_def)
  have mem: "entries (active_memtable dz1) = ?R" "memtable_inv (active_memtable dz1)"
    using replayed_inv [OF memtable_inv_create, of rs "unat sz"] replayed_entries [of rs "unat sz"] by (simp_all add: assms(18))
  have ids: "live_ids dz1 = live_ids dz" using new_versions_ok [OF assms(12,13)] assms(11) by (simp add: live_ids_def sel)
  have lt: "live_tables tables' dz1 = ?L" by (auto simp: live_tables_def ids assms(3,19))
  have R: "map_of (entries (active_memtable dz)) \<subseteq>\<^sub>m map_of ?R" "\<forall>k v. map_of ?R k = Some v \<longrightarrow> dz_map tables dz k = reveal (Some v)"
      "older (concat ?L) ?R" "small b ?R" using assms(2) by (simp_all add: log_inv_def)
  have "names_free d (h + 1) v"
  proof -
    have "map_of (dir v) (sst_path d n) = None" if "h + 1 \<le> n" for n
    proof (rule ccontr)
      assume "map_of (dir v) (sst_path d n) \<noteq> None"
      then have "sst_path d n \<in> fst ` set (dir v)" by (simp add: map_of_eq_None_iff)
      from bspec [OF assms(7) [unfolded tidy_def] this] have "sst_path d n \<in> table_paths d live" by (simp add: parent_sst_path)
      then have "n \<le> h" using assms(16) by (auto simp: table_paths_def dest!: sst_path_inj)
      with assms(17) that show False by simp
    qed
    with assms(9,10) show ?thesis by (simp add: names_free_def)
  qed
  moreover have "files_ok d tables' live v" using assms(4) by (auto simp: files_ok_def assms(19))
  moreover have "\<forall>sid \<in> dom tables'. id_value sid < h + 1" using assms(16,17) by (auto simp: assms(19) dest: le_less_trans)
  ultimately have "files_inv tables' [] {wal_path d (k + 1), wal_path d k} (v, dz1)"
    using assms(6-8) new_cache_ok [OF assms(5)] new_versions_ok [OF assms(12,13)]
    by (simp add: files_inv_def sel ids tc_ok_def assms(3))
  moreover have "data_inv B tables' dz1"
  proof -
    have st: "stack_ok ?L" and sm: "\<forall>t \<in> set ?L. small b t" using assms(1) by (simp_all add: data_inv_def stack_ok_append)
    have "older t ?R" if "t \<in> set ?L" for t using older_subset [OF R(3), of t ?R] that by auto
    with st have "stack_ok (?L @ [?R])" using ordered_log by (simp add: stack_ok_append) (simp add: stack_ok_def)
    moreover have "small B t" if "t \<in> set ?L" for t
      using that sm assms(14) max_seq_bounds(1) [of _ t] by (auto simp: small_def dest!: bspec intro: le_less_trans)
    moreover have "sequence (snd e) < B" if "e \<in> set ?R" for e
    proof (rule le_less_trans [OF _ assms(15)])
      show "sequence (snd e) \<le> fst (replayed rs (Memtable_create (unat sz)))"
        by (rule replayed_sequence(1) [of "fst e"]) (use that in \<open>simp add: replayed_entries [of rs "unat sz"]\<close>)
    qed
    then have "small B ?R" using R(4) by (simp add: small_def)
    ultimately show ?thesis using mem(2) by (simp add: data_inv_def lt mem(1))
  qed
  ultimately show "dz_inv B tables' [] {wal_path d (k + 1), wal_path d k} (v, dz1)" by (simp add: dz_inv_def)
  show "dz_map tables' dz1 = dz_map tables dz"
  proof
    fix x
    have "map_of (entries (active_memtable dz)) x = None" if "map_of ?R x = None"
      using that R(1) by (metis domIff map_le_implies_dom_le subsetD)
    then show "dz_map tables' dz1 x = dz_map tables dz x"
      using R(2) by (cases "map_of ?R x") (auto simp: dz_map_def lt mem(1) map_add_def)
  qed
  show "dz_bytes tables' dz1 \<le> dz_bytes tables dz + length (concat (map serialize_wal_record rs))"
    using log_bytes [of rs] by (simp add: dz_bytes_def lt mem(1))
qed

lemma dz_inv_lsn: "dz_inv b tables lg L (s, dz\<lparr>lsn := x\<rparr>) = dz_inv b tables lg L (s, dz)"
  "dz_map tables (dz\<lparr>lsn := x\<rparr>) = dz_map tables dz" "dz_bytes tables (dz\<lparr>lsn := x\<rparr>) = dz_bytes tables dz"
  by (simp_all add: dz_inv_def files_inv_def data_inv_def dz_map_def dz_bytes_def live_tables_def live_ids_def)

lemma dz_inv_unlink_log:
  assumes "dz_inv b tables lg L (s, dz)" and "wal_path (data_dir dz) k \<noteq> ww_path (wal_writer dz)"
  shows "\<exists>r t. fs_remove (wal_path (data_dir dz) k) s = (ok r, t) \<and> dz_inv b tables lg (L - {wal_path (data_dir dz) k}) (t, dz)"
proof -
  let ?d = "data_dir dz" and ?p = "wal_path (data_dir dz) k"
  let ?t = "unlinked (\<lambda>q. q = ?p) s"
  have fi: "files_inv tables lg L (s, dz)" using assms(1) by (simp add: dz_inv_def)
  then have tc: "tc_ok ?d tables (set (live_ids dz)) (s, table_cache dz)" and wo: "wal_open ?d (wal_writer dz) (next_wal_seq dz) lg s"
    and td: "tidy ?d (set (live_ids dz)) L s" and nf: "names_free ?d (next_sst_seq dz) s" by (simp_all add: files_inv_def)
  obtain r where r: "fs_remove ?p s = (ok r, ?t)" using fs_remove_quiet [OF tc_okD(2) [OF tc]] by auto
  have "tc_ok ?d tables (set (live_ids dz)) (?t, table_cache dz)" by (rule tc_ok_unlinked [OF tc]) (metis wal_path_neq_sst_path)
  moreover have "wal_open ?d (wal_writer dz) (next_wal_seq dz) lg ?t" using assms(2) by (intro wal_open_unlinked [OF wo]) auto
  moreover have "tidy ?d (set (live_ids dz)) (L - {?p}) ?t" by (rule tidy_unlinked [OF td]) auto
  moreover have "names_free ?d (next_sst_seq dz) ?t" by (rule names_free_unlinked [OF nf])
  ultimately have "files_inv tables lg (L - {?p}) (?t, dz)" using fi assms(2) by (auto simp: files_inv_def)
  then have "dz_inv b tables lg (L - {?p}) (?t, dz)" using assms(1) by (simp add: dz_inv_def)
  with r show ?thesis by blast
qed

lemma finish_recovery_ok:
  assumes "dz_inv B tables [] {wal_path d (k + 1), wal_path d k} (v, dz)" and "d = data_dir dz" and "next_wal_seq dz = k + 1"
    and "ww_path (wal_writer dz) = wal_path d (k + 1)" and "B = max (lsn dz) hi + 1" and "k < k + 1" and "k + 1 < k + 1 + 1"
    and "approximate_size (active_memtable dz) = 0 \<Longrightarrow> entries (active_memtable dz) = []"
    and "next_sst_seq dz < next_sst_seq dz + 1" and "next_sst_seq dz + 1 < next_sst_seq dz + 1 + 1"
    and "dz_bytes tables dz < 2 ^ 28" and "picks_newest dz"
  shows "\<exists>tables' t dz'. finish_recovery [wal_path d k] hi (v, dz) = (ok hi, (t, dz')) \<and> lsn dz' = B
     \<and> dz_inv B tables' [] {ww_path (wal_writer dz')} (t, dz') \<and> entries (active_memtable dz') = []
     \<and> dz_map tables' dz' = dz_map tables dz \<and> dz_bytes tables' dz' \<le> dz_bytes tables dz
     \<and> unat (next_sst_seq dz') \<le> unat (next_sst_seq dz) + 2 \<and> unat (next_wal_seq dz') \<le> unat k + 2
     \<and> policy dz' = policy dz \<and> data_dir dz' = d"
proof -
  have ne: "wal_path d k \<noteq> wal_path d (k + 1)" using assms(6) wal_path_inj [of d k "k + 1"] by auto
  have u: "unat (k + 1) \<le> unat k + 1" "unat (k + 1 + 1) \<le> unat k + 2" by (simp_all add: unat_word_ariths)
  show ?thesis
  proof (cases "approximate_size (active_memtable dz) = 0")
    case True
    obtain r t where r: "fs_remove (wal_path d k) v = (ok r, t)" "dz_inv B tables [] ({wal_path d (k + 1), wal_path d k} - {wal_path d k}) (t, dz)"
      using dz_inv_unlink_log [OF assms(1), of k] ne assms(2,4) by auto
    have L: "{wal_path d (k + 1), wal_path d k} - {wal_path d k} = {ww_path (wal_writer dz)}" using ne assms(4) by auto
    let ?dz = "dz\<lparr>lsn := B\<rparr>"
    have "finish_recovery [wal_path d k] hi (v, dz) = (ok hi, (t, ?dz))" using True r(1) by (simp add: finish_recovery_def on_fs_def assms(5))
    then show ?thesis using r(2) True assms(2,3,8) u unfolding L
      by (intro exI [of _ tables] exI [of _ t] exI [of _ ?dz]) (simp add: dz_inv_lsn)
  next
    case False
    then have ent: "entries (active_memtable dz) \<noteq> []"
      using assms(1) by (auto simp: dz_inv_def data_inv_def memtable_inv_def approximate_size_def)
    obtain tables' t n ww vs c where f: "flush (v, dz) = (ok (), (t, flushed dz n ww vs c))"
       "dz_inv B tables' (log_after dz []) {ww_path ww} (t, flushed dz n ww vs c)" "dz_map tables' (flushed dz n ww vs c) = dz_map tables dz"
       "dz_bytes tables' (flushed dz n ww vs c) \<le> dz_bytes tables dz" "unat n \<le> unat (next_sst_seq dz) + 2"
      using flush_ok [OF assms(1) assms(9,10) _ ent assms(11,12)] assms(3,7) by auto
    let ?dz = "flushed dz n ww vs c"
    have sel: "data_dir ?dz = d" "wal_writer ?dz = ww" "next_wal_seq ?dz = k + 1 + 1" "next_sst_seq ?dz = n" "policy ?dz = policy dz"
        "lsn ?dz = lsn dz" "entries (active_memtable ?dz) = []" by (simp_all add: flushed_def assms(2,3))
    have lg: "log_after dz [] = []" by (simp add: log_after_def)
    have "wal_name d ww (k + 1 + 1)" using f(2) by (auto simp: dz_inv_def files_inv_def sel wal_open_def)
    moreover have "k < k + 1 + 1" using less_trans [OF assms(6,7)] .
    then have "wal_path d k \<noteq> wal_path d (k + 1 + 1)" using wal_path_inj [of d k "k + 1 + 1"] by (metis less_irrefl)
    ultimately have ww: "wal_path d k \<noteq> ww_path ww" using ne unfolding wal_name_def by (metis add_diff_cancel_right')
    then obtain r t' where r: "fs_remove (wal_path d k) t = (ok r, t')" "dz_inv B tables' [] ({ww_path ww} - {wal_path d k}) (t', ?dz)"
      using dz_inv_unlink_log [OF f(2), of k] unfolding sel lg by auto
    have L: "{ww_path ww} - {wal_path d k} = {ww_path ww}" using ww by auto
    have "finish_recovery [wal_path d k] hi (v, dz) = (ok hi, (t', ?dz\<lparr>lsn := B\<rparr>))"
      using False f(1) r(1) by (simp add: finish_recovery_def on_fs_def assms(5) sel)
    then show ?thesis using r(2) f(3-5) u(2) sel unfolding L
      by (intro exI [of _ tables'] exI [of _ t'] exI [of _ "?dz\<lparr>lsn := B\<rparr>"]) (simp add: dz_inv_lsn)
  qed
qed

lemma recover_replays:
  assumes "files_ok d tables live t" and "tidy d live {wal_path d k} t" and "is_directory t (d @ ''/wal'')"
    and "map_of (dir t) (wal_path d k) = Some i" and "inodes t i = Some \<lparr>contents = concat (map serialize_wal_record rs), durable = x\<rparr>"
    and "\<forall>r \<in> set rs. get_record_size r < 2 ^ 32" and "unat k + 1 < 2 ^ 63"
    and "u = fs_fresh t (wal_path d (k + 1)) Append" and "data_dir dz = d" and "next_wal_seq dz = k + 1"
  shows "recover (u, dz) = finish_recovery [wal_path d k] (fst (replayed rs (active_memtable dz)))
     (fs_opened u i Read, dz\<lparr>active_memtable := snd (replayed rs (active_memtable dz))\<rparr>)"
proof -
  let ?v = "fs_opened u i Read" and ?p = "wal_path d k" and ?q = "wal_path d (k + 1)"
  have q: "fs_wf t" "answers t = []" using assms(1) by (simp_all add: files_ok_def)
  have k: "k < k + 1" using assms(7) by (simp add: word_less_nat_alt unat_word_ariths)
  have qu: "answers u = []" "is_directory u (d @ ''/wal'')" using q(2) assms(3) by (simp_all add: assms(8) is_directory_def)
  have dir: "dir u = dir t @ [(?q, next_ino t)]" by (simp add: assms(8) create_file_def)
  have i: "i \<noteq> next_ino t" using fs_wf_path [OF q(1) assms(4)] by auto
  have "filter (\<lambda>q. parent_of q = d @ ''/wal'' \<and> extension q = ''.log'') (map fst (dir u)) = map (wal_path d) [k, k + 1]"
    using log_listing [OF q(1) assms(2)] assms(4) by (simp add: dir parent_wal_path wal_path_parts)
  moreover have "unat (k + 1) < 2 ^ 63" using assms(7) by (simp add: unat_word_ariths)
  ultimately have list: "numbered_files (d @ ''/wal'') ''.log'' u = (ok [(?p, k), (?q, k + 1)], u)"
    using number_files_wal [of "[k, k + 1]" d] assms(7) by (simp add: numbered_files_quiet [OF qu])
  let ?rd = "\<lparr>wr_path = ?p, wr_fh = FileHandle (next_fd u), wr_offset = 0\<rparr>"
  have inu: "inodes u i = Some \<lparr>contents = concat (map serialize_wal_record rs), durable = x\<rparr>" using assms(5) i by (simp add: assms(8))
  have fd: "0 \<le> next_fd u" using q(1) by (simp add: assms(8) fs_wf_def)
  note h = fs_opened_handle [OF inu fd, of Read]
  have "map_of (dir u) ?p = Some i" using assms(4) by (simp add: dir map_add_def)
  then have "WalReader_create u ?p = (ok ?rd, ?v)"
    using posix_open_existing [OF qu(1), of ?p i Read] by (simp add: WalReader_create_def)
  moreover have "replay_segment (?v, ?rd) (0, active_memtable dz) = (ok (replayed rs (active_memtable dz)), ?v)"
    using replay_segment_ok [of ?v ?rd "[]" rs "(0, active_memtable dz)"] h qu(1) assms(6) by (simp add: replayed_def)
  ultimately have "replay_segments [?p] (0, active_memtable dz) u = (ok (replayed rs (active_memtable dz)), ?v)" by simp
  then show ?thesis
    using qu(2) k by (simp add: recover_def on_fs_def fs_is_directory_quiet [OF qu(1)] get_wal_directory_def assms(9,10) list peek_wal_id_def
        split: prod.splits)
qed

lemma restart_ok:
  assumes "dz_inv (lsn dz) tables lg {ww_path (wal_writer dz)} (s, dz)" and "logged (lsn dz) tables lg dz" and "d = data_dir dz"
    and "unat (lsn dz) + 3 < 2 ^ 63" and "unat (next_sst_seq dz) + 3 < 2 ^ 63" and "unat (next_wal_seq dz) + 3 < 2 ^ 63" and "0 < lsn dz"
    and "trim_string d \<noteq> ''''" and "0 < n" and "dz_bytes tables dz + length lg < 2 ^ 28"
    and "\<And>dz'. policy dz' = p \<Longrightarrow> live_ids dz' = live_ids dz \<Longrightarrow> picks_newest dz'"
  shows "\<exists>tables' t dz'. dz_open d sz (Some p) mb n (crash s) = (ok dz', t) \<and> dz_inv (lsn dz') tables' [] {ww_path (wal_writer dz')} (t, dz')
     \<and> logged (lsn dz') tables' [] dz' \<and> dz_map tables' dz' = dz_map tables dz \<and> dz_bytes tables' dz' \<le> dz_bytes tables dz + length lg
     \<and> 0 < lsn dz' \<and> unat (lsn dz') \<le> unat (lsn dz) + 1 \<and> unat (next_sst_seq dz') \<le> unat (next_sst_seq dz) + 3
     \<and> unat (next_wal_seq dz') \<le> unat (next_wal_seq dz) + 2 \<and> policy dz' = p \<and> data_dir dz' = d"
proof -
  let ?b = "lsn dz" and ?live = "set (live_ids dz)"
  have di: "data_inv ?b tables dz" and wo: "wal_open d (wal_writer dz) (next_wal_seq dz) lg s" and tc: "tc_ok d tables ?live (s, table_cache dz)"
    and td: "tidy d ?live {ww_path (wal_writer dz)} s" and nf: "names_free d (next_sst_seq dz) s"
    using assms(1,3) by (simp_all add: dz_inv_def files_inv_def)
  obtain k where k: "ww_path (wal_writer dz) = wal_path d k" "unat k \<le> unat (next_wal_seq dz)"
    using wo measure_unat [of "next_wal_seq dz"] by (auto simp: wal_open_def wal_name_def)
  obtain rs where rs: "lg = concat (map serialize_wal_record rs)" "log_inv ?b tables rs dz" using assms(2) unfolding logged_def by blast
  have kb: "unat k + 1 < 2 ^ 63" "k < k + 1" "k + 1 < k + 1 + 1" using k(2) assms(6) by (simp_all add: word_less_nat_alt unat_word_ariths)
  obtain ms mx t h c where l: "NewLRUCache (mb_to_b mb) n = ok c" "dz_open d sz (Some p) mb n (crash s) =
       (case recover (reopened d sz ms t (k + 1) h c mx p) of (Inl e, (s, _)) \<Rightarrow> (Inl e, s) | (Inr _, (s, dz)) \<Rightarrow> (ok dz, s))"
     "same_files (crash s) t" "fs_wf t" "map fst ms = live_ids dz" "ordered ms" "named_metas ms"
     "\<forall>tbl \<in> set (live_tables tables dz). max_seq tbl \<le> mx" "mx < ?b" "\<forall>i \<in> ?live. id_value i \<le> h" "unat h \<le> unat (next_sst_seq dz)"
    using restart_load [OF assms(1) [unfolded k(1)] assms(3) k(1) _ kb(1) assms(8,9,7), of mb sz p] assms(5) by auto
  have tf: "files_ok d tables ?live t" by (rule files_ok_same [OF files_ok_crash [OF tc_okD(5) [OF tc]] l(3,4)])
  have dirt: "dir t = dir s" "subdirs t = subdirs s" "inodes t = inodes (crash s)" using l(3) by (simp_all add: same_files_def)
  have tdt: "tidy d ?live {wal_path d k} t" using td k(1) by (simp add: tidy_def dirt)
  have fdt: "\<forall>f g. fds t f = Some g \<longrightarrow> table_ino t (of_ino g)" using l(3) table_ino_same [OF l(3)] by (simp add: same_files_def)
  obtain g where g: "fd_file s (fd (ww_fh (wal_writer dz))) = Some (g, \<lparr>contents = lg, durable = lg\<rparr>)" "map_of (dir s) (wal_path d k) = Some (of_ino g)"
    using wo k(1) by (auto simp: wal_open_def)
  then have "inodes t (of_ino g) = Some \<lparr>contents = lg, durable = lg\<rparr>" unfolding dirt(3) by (intro inodes_crash) (auto dest: fd_file_SomeD)
  with g(2) obtain i where i: "map_of (dir t) (wal_path d k) = Some i" "inodes t i = Some \<lparr>contents = lg, durable = lg\<rparr>" unfolding dirt(1) by blast
  define u where "u = fs_fresh t (wal_path d (k + 1)) Append"
  define v where "v = fs_opened u i Read"
  note rf = reopened_files [OF tf fdt tdt i(1) kb(2) u_def v_def]
  define ww where "ww = \<lparr>ww_path = wal_path d (k + 1), ww_fh = FileHandle (next_fd t)\<rparr>"
  define dz0 where "dz0 = Dazzle_create d ww sz (Memtable_create (unat sz)) ms (k + 1) (h + 1) c (mx + 1) (Some p)"
  define hi where "hi = fst (replayed rs (Memtable_create (unat sz)))"
  define B where "B = max (mx + 1) hi + 1"
  define dz1 where "dz1 = dz0\<lparr>active_memtable := snd (replayed rs (Memtable_create (unat sz)))\<rparr>"
  have re: "reopened d sz ms t (k + 1) h c mx p = (u, dz0)" by (simp add: reopened_def u_def dz0_def ww_def)
  have sel0: "data_dir dz0 = d" "next_wal_seq dz0 = k + 1" "active_memtable dz0 = Memtable_create (unat sz)" by (simp_all add: dz0_def Dazzle_create_def)
  have rok: "\<forall>r \<in> set rs. record_ok r \<and> wal_sequence r < ?b" using rs(2) by (simp add: log_inv_def)
  have "is_directory t (d @ ''/wal'')" using nf by (simp add: names_free_def is_directory_def dirt)
  then have rec: "recover (u, dz0) = finish_recovery [wal_path d k] hi (v, dz1)"
    using recover_replays [OF tf tdt _ i(1) i(2) [unfolded rs(1)] _ kb(1) u_def sel0(1,2)] rok
    by (simp add: record_ok_def sel0(3) hi_def dz1_def v_def)
  have hib: "hi < ?b" using replayed_sequence(2) [of rs ?b "unat sz"] rok assms(7) by (simp add: hi_def)
  have mx1: "mx < mx + 1" "unat (mx + 1) \<le> unat ?b" using l(9) assms(4) by (simp_all add: word_less_nat_alt unat_word_ariths)
  have B: "max (mx + 1) hi < B" "unat B \<le> unat ?b + 1" "0 < B"
    using hib mx1(2) assms(4) by (auto simp: B_def max_def word_less_nat_alt unat_word_ariths)
  have hB: "hi < B" "mx < B" using B(1) mx1(1) by (auto dest: less_trans)
  have hh: "h < h + 1" "unat (h + 1) \<le> unat (next_sst_seq dz) + 1" "h + 1 < h + 1 + 1" "h + 1 + 1 < h + 1 + 1 + 1"
    using l(11) assms(5) by (simp_all add: word_less_nat_alt unat_word_ariths)
  have dirs: "is_directory v (d @ ''/sst'')" "is_directory v (d @ ''/wal'')"
    using nf by (simp_all add: names_free_def is_directory_def v_def u_def dirt)
  have mb: "\<forall>tbl \<in> set (live_tables tables dz). max_seq tbl < B" using l(8) hB(2) by (auto dest: le_less_trans)
  define tb where "tb = tables |` ?live"
  note inv = reopened_inv [OF di rs(2) refl rf(1) l(1) rf(2,3) _ dirs l(5-7) mb hB(1) [unfolded hi_def] l(10) hh(1) dz1_def [unfolded dz0_def ww_def] tb_def, unfolded rs(1) [symmetric]]
  have sel1: "data_dir dz1 = d" "next_wal_seq dz1 = k + 1" "wal_writer dz1 = ww" "next_sst_seq dz1 = h + 1" "lsn dz1 = mx + 1" "policy dz1 = p"
      "entries (active_memtable dz1) = log_entries rs"
    using replayed_entries [of rs "unat sz"] by (simp_all add: dz1_def dz0_def Dazzle_create_def)
  have lids: "live_ids dz1 = live_ids dz" using new_versions_ok [OF l(6,7)] l(5) by (simp add: live_ids_def dz1_def dz0_def Dazzle_create_def)
  have sz: "entries (active_memtable dz1) = []" if "approximate_size (active_memtable dz1) = 0"
    using that log_size_pos [of rs "unat sz"] rok unfolding sel1(7) by (auto simp: dz1_def)
  have by1: "dz_bytes tb dz1 < 2 ^ 28" using inv(3) assms(10) by simp
  obtain tables' t' dz' where f: "finish_recovery [wal_path d k] hi (v, dz1) = (ok hi, (t', dz'))" "lsn dz' = B"
     "dz_inv B tables' [] {ww_path (wal_writer dz')} (t', dz')" "entries (active_memtable dz') = []"
     "dz_map tables' dz' = dz_map tb dz1" "dz_bytes tables' dz' \<le> dz_bytes tb dz1"
     "unat (next_sst_seq dz') \<le> unat (next_sst_seq dz1) + 2" "unat (next_wal_seq dz') \<le> unat k + 2" "policy dz' = policy dz1" "data_dir dz' = d"
    using finish_recovery_ok [OF inv(1) sel1(1) [symmetric] sel1(2), of hi] B_def kb(2,3) sz hh(3,4) by1 assms(11) [OF sel1(6) lids]
    unfolding sel1 by (auto simp: ww_def)
  have "dz_open d sz (Some p) mb n (crash s) = (ok dz', t')" unfolding l(2) re rec f(1) by (simp add: ok_def)
  moreover have "logged B tables' [] dz'" by (rule logged_empty [OF f(4)])
  ultimately show ?thesis using f B(2,3) inv(2,3) hh(2) k(2) sel1
    by (intro exI [of _ tables'] exI [of _ t'] exI [of _ dz']) simp
qed

end
