(* ===== verification/Engine_Client.thy ===== *)
theory Engine_Client
  imports Engine_Restart
begin

text \<open>
  What a client of the engine sees. The specification is a map from keys to values; an engine
  represents a map when its invariant holds for some history of tables and its memtable and live
  tables, searched in the engine's order, give that map. When the flag \<open>w\<close> is set the log also
  restores the map after a crash.
\<close>

definition represents :: "bool \<Rightarrow> nat \<Rightarrow> (Key \<rightharpoonup> Value) \<Rightarrow> dz_state \<Rightarrow> bool" where
  "represents w b M st \<longleftrightarrow> (\<exists>tables lg L. dz_inv (lsn (snd st)) tables lg L st \<and> dz_map tables (snd st) = M \<and> dz_bytes tables (snd st) \<le> b
     \<and> (w \<longrightarrow> L = {ww_path (wal_writer (snd st))} \<and> logged (lsn (snd st)) tables lg (snd st)
              \<and> dz_bytes tables (snd st) + length lg \<le> b \<and> 0 < lsn (snd st) \<and> trim_string (data_dir (snd st)) \<noteq> ''''))"

text \<open>Room for \<open>k\<close> more operations before a counter leaves the numbers a file name can carry.\<close>

definition ids_left :: "nat \<Rightarrow> Dazzle \<Rightarrow> bool" where
  "ids_left k dz \<longleftrightarrow> unat (lsn dz) + 3 * k < 2 ^ 63 \<and> unat (next_sst_seq dz) + 3 * k < 2 ^ 63 \<and> unat (next_wal_seq dz) + 3 * k < 2 ^ 63"

lemma no_wrap: "unat (x :: u64) + 1 < 2 ^ 64 \<Longrightarrow> x < x + 1 \<and> unat (x + 1) = unat x + 1"
  by (simp add: word_less_nat_alt unat_word_ariths)

lemma ids_leftD:
  assumes "ids_left (Suc k) dz"
  shows "lsn dz < lsn dz + 1" and "next_sst_seq dz < next_sst_seq dz + 1" and "next_sst_seq dz + 1 < next_sst_seq dz + 1 + 1"
    and "next_wal_seq dz < next_wal_seq dz + 1" and "unat (lsn dz + 1) = unat (lsn dz) + 1"
  using assms no_wrap [of "lsn dz"] no_wrap [of "next_sst_seq dz"] no_wrap [of "next_sst_seq dz + 1"] no_wrap [of "next_wal_seq dz"]
  by (simp_all add: ids_left_def)

section \<open>Operations and their specification\<close>

datatype dz_op = DzPut Key bytes int | DzRemove Key int | DzGet Key | DzFlush | DzRestart u64 u64 nat

fun dz_do :: "dz_op \<Rightarrow> dz_state \<Rightarrow> Value option result \<times> dz_state" where
  "dz_do (DzPut k v now) st = attempt (dz_put k v now st) (\<lambda>_ st. (ok None, st))"
| "dz_do (DzRemove k now) st = attempt (dz_remove k now st) (\<lambda>_ st. (ok None, st))"
| "dz_do (DzGet k) st = dz_get k st"
| "dz_do DzFlush st = attempt (flush st) (\<lambda>_ st. (ok None, st))"
| "dz_do (DzRestart sz mb n) st =
     (case dz_open (data_dir (snd st)) sz (Some (policy (snd st))) mb n (crash (fst st)) of
        (Inl e, s) \<Rightarrow> (Inl e, (s, snd st))
      | (Inr dz, s) \<Rightarrow> (ok None, (s, dz)))"

fun dz_run :: "dz_op list \<Rightarrow> dz_state \<Rightarrow> Value option result list \<times> dz_state" where
  "dz_run [] st = ([], st)"
| "dz_run (c # ops) st = (case dz_do c st of (r, st) \<Rightarrow> case dz_run ops st of (rs, st) \<Rightarrow> (r # rs, st))"

fun spec_do :: "dz_op \<Rightarrow> (Key \<rightharpoonup> Value) \<Rightarrow> Value option result \<times> (Key \<rightharpoonup> Value)" where
  "spec_do (DzPut k v now) M = (if v = [] then (err BAD_CONFIG ''value is empty'', M) else (ok None, M(k \<mapsto> \<lparr>value_data = v\<rparr>)))"
| "spec_do (DzRemove k now) M = (ok None, M(k := None))"
| "spec_do (DzGet k) M = (ok (M k), M)"
| "spec_do DzFlush M = (ok None, M)"
| "spec_do (DzRestart sz mb n) M = (ok None, M)"

fun spec_run :: "dz_op list \<Rightarrow> (Key \<rightharpoonup> Value) \<Rightarrow> Value option result list \<times> (Key \<rightharpoonup> Value)" where
  "spec_run [] M = ([], M)"
| "spec_run (c # ops) M = (case spec_do c M of (r, M) \<Rightarrow> case spec_run ops M of (rs, M) \<Rightarrow> (r # rs, M))"

text \<open>
  The bytes a write takes: its entry in a table, 17 more than key and value, and its record in the
  log, 33 more than key and value. Entries have to fit a block, and the empty key must not be
  written when the log has to be complete.
\<close>

fun op_bytes :: "dz_op \<Rightarrow> nat" where
  "op_bytes (DzPut k v now) = (if v = [] then 0 else 2 * (key_size k + length v) + 50)"
| "op_bytes (DzRemove k now) = 2 * key_size k + 50"
| "op_bytes c = 0"

definition total_bytes :: "dz_op list \<Rightarrow> nat" where
  "total_bytes ops = sum_list (map op_bytes ops)"

fun op_ok :: "bool \<Rightarrow> dz_op \<Rightarrow> bool" where
  "op_ok w (DzPut k v now) \<longleftrightarrow> key_size k + length v + 17 \<le> MAX_PAGING_SIZE_BYTES \<and> (w \<longrightarrow> key_bytes k \<noteq> [])"
| "op_ok w (DzRemove k now) \<longleftrightarrow> key_size k + 17 \<le> MAX_PAGING_SIZE_BYTES \<and> (w \<longrightarrow> key_bytes k \<noteq> [])"
| "op_ok w (DzRestart sz mb n) \<longleftrightarrow> w \<and> 0 < n"
| "op_ok w c \<longleftrightarrow> True"

section \<open>One operation\<close>

lemma representsE:
  assumes "represents w b M (s, dz)"
  obtains tables lg L where "dz_inv (lsn dz) tables lg L (s, dz)" and "dz_map tables dz = M" and "dz_bytes tables dz \<le> b"
    and "w \<longrightarrow> L = {ww_path (wal_writer dz)} \<and> logged (lsn dz) tables lg dz \<and> dz_bytes tables dz + length lg \<le> b \<and> 0 < lsn dz \<and> trim_string (data_dir dz) \<noteq> ''''"
  using assms unfolding represents_def by auto

lemma representsI:
  assumes "dz_inv (lsn dz) tables lg L (s, dz)" and "dz_map tables dz = M" and "dz_bytes tables dz \<le> b"
    and "w \<longrightarrow> L = {ww_path (wal_writer dz)} \<and> logged (lsn dz) tables lg dz \<and> dz_bytes tables dz + length lg \<le> b \<and> 0 < lsn dz \<and> trim_string (data_dir dz) \<noteq> ''''"
  shows "represents w b M (s, dz)"
  unfolding represents_def using assms by (intro exI [of _ tables] exI [of _ lg] exI [of _ L]) simp

lemma written_bytes: "length (entry_image (k, written_value v r seq)) = key_size k + (if r then 0 else length (the v)) + 17"
  by (simp add: length_entry_image written_value_def)

lemma represents_put_internal:
  assumes "represents w b M (s, dz)" and "ids_left (Suc k) dz" and "picks_newest dz" and "if remove then value = None else value \<noteq> None"
    and "n = key_size key + (if remove then 0 else length (the value)) + 17" and "n \<le> MAX_PAGING_SIZE_BYTES" and "b + (2 * n + 16) < 2 ^ 28"
    and "w \<longrightarrow> key_bytes key \<noteq> []"
  shows "\<exists>st. put_internal key value remove now (s, dz) = (ok (), st)
     \<and> represents w (b + (2 * n + 16)) (M(key := if remove then None else Some \<lparr>value_data = the value\<rparr>)) st
     \<and> ids_left k (snd st) \<and> policy (snd st) = policy dz"
proof -
  obtain tables lg L where t: "dz_inv (lsn dz) tables lg L (s, dz)" "dz_map tables dz = M" "dz_bytes tables dz \<le> b"
    and w: "w \<longrightarrow> L = {ww_path (wal_writer dz)} \<and> logged (lsn dz) tables lg dz \<and> dz_bytes tables dz + length lg \<le> b \<and> 0 < lsn dz \<and> trim_string (data_dir dz) \<noteq> ''''"
    by (rule representsE [OF assms(1)])
  let ?v = "written_value value remove (lsn dz)"
  have sz: "length (entry_image (key, ?v)) = n" by (simp add: written_bytes assms(5))
  have e: "length (entry_image (key, ?v)) \<le> MAX_PAGING_SIZE_BYTES" "dz_bytes tables dz + length (entry_image (key, ?v)) < 2 ^ 28"
    using t(3) assms(6,7) by (simp_all add: sz)
  have val: "remove \<or> value \<noteq> None" "remove \<longrightarrow> value = None" using assms(4) by (auto split: if_splits)
  note left = ids_leftD [OF assms(2)]
  obtain tables' t' dz' lg' L' where p: "put_internal key value remove now (s, dz) = (ok (), (t', dz'))" "dz_inv (lsn dz') tables' lg' L' (t', dz')"
     "L = {ww_path (wal_writer dz)} \<longrightarrow> L' = {ww_path (wal_writer dz')}"
     "dz_map tables' dz' = (dz_map tables dz)(key := reveal (Some ?v))"
     "dz_bytes tables' dz' \<le> dz_bytes tables dz + length (entry_image (key, ?v))" "length lg' \<le> length lg + length (entry_image (key, ?v)) + 16"
     "logged (lsn dz) tables lg dz \<longrightarrow> key_bytes key \<noteq> [] \<longrightarrow> logged (lsn dz') tables' lg' dz'"
     "lsn dz' = lsn dz + 1" "unat (next_sst_seq dz') \<le> unat (next_sst_seq dz) + 2"
     "unat (next_wal_seq dz') \<le> unat (next_wal_seq dz) + 1" "policy dz' = policy dz" "data_dir dz' = data_dir dz"
    using put_internal_ok [OF t(1) left(1-4) assms(3) val(1) refl e val(2), of now] by (elim exE conjE)
  have "dz_map tables' dz' = M(key := if remove then None else Some \<lparr>value_data = the value\<rparr>)"
    unfolding p(4) t(2) by (simp add: written_value_def)
  moreover have "0 < lsn dz'" using left(1) unfolding p(8) by (metis le_less_trans word_zero_le)
  moreover have "dz_bytes tables' dz' + length lg' \<le> b + (2 * n + 16)" if w using p(5,6) w that unfolding sz by simp
  ultimately have "represents w (b + (2 * n + 16)) (M(key := if remove then None else Some \<lparr>value_data = the value\<rparr>)) (t', dz')"
    using p(2,3,5,7,12) t(3) w assms(8) unfolding sz by (intro representsI) auto
  moreover have "ids_left k dz'" using assms(2) p(9,10) left(5) unfolding ids_left_def p(8) by simp
  ultimately show ?thesis using p(1,11) by (intro exI [of _ "(t', dz')"]) simp
qed

lemma logged_cache [simp]: "logged b tables lg (dz\<lparr>table_cache := c\<rparr>) = logged b tables lg dz"
  by (simp add: logged_def log_inv_def) (simp add: live_tables_def live_ids_def)

lemma represents_get:
  assumes "represents w b M (s, dz)"
  shows "\<exists>t c. dz_get key (s, dz) = (ok (M key), (t, dz\<lparr>table_cache := c\<rparr>)) \<and> represents w b M (t, dz\<lparr>table_cache := c\<rparr>)"
proof -
  obtain tables lg L where t: "dz_inv (lsn dz) tables lg L (s, dz)" "dz_map tables dz = M" "dz_bytes tables dz \<le> b"
    and w: "w \<longrightarrow> L = {ww_path (wal_writer dz)} \<and> logged (lsn dz) tables lg dz \<and> dz_bytes tables dz + length lg \<le> b \<and> 0 < lsn dz \<and> trim_string (data_dir dz) \<noteq> ''''"
    by (rule representsE [OF assms])
  from dz_get_ok [OF t(1), of key] obtain u c where g: "dz_get key (s, dz) = (ok (dz_map tables dz key), (u, dz\<lparr>table_cache := c\<rparr>))"
      "dz_inv (lsn dz) tables lg L (u, dz\<lparr>table_cache := c\<rparr>)" by (elim exE conjE)
  then have "represents w b M (u, dz\<lparr>table_cache := c\<rparr>)"
    using t(2,3) w by (intro representsI [of "dz\<lparr>table_cache := c\<rparr>" tables lg L]) simp_all
  with g(1) t(2) show ?thesis by (intro exI [of _ u] exI [of _ c]) simp
qed

lemma represents_flush:
  assumes "represents w b M (s, dz)" and "ids_left (Suc k) dz" and "picks_newest dz" and "b < 2 ^ 28"
  shows "\<exists>st. flush (s, dz) = (ok (), st) \<and> represents w b M st \<and> ids_left k (snd st) \<and> policy (snd st) = policy dz
     \<and> entries (active_memtable (snd st)) = []"
proof (cases "entries (active_memtable dz) = []")
  case True
  then have "flush (s, dz) = (ok (), (s, dz))" by (simp add: flush_def memtable_count_def)
  with assms(1,2) True show ?thesis by (simp add: ids_left_def)
next
  case False
  obtain tables lg L where t: "dz_inv (lsn dz) tables lg L (s, dz)" "dz_map tables dz = M" "dz_bytes tables dz \<le> b"
    and w: "w \<longrightarrow> L = {ww_path (wal_writer dz)} \<and> logged (lsn dz) tables lg dz \<and> dz_bytes tables dz + length lg \<le> b \<and> 0 < lsn dz \<and> trim_string (data_dir dz) \<noteq> ''''"
    by (rule representsE [OF assms(1)])
  have b: "dz_bytes tables dz < 2 ^ 28" using t(3) assms(4) by simp
  obtain tables' t' n ww vs c where f: "flush (s, dz) = (ok (), (t', flushed dz n ww vs c))"
     "dz_inv (lsn dz) tables' (log_after dz lg) {ww_path ww} (t', flushed dz n ww vs c)" "dz_map tables' (flushed dz n ww vs c) = dz_map tables dz"
     "dz_bytes tables' (flushed dz n ww vs c) \<le> dz_bytes tables dz"
     "set (concat (live_tables tables' (flushed dz n ww vs c))) \<subseteq> set (concat (live_tables tables dz @ [entries (active_memtable dz)]))"
     "unat n \<le> unat (next_sst_seq dz) + 2"
    using flush_ok [OF t(1) ids_leftD(2-4) [OF assms(2)] False b assms(3)] by (elim exE conjE)
  let ?dz = "flushed dz n ww vs c"
  have sel: "lsn ?dz = lsn dz" "wal_writer ?dz = ww" "data_dir ?dz = data_dir dz" "entries (active_memtable ?dz) = []"
      "next_wal_seq ?dz = next_wal_seq dz + 1" "next_sst_seq ?dz = n" "policy ?dz = policy dz" by (simp_all add: flushed_def)
  have mi: "memtable_inv (active_memtable dz)" using t(1) by (simp add: dz_inv_def data_inv_def)
  have "log_after dz lg = lg \<or> log_after dz lg = []" by (simp add: log_after_def)
  then have "logged (lsn dz) tables' (log_after dz lg) ?dz" if w
    using w that by (intro logged_flush [OF _ mi f(3) sel(4) _ f(5)]) simp_all
  moreover have "dz_bytes tables' ?dz + length (log_after dz lg) \<le> b" if w using w that f(4) by (simp add: log_after_def)
  ultimately have "represents w b M (t', ?dz)"
    using f(2-4) t(2,3) w by (intro representsI [of ?dz tables' "log_after dz lg" "{ww_path ww}"]) (simp_all add: sel)
  moreover have "ids_left k ?dz" using assms(2) f(6) no_wrap [of "next_wal_seq dz"] by (simp add: ids_left_def sel)
  ultimately show ?thesis using f(1) by (intro exI [of _ "(t', ?dz)"]) (simp add: sel)
qed

lemma represents_restart:
  assumes "represents True b M (s, dz)" and "ids_left (Suc k) dz" and "b < 2 ^ 28" and "0 < n"
    and "\<And>dz'. policy dz' = policy dz \<Longrightarrow> live_ids dz' = live_ids dz \<Longrightarrow> picks_newest dz'"
  shows "\<exists>t dz'. dz_open (data_dir dz) sz (Some (policy dz)) mb n (crash s) = (ok dz', t) \<and> represents True b M (t, dz')
     \<and> ids_left k dz' \<and> policy dz' = policy dz"
proof -
  obtain tables lg L where t: "dz_inv (lsn dz) tables lg L (s, dz)" "dz_map tables dz = M" "dz_bytes tables dz \<le> b"
    and w: "L = {ww_path (wal_writer dz)}" "logged (lsn dz) tables lg dz" "dz_bytes tables dz + length lg \<le> b" "0 < lsn dz" "trim_string (data_dir dz) \<noteq> ''''"
    by (rule representsE [OF assms(1)]) simp
  have "dz_bytes tables dz + length lg < 2 ^ 28" using w(3) assms(3) by simp
  from restart_ok [where p = "policy dz" and sz = sz and mb = mb, OF t(1) [unfolded w(1)] w(2) refl _ _ _ w(4,5) assms(4) this] assms(2,5)
  obtain tables' t' dz' where r: "dz_open (data_dir dz) sz (Some (policy dz)) mb n (crash s) = (ok dz', t')"
     "dz_inv (lsn dz') tables' [] {ww_path (wal_writer dz')} (t', dz')" "logged (lsn dz') tables' [] dz'" "dz_map tables' dz' = dz_map tables dz"
     "dz_bytes tables' dz' \<le> dz_bytes tables dz + length lg" "0 < lsn dz'" "unat (lsn dz') \<le> unat (lsn dz) + 1"
     "unat (next_sst_seq dz') \<le> unat (next_sst_seq dz) + 3" "unat (next_wal_seq dz') \<le> unat (next_wal_seq dz) + 2" "policy dz' = policy dz" "data_dir dz' = data_dir dz"
    by (auto simp: ids_left_def)
  have "represents True b M (t', dz')" using r(2-6,11) t(2) w(3,5) by (intro representsI [OF r(2)]) auto
  moreover have "ids_left k dz'" using assms(2) r(7-9) by (simp add: ids_left_def)
  ultimately show ?thesis using r(1,10) by (intro exI conjI)
qed

text \<open>A policy that never compacts anything but the newest tables of \<open>n\<close> live ones.\<close>

definition safe_policy :: "CompactionPolicy \<Rightarrow> nat \<Rightarrow> bool" where
  "safe_policy p n \<longleftrightarrow> (case p of FullCompactionPolicy \<Rightarrow> True
     | SizeTiered q \<Rightarrow> n + 1 < min_merge_width q \<and> min_merge_width q \<le> max_merge_width q)"

lemma safe_policy_picks: "safe_policy (policy dz) (length (live_ids dz)) \<Longrightarrow> picks_newest dz"
  using full_picks_newest [of dz] few_picks_none(2) [of dz] by (auto simp: safe_policy_def split: CompactionPolicy.splits)

lemma dz_do_refines:
  assumes "represents w b M (s, dz)" and "ids_left (Suc k) dz" and "safe_policy (policy dz) (length (live_ids dz))"
    and "op_ok w c" and "b + op_bytes c < 2 ^ 28"
  shows "\<exists>st. dz_do c (s, dz) = (fst (spec_do c M), st) \<and> represents w (b + op_bytes c) (snd (spec_do c M)) st
     \<and> ids_left k (snd st) \<and> policy (snd st) = policy dz"
proof -
  have left: "ids_left k dz" using assms(2) by (simp add: ids_left_def)
  note pick = safe_policy_picks [OF assms(3)]
  show ?thesis
  proof (cases c)
    case (DzPut key v now)
    show ?thesis
    proof (cases "v = []")
      case False
      let ?n = "key_size key + length v + 17"
      have n: "op_bytes c = 2 * ?n + 16" using DzPut False by simp
      have "b + (2 * ?n + 16) < 2 ^ 28" using assms(5) unfolding n .
      with represents_put_internal [OF assms(1,2) pick, of False "Some v" ?n key now] assms(4) DzPut obtain st where
        "put_internal key (Some v) False now (s, dz) = (ok (), st)" "represents w (b + op_bytes c) (M(key \<mapsto> \<lparr>value_data = v\<rparr>)) st"
        "ids_left k (snd st)" "policy (snd st) = policy dz" unfolding n by auto
      with False DzPut show ?thesis by (intro exI [of _ st]) (simp add: dz_put_def)
    qed (use DzPut assms(1) left in \<open>simp add: dz_put_def\<close>)
  next
    case (DzRemove key now)
    let ?n = "key_size key + 17"
    have n: "op_bytes c = 2 * ?n + 16" using DzRemove by simp
    have "b + (2 * ?n + 16) < 2 ^ 28" using assms(5) unfolding n .
    with represents_put_internal [OF assms(1,2) pick, of True None ?n key now] assms(4) DzRemove obtain st where
      "put_internal key None True now (s, dz) = (ok (), st)" "represents w (b + op_bytes c) (M(key := None)) st"
      "ids_left k (snd st)" "policy (snd st) = policy dz" unfolding n by auto
    with DzRemove show ?thesis by (intro exI [of _ st]) (simp add: dz_remove_def)
  next
    case (DzGet key)
    from represents_get [OF assms(1), of key] obtain t e where
      "dz_get key (s, dz) = (ok (M key), (t, dz\<lparr>table_cache := e\<rparr>))" "represents w b M (t, dz\<lparr>table_cache := e\<rparr>)" by (elim exE conjE)
    with DzGet left show ?thesis by (intro exI [of _ "(t, dz\<lparr>table_cache := e\<rparr>)"]) (simp add: ids_left_def)
  next
    case DzFlush
    with assms(5) have "b < 2 ^ 28" by simp
    from represents_flush [OF assms(1,2) pick this] obtain st where "flush (s, dz) = (ok (), st)" "represents w b M st"
      "ids_left k (snd st)" "policy (snd st) = policy dz" by (elim exE conjE)
    with DzFlush show ?thesis by (intro exI [of _ st]) simp
  next
    case (DzRestart sz mb n)
    then have r: "represents True b M (s, dz)" "0 < n" "b < 2 ^ 28" "w" using assms(1,4,5) by auto
    have "picks_newest dz'" if "policy dz' = policy dz" "live_ids dz' = live_ids dz" for dz'
      using safe_policy_picks [of dz'] assms(3) that by simp
    from represents_restart [OF r(1) assms(2) r(3,2), where sz = sz and mb = mb] this obtain t dz' where
      "dz_open (data_dir dz) sz (Some (policy dz)) mb n (crash s) = (ok dz', t)" "represents True b M (t, dz')"
      "ids_left k dz'" "policy dz' = policy dz" by auto
    with DzRestart r(4) show ?thesis by (intro exI [of _ "(t, dz')"]) (simp add: ok_def)
  qed
qed

section \<open>A fresh engine\<close>

text \<open>
  The builds in which an engine on the directory \<open>d\<close> meets no assertion of \<open>remove\<close>: release builds,
  and debug builds when \<open>d\<close> is a relative path. The names the kernel gives to the open descriptors are
  absolute paths, or names such as \<open>pipe:[17]\<close> without a slash.
\<close>

definition build_ok :: "string \<Rightarrow> ((int \<rightharpoonup> open_file) \<Rightarrow> string \<Rightarrow> string list) option \<Rightarrow> bool" where
  "build_ok d build \<longleftrightarrow> (case build of None \<Rightarrow> True
     | Some links \<Rightarrow> hd d \<noteq> CHR ''/'' \<and> (\<forall>F p. \<forall>l \<in> set (links F p). hd l = CHR ''/'' \<or> CHR ''/'' \<notin> set l))"

lemma build_ok_calm:
  assumes "build_ok d (assertions s)" and "d \<noteq> []"
  shows "calm d s"
  unfolding calm_def
proof (intro allI impI notI)
  fix links F n
  assume links: "assertions s = Some links" and "debug_has_open_fd_for_path (links F (sst_path d n)) (sst_path d n)"
  then obtain l where l: "l \<in> set (links F (sst_path d n))" "l = sst_path d n \<or> l = sst_path d n @ '' (deleted)''"
    by (auto simp: debug_has_open_fd_for_path_def list_ex_iff)
  then have "hd l = hd d" "CHR ''/'' \<in> set l" using assms(2) by (auto simp: sst_path_def)
  moreover from assms(1) links have "hd d \<noteq> CHR ''/''" "\<forall>F p. \<forall>l \<in> set (links F p). hd l = CHR ''/'' \<or> CHR ''/'' \<notin> set l"
    by (simp_all add: build_ok_def)
  ultimately show False using l(1) by metis
qed

lemma dz_open_fresh:
  assumes "s = (fs_empty dirs)\<lparr>assertions := build\<rparr>" and "d \<in> set dirs" and "trim_string d \<noteq> ''''" and "0 < n" and "build_ok d build"
  shows "\<exists>t dz. dz_open d sz (Some p) mb n s = (ok dz, t) \<and> represents True 0 Map.empty (t, dz) \<and> policy dz = p \<and> live_ids dz = []
     \<and> lsn dz = 1 \<and> next_sst_seq dz = 1 \<and> next_wal_seq dz = 1 \<and> data_dir dz = d \<and> active_memtable dz = Memtable_create (unat sz)"
proof -
  have q: "answers s = []" "dir s = []" "fs_wf s" "next_fd s = 0" "is_directory s d" "fds s = Map.empty"
    using assms(1,2) by (simp_all add: fs_empty_def) (simp_all add: fs_wf_def is_directory_def)
  have "d \<noteq> []" using assms(3) by (auto simp: trim_string_def)
  then have cm: "calm d s" using assms(1,5) by (intro build_ok_calm) simp_all
  obtain sub where sub: "dz_open d sz (Some p) mb n s = dz_open d sz (Some p) mb n (s\<lparr>subdirs := sub\<rparr>)"
      "is_directory (s\<lparr>subdirs := sub\<rparr>) (d @ ''/wal'')" "is_directory (s\<lparr>subdirs := sub\<rparr>) (d @ ''/sst'')"
    using dz_open_directories [OF q(1,5) _ _ assms(3), of sz "Some p" mb n] q(2) by auto
  let ?s = "s\<lparr>subdirs := sub\<rparr>" and ?p = "wal_path d 1"
  let ?t = "fs_fresh ?s ?p Append" and ?ww = "\<lparr>ww_path = wal_path d 1, ww_fh = FileHandle 0\<rparr>"
  have w: "WalWriter_create ?s ?p = (ok ?ww, ?t)"
    using posix_open_new [of ?s ?p Append] q sub(2) by (simp add: WalWriter_create_def parent_wal_path)
  obtain c where c: "NewLRUCache (mb_to_b mb) n = ok c" "dz_open d sz (Some p) mb n ?s =
       (case recover (?t, Dazzle_create d ?ww sz (Memtable_create (unat sz)) [] 1 1 c 1 (Some p)) of
          (Inl e, (s, _)) \<Rightarrow> (Inl e, s) | (Inr _, (s, dz)) \<Rightarrow> (ok dz, s))"
    using dz_open_quiet [of ?s d n "[]" "[]" 0 ?s "[]" 1 ?ww ?t mb sz "Some p"] assms(3,4) q sub(2,3) w by auto
  let ?dz = "Dazzle_create d ?ww sz (Memtable_create (unat sz)) [] 1 1 c 1 (Some p)"
  have dir: "dir ?t = [(?p, next_ino s)]" using q(2) by (simp add: create_file_def)
  have wal: "is_directory ?t (d @ ''/wal'')" using sub(2) by (simp add: is_directory_def)
  have q1: "answers ?t = []" using q(1) by simp
  have "number_files (filter (\<lambda>x. parent_of x = d @ ''/wal'' \<and> extension x = ''.log'') (map fst (dir ?t))) = ok [(?p, 1)]"
    using number_files_wal [of "[1]" d] unfolding dir by (simp add: parent_wal_path wal_path_parts(2))
  from recover_nothing [OF q1 wal this] have rec: "recover (?t, ?dz) = (ok 0, (?t, ?dz))" by (simp add: Dazzle_create_def)
  have sel: "data_dir ?dz = d" "wal_writer ?dz = ?ww" "next_wal_seq ?dz = 1" "next_sst_seq ?dz = 1" "table_cache ?dz = c" "policy ?dz = p"
      "lsn ?dz = 1" "entries (active_memtable ?dz) = []" "memtable_inv (active_memtable ?dz)" "version_set ?dz = VersionSet_create []"
    by (simp_all add: Dazzle_create_def)
  have vs: "versions_ok (VersionSet_create [])" "current_files (VersionSet_create []) = []"
    using new_versions_ok [of "[]"] by (simp_all add: named_metas_def)
  have ids: "live_ids ?dz = []" by (simp add: live_ids_def sel vs)
  have wf: "fs_wf ?s" using q(3) by (simp add: fs_wf_def)
  have wft: "fs_wf ?t" by (rule fs_fresh_wf [OF wf]) (simp add: q(2))
  have fd: "fd_file ?t 0 = Some (mode_file (next_ino s) Append, \<lparr>contents = [], durable = []\<rparr>)"
    using fs_fresh_file [of ?s ?p Append] q(4) by simp
  have "unread ?t (next_ino s)" using fs_fresh_unread [OF wf, of Append ?p] by simp
  then have "wal_open d ?ww 1 [] ?t"
    using fd by (intro wal_openI [of _ _ _ _ "mode_file (next_ino s) Append"]) (simp_all add: wal_name_def mode_file_def q(2))
  moreover have "names_free d 1 ?t" using sub(2,3) by (simp add: names_free_def is_directory_def q(2))
  moreover have "tidy d {} {?p} ?t" by (simp add: tidy_def q(2) parent_wal_path)
  moreover have "tc_ok d Map.empty {} (?t, c)" using new_cache_ok [OF c(1)] wft q1 cm by (simp add: tc_ok_def files_ok_def calm_def)
  ultimately have "files_inv Map.empty [] {?p} (?t, ?dz)" using vs by (simp add: files_inv_def ids sel)
  moreover have "data_inv 1 Map.empty ?dz"
    by (simp add: data_inv_def live_tables_def ids sel stack_ok_def small_def)
  ultimately have "represents True 0 Map.empty (?t, ?dz)"
    using logged_empty [OF sel(8)] assms(3)
    by (intro representsI [of _ Map.empty "[]" "{?p}"]) (simp_all add: dz_inv_def dz_map_def dz_bytes_def live_tables_def ids sel fun_eq_iff stack_map_def)
  moreover have "dz_open d sz (Some p) mb n s = (ok ?dz, ?t)" unfolding sub(1) c(2) rec by (simp add: ok_def)
  moreover have "active_memtable ?dz = Memtable_create (unat sz)" by (simp add: Dazzle_create_def)
  ultimately show ?thesis using sel(1,3,4,6,7) ids by (intro exI conjI)
qed

section \<open>Properties\<close>

lemma dz_run_refines:
  assumes "represents w b M st" and "policy (snd st) = FullCompactionPolicy" and "ids_left (length ops + k) (snd st)"
    and "\<forall>c \<in> set ops. op_ok w c" and "b + total_bytes ops < 2 ^ 28"
  shows "\<exists>st'. dz_run ops st = (fst (spec_run ops M), st') \<and> represents w (b + total_bytes ops) (snd (spec_run ops M)) st'
     \<and> policy (snd st') = FullCompactionPolicy \<and> ids_left k (snd st')"
  using assms
proof (induction ops arbitrary: b M st)
  case Nil
  then show ?case by (simp add: total_bytes_def)
next
  case (Cons c ops)
  obtain s dz where st: "st = (s, dz)" by (cases st)
  have b: "b + total_bytes (c # ops) = (b + op_bytes c) + total_bytes ops" by (simp add: total_bytes_def)
  have "b + op_bytes c < 2 ^ 28" using Cons.prems(5) unfolding b by linarith
  moreover have "safe_policy (policy dz) (length (live_ids dz))" using Cons.prems(2) by (simp add: st safe_policy_def)
  ultimately obtain st1 where s1: "dz_do c st = (fst (spec_do c M), st1)" "represents w (b + op_bytes c) (snd (spec_do c M)) st1"
      "ids_left (length ops + k) (snd st1)" "policy (snd st1) = policy dz"
    using dz_do_refines [of w b M s dz "length ops + k" c] Cons.prems(1,3,4) unfolding st by auto
  from Cons.IH [OF s1(2)] s1(3,4) Cons.prems(2,4,5) obtain st2 where
    "dz_run ops st1 = (fst (spec_run ops (snd (spec_do c M))), st2)"
    "represents w (b + total_bytes (c # ops)) (snd (spec_run ops (snd (spec_do c M)))) st2" "policy (snd st2) = FullCompactionPolicy"
    "ids_left k (snd st2)"
    unfolding b st by auto
  with s1(1) show ?case by (intro exI [of _ st2]) (simp add: case_prod_unfold)
qed

text \<open>
  C1. Without faults, an engine opened on an empty directory with the full compaction policy
  answers every sequence of puts, removes, gets, flushes and crashes followed by reopening
  exactly as a finite map does: a get returns the last value put under the key, and nothing that
  was acknowledged is lost in a crash. Keys are not empty, entries fit a block, and the log
  records and table entries of all writes take less than 256 MiB together; restarts add nothing
  to that and their number is limited by the 63-bit counters only. The build is a release build,
  or a debug build with a relative data directory (with an absolute one the descriptor check of
  remove can abort).
\<close>

theorem engine_refines_map:
  assumes "d \<in> set dirs" and "trim_string d \<noteq> ''''" and "0 < n" and "build_ok d build" and "3 * length ops + 1 < 2 ^ 63"
    and "\<forall>c \<in> set ops. op_ok True c" and "total_bytes ops < 2 ^ 28"
  shows "\<exists>dz s st. dz_open d sz (Some FullCompactionPolicy) mb n ((fs_empty dirs)\<lparr>assertions := build\<rparr>) = (ok dz, s)
     \<and> dz_run ops (s, dz) = (fst (spec_run ops Map.empty), st)"
proof -
  obtain s dz where op: "dz_open d sz (Some FullCompactionPolicy) mb n ((fs_empty dirs)\<lparr>assertions := build\<rparr>) = (ok dz, s)"
      "represents True 0 Map.empty (s, dz)" "policy dz = FullCompactionPolicy" "lsn dz = 1" "next_sst_seq dz = 1" "next_wal_seq dz = 1"
    using dz_open_fresh [OF refl assms(1-4), of sz FullCompactionPolicy mb] by auto
  have "ids_left (length ops + 0) dz" using assms(5) by (simp add: ids_left_def op(4-6))
  with dz_run_refines [where k = 0, OF op(2) _ _ assms(6)] assms(7) op(3) obtain st where "dz_run ops (s, dz) = (fst (spec_run ops Map.empty), st)" by auto
  with op(1) show ?thesis by blast
qed

theorem engine_refines_map_witness:
  "\<exists>dz s st. dz_open ''d'' 20 (Some FullCompactionPolicy) 1 1 ((fs_empty [''d''])\<lparr>assertions := Some (\<lambda>F p. [''/dev/null'', ''pipe:[7]''])\<rparr>) = (ok dz, s)
     \<and> dz_run [DzPut (Key [1]) [7] 5, DzPut (Key [2]) [8] 6, DzFlush, DzRemove (Key [2]) 7, DzRestart 20 1 1, DzGet (Key [1]), DzGet (Key [2])] (s, dz)
       = ([ok None, ok None, ok None, ok None, ok None, ok (Some \<lparr>value_data = [7]\<rparr>), ok None], st)"
  using engine_refines_map [of "''d''" "[''d'']" 1 "Some (\<lambda>F p. [''/dev/null'', ''pipe:[7]''])"
      "[DzPut (Key [1]) [7] 5, DzPut (Key [2]) [8] 6, DzFlush, DzRemove (Key [2]) 7, DzRestart 20 1 1, DzGet (Key [1]), DzGet (Key [2])]" 20 1]
  by (simp add: trim_string_def is_space_def key_size_def MAX_PAGING_SIZE_BYTES_def build_ok_def total_bytes_def)

end
