(* ===== verification/Engine_Properties.thy ===== *)
theory Engine_Properties
  imports Engine_Client
begin

text \<open>
  Properties of the engine beside the refinement of a map: the order of log and memtable under
  faults, the end of a replay at a damaged record, and what compactions keep and break.
\<close>

section \<open>The log comes first\<close>

text \<open>The record a write logs, and the engine before the memtable is touched and after.\<close>

definition put_record :: "Key \<Rightarrow> bytes option \<Rightarrow> bool \<Rightarrow> int \<Rightarrow> Dazzle \<Rightarrow> WalRecord" where
  "put_record key value remove now dz = \<lparr>op_type = (if remove then DELETE_ROW else PUT_ROW), timestamp = fst (hlc_next now (hlc dz)),
     wal_sequence = lsn dz, wal_key = key, wal_value = (case value of Some v \<Rightarrow> v | None \<Rightarrow> [])\<rparr>"

definition put_numbered :: "int \<Rightarrow> Dazzle \<Rightarrow> Dazzle" where
  "put_numbered now dz = dz\<lparr>lsn := lsn dz + 1, hlc := snd (hlc_next now (hlc dz))\<rparr>"

definition put_applied :: "Key \<Rightarrow> bytes option \<Rightarrow> bool \<Rightarrow> int \<Rightarrow> Dazzle \<Rightarrow> Dazzle" where
  "put_applied key value remove now dz = (put_numbered now dz)\<lparr>active_memtable :=
     (if remove then memtable_remove (active_memtable dz) key (lsn dz) else memtable_put (active_memtable dz) key (the value) (lsn dz))\<rparr>"

lemma put_internal_cases:
  assumes "put_internal key value remove now (s, dz) = (r, (t, dz'))" and "remove \<or> value \<noteq> None"
  obtains e where "r = Inl e" and "dz' = put_numbered now dz"
  | u w where "wal_append s (wal_writer dz) (put_record key value remove now dz) = (ok (), u)" and "wal_sync u (wal_writer dz) = (ok (), w)"
      and "(if should_flush (active_memtable (put_applied key value remove now dz)) then flush (w, put_applied key value remove now dz)
          else (ok (), (w, put_applied key value remove now dz))) = (r, (t, dz'))"
proof -
  obtain ra u where a: "wal_append s (wal_writer dz) (put_record key value remove now dz) = (ra, u)" by (cases "wal_append s (wal_writer dz) (put_record key value remove now dz)")
  obtain rs w where b: "wal_sync u (wal_writer dz) = (rs, w)" by (cases "wal_sync u (wal_writer dz)")
  show thesis
  proof (cases ra)
    case (Inl e)
    then show thesis using that(1) [of e] assms(1) a
      by (simp add: put_internal_def on_fs_def bump_lsn_sequence_def put_record_def put_numbered_def split: prod.splits)
  next
    case ra: (Inr x)
    show thesis
    proof (cases rs)
      case (Inl e)
      then show thesis using that(1) [of e] assms(1) a b ra
        by (simp add: put_internal_def on_fs_def bump_lsn_sequence_def put_record_def put_numbered_def split: prod.splits)
    next
      case (Inr y)
      with a b ra assms show thesis
        by (intro that(2) [of u w]) (auto simp: put_internal_def on_fs_def bump_lsn_sequence_def put_record_def put_applied_def put_numbered_def ok_def split: prod.splits)
    qed
  qed
qed

lemma put_quiet:
  assumes "answers s = []" and "appendable s (ww_fh (wal_writer dz))" and "remove \<or> value \<noteq> None"
    and "\<not> should_flush (active_memtable (put_applied key value remove now dz))"
    and "bs = serialize_wal_record (put_record key value remove now dz)"
  shows "put_internal key value remove now (s, dz)
    = (ok (), (fs_sync (fs_append s (ww_fh (wal_writer dz)) bs) (ww_fh (wal_writer dz)), put_applied key value remove now dz))"
proof -
  have "view (fs_append s (ww_fh (wal_writer dz)) bs) (ww_fh (wal_writer dz)) \<noteq> None"
    using assms(2) view_fs_append [OF assms(2), of bs] by (auto simp: appendable_def view_def split: option.splits)
  then show ?thesis using assms
    by (auto simp: put_internal_def on_fs_def bump_lsn_sequence_def put_record_def put_applied_def put_numbered_def
        wal_append_def wal_sync_def posix_append_ok posix_sync_data_ok ok_def split: prod.splits if_splits)
qed

text \<open>
  C2. Under every schedule of faults, a write either fails with memtable, tables and versions
  untouched, or its record is durable at the end of the log before the memtable changes; without
  a flush the write then succeeds and the memtable holds it.
\<close>

theorem put_write_ahead:
  assumes "appendable s (ww_fh (wal_writer dz))" and "view s (ww_fh (wal_writer dz)) = Some c" and "remove \<or> value \<noteq> None"
    and "put_internal key value remove now (s, dz) = (r, (t, dz'))"
  shows "(\<exists>e. r = Inl e \<and> dz' = put_numbered now dz)
     \<or> (\<exists>w. durable_view w (ww_fh (wal_writer dz)) = Some (c @ serialize_wal_record (put_record key value remove now dz))
          \<and> (if should_flush (active_memtable (put_applied key value remove now dz))
             then flush (w, put_applied key value remove now dz) = (r, (t, dz'))
             else r = ok () \<and> t = w \<and> dz' = put_applied key value remove now dz))"
  using put_internal_cases [OF assms(4,3)]
proof cases
  case (2 u w)
  have "durable_view w (ww_fh (wal_writer dz)) = Some (c @ serialize_wal_record (put_record key value remove now dz))"
    by (rule wal_appended_durable [OF assms(1,2) 2(1,2)])
  with 2(3) show ?thesis by (intro disjI2 exI [of _ w]) (auto split: if_splits)
qed auto

definition demo_engine :: Dazzle where
  "demo_engine = Dazzle_create ''d'' \<lparr>ww_path = ''d/f'', ww_fh = FileHandle 0\<rparr> 100 (Memtable_create 100) [] 1 1
     \<lparr>shards = [], last_id = 0\<rparr> 1 None"

theorem put_write_ahead_witness:
  "\<exists>t. put_internal (Key [1]) (Some [2]) False 5 (demo_fs Append [], demo_engine) = (ok (), (t, put_applied (Key [1]) (Some [2]) False 5 demo_engine))
     \<and> durable_view t (FileHandle 0) = Some (serialize_wal_record (put_record (Key [1]) (Some [2]) False 5 demo_engine))"
proof -
  let ?w = "\<lparr>ww_path = ''d/f'', ww_fh = FileHandle 0\<rparr>" and ?p = "put_applied (Key [1]) (Some [2]) False 5 demo_engine"
  have ww: "wal_writer demo_engine = ?w" by (simp add: demo_engine_def Dazzle_create_def)
  have s: "appendable (demo_fs Append []) (FileHandle 0)" "view (demo_fs Append []) (FileHandle 0) = Some []" "answers (demo_fs Append []) = []"
    by (simp_all add: demo_fs_handle)
  have nf: "\<not> should_flush (active_memtable ?p)"
    by (simp add: put_applied_def put_numbered_def demo_engine_def Dazzle_create_def Memtable_create_def memtable_put_def should_flush_def map_find_def key_size_def)
  obtain t dz' where p: "put_internal (Key [1]) (Some [2]) False 5 (demo_fs Append [], demo_engine) = (ok (), (t, dz'))"
    using put_quiet [of "demo_fs Append []" demo_engine False "Some [2]" "Key [1]" 5, OF _ _ _ _ refl] s nf by (auto simp: ww)
  show ?thesis
    using put_write_ahead [of "demo_fs Append []" demo_engine "[]" False "Some [2]" "Key [1]" 5 "ok ()" t dz'] s p nf
    by (auto simp: ww ok_def)
qed

section \<open>Replay\<close>

text \<open>
  C4. Without faults, replaying a log in which at most four adjacent bytes of the body of a
  record were changed applies exactly the records before it, stops there without an error, and
  leaves the files alone (records of less than 4 GiB).
\<close>

theorem replay_stops_at_damage:
  assumes "answers s = []" and "readable s (wr_fh rd)" and "wr_offset rd = 0"
    and "view s (wr_fh rd) = Some (concat (map serialize_wal_record rs) @ (pre @ ys @ post) @ rest)"
    and "serialize_wal_record r = pre @ xs @ post" and "8 \<le> length pre" and "length ys = length xs" and "length xs \<le> 4" and "ys \<noteq> xs"
    and "\<forall>q \<in> set (r # rs). get_record_size q < 2 ^ 32"
  shows "replay_segment (s, rd) acc = (ok (foldl (\<lambda>acc r. replay_record r acc) acc rs), s)"
proof -
  have "replay_segment (s, rd\<lparr>wr_offset := length (concat (map serialize_wal_record rs))\<rparr>) acc = (ok acc, s)" for acc
  proof -
    let ?rd = "rd\<lparr>wr_offset := length (concat (map serialize_wal_record rs))\<rparr>"
    have "length (wal_image r) = length (pre @ xs @ post)" "take 8 (wal_image r) = take 8 (pre @ xs @ post)"
      by (simp_all only: assms(5) [symmetric] serialize_wal_image)
    then have "wal_next (s, ?rd) = (deserialize_wal_record (pre @ ys @ post) (get_record_size r),
        (s, ?rd\<lparr>wr_offset := length (concat (map serialize_wal_record rs)) + get_record_size r\<rparr>))"
      using assms(1,2,4,6,7,10) by (intro wal_next_reads) simp_all
    then show ?thesis using deserialize_damaged [OF assms(5-9)] assms(10)
      by (subst replay_segment.simps) (simp add: err_def)
  qed
  then show ?thesis using replay_segment_prefix [of s rd "[]" rs] assms(1-4,10) by simp
qed

lemma demo_record_split: "serialize_wal_record demo_record = take 8 (serialize_wal_record demo_record) @ [PUT_ROW] @ drop 9 (serialize_wal_record demo_record)"
  by (simp add: serialize_wal_image wal_image_def wal_body_def) (simp add: demo_record_def)

theorem replay_stops_at_damage_witness:
  "let S = serialize_wal_record demo_record; s = demo_fs Read (S @ (take 8 S @ [DELETE_ROW] @ drop 9 S) @ S)
   in replay_segment (s, \<lparr>wr_path = ''d/f'', wr_fh = FileHandle 0, wr_offset = 0\<rparr>) (0, Memtable_create 9)
      = (ok (replay_record demo_record (0, Memtable_create 9)), s)"
proof -
  let ?S = "serialize_wal_record demo_record"
  let ?c = "?S @ (take 8 ?S @ [DELETE_ROW] @ drop 9 ?S) @ ?S" and ?rd = "\<lparr>wr_path = ''d/f'', wr_fh = FileHandle 0, wr_offset = 0\<rparr>"
  have "8 \<le> length (take 8 ?S)" by (simp add: serialize_wal_image demo_record_size)
  then have "replay_segment (demo_fs Read ?c, ?rd) (0, Memtable_create 9)
      = (ok (foldl (\<lambda>acc r. replay_record r acc) (0, Memtable_create 9) [demo_record]), demo_fs Read ?c)"
    by (intro replay_stops_at_damage [OF _ _ _ _ demo_record_split, where ys = "[DELETE_ROW]" and rest = ?S])
      (simp_all add: demo_fs_handle demo_record_size PUT_ROW_def DELETE_ROW_def)
  then show ?thesis by (simp add: Let_def)
qed

section \<open>A failed append\<close>

text \<open>
  After a short write the log holds the first byte of a record. The next record that is logged
  starts behind it, so that the reader takes the byte and the first three bytes of that record for a
  length; it is too small for a record.
\<close>

lemma be_shift: "be 4 (drop_bit 8 (x :: u32)) = 0 # butlast (be 4 x)"
proof -
  have "ucast (drop_bit 32 x) = (0 :: u8)" by (rule bit_word_eqI) (simp add: bit_simps)
  then show ?thesis by (simp add: be_def upt_rec drop_bit_drop_bit)
qed

lemma hd_be_small: "x < 2 ^ 24 \<Longrightarrow> hd (be 4 (x :: u32)) = 0"
proof -
  assume "x < 2 ^ 24"
  then have "drop_bit 24 x = 0" by (simp add: drop_bit_eq_div word_less_nat_alt unat_div_distrib unat_eq_0 [symmetric])
  then show ?thesis by (simp add: be_def upt_rec)
qed

lemma replay_after_torn_byte:
  assumes "answers s = []" and "readable s (wr_fh rd)" and "wr_offset rd = length lg"
    and "view s (wr_fh rd) = Some (lg @ 0 # serialize_wal_record r @ rest)" and "get_record_size r < 6408"
  shows "replay_segment (s, rd) acc = (ok acc, s)"
proof -
  let ?body = "word_of_nat (length (wal_body r)) :: u32" and ?c = "0 # serialize_wal_record r @ rest"
  let ?hd = "overwrite (replicate 9 0) 0 (take 8 ?c) :: bytes"
  have len: "length (wal_body r) < 6400" using assms(5) by (simp add: get_record_size_def length_wal_body)
  then have u: "unat ?body = length (wal_body r)" by (intro unat_word_of_nat_eq) simp
  have small: "drop_bit 8 ?body < 25" using len by (simp add: word_less_nat_alt drop_bit_eq_div unat_div_distrib u)
  have "length (serialize_wal_record r) \<ge> 7" by (simp add: serialize_wal_image get_record_size_def)
  have "butlast (be 4 ?body) = take 3 (be 4 ?body)" by (simp add: butlast_conv_take)
  then have four: "take 4 ?c = be 4 (drop_bit 8 ?body)" by (simp add: be_shift serialize_wal_image wal_image_def)
  have "decode_uint32 ?hd 0 = drop_bit 8 ?body"
    by (rule codec_simps) (use four \<open>length (serialize_wal_record r) \<ge> 7\<close> in \<open>simp_all add: overwrite_def\<close>)
  moreover have "posix_read s (wr_fh rd) 8 (replicate 9 0) (length lg) = (ok (8, ?hd), s)"
    using posix_read_ok [OF assms(1,2,4), of 8 "replicate 9 0" "length lg"] \<open>length (serialize_wal_record r) \<ge> 7\<close> by simp
  ultimately have "wal_next (s, rd) = (err ERR_EOF ''wal reader encountered eof'', (s, rd))"
    using small by (simp add: wal_next_def assms(3) ok_def)
  then show ?thesis by (subst replay_segment.simps) (simp add: err_def)
qed

lemma torn_append:
  assumes "appendable s fh" and "answers s = [Part 0, Fail e]" and "bs = b # c # cs" and "e \<noteq> EINTR"
  shows "posix_append s fh bs = (err WRITE_ERR (strerror e), (fs_append s fh [b])\<lparr>answers := []\<rparr>)"
proof -
  obtain f n where f: "fd_file s (fd fh) = Some (f, n)" "of_writable f" "fd fh \<noteq> -1"
    using assms(1) by (auto simp: appendable_def split: option.splits)
  let ?s = "(fs_append s fh [b])\<lparr>answers := [Fail e]\<rparr>"
  have "write_file (s\<lparr>answers := [Fail e]\<rparr>) (fd fh) f n [b] = ?s"
    using write_file_append [of "s\<lparr>answers := [Fail e]\<rparr>" fh f n "[b]"] assms(1) f by (simp add: fs_append_answers)
  then have one: "sys_write s (fd fh) bs = (Inr 1, ?s)"
    using f assms(2,3) by (simp add: sys_write_def pop_answer_def)
  have "appendable ?s fh" using assms(1) by simp
  then obtain f' n' where f': "fd_file ?s (fd fh) = Some (f', n')" "of_writable f'"
    by (auto simp: appendable_def split: option.splits)
  then have "sys_write ?s (fd fh) (c # cs) = (Inl e, (fs_append s fh [b])\<lparr>answers := []\<rparr>)"
    by (simp add: sys_write_def pop_answer_def)
  with one have "posix_write_loop s (fd fh) bs 0 = (err WRITE_ERR (strerror e), (fs_append s fh [b])\<lparr>answers := []\<rparr>)"
    unfolding assms(3) using assms(4) by (subst posix_write_loop.simps, simp) (subst posix_write_loop.simps, simp)
  with f(3) show ?thesis by (simp add: posix_append_def)
qed

text \<open>
  C5. When the disk fails, with an error that is no interrupt, after the first byte of a record
  has been written, the put fails but the byte, a zero, stays behind the records in the log; the
  next put, when it does not flush, succeeds, and its record is durable behind that byte. A
  replay of the log then applies exactly the records from before the failed put: the
  acknowledged write is lost. The two values are not empty (put refuses an empty one), key and
  value take less than 16 MB in the failed put and less than 6000 bytes in the second, and the
  records already in the log are shorter than 4 GiB.
\<close>

theorem torn_log_loses_writes:
  assumes "appendable s (ww_fh (wal_writer dz))" and "view s (ww_fh (wal_writer dz)) = Some lg"
    and "lg = concat (map serialize_wal_record rs)" and "\<forall>r \<in> set rs. get_record_size r < 2 ^ 32"
    and "answers s = [Part 0, Fail e]" and "e \<noteq> EINTR"
    and "v1 \<noteq> []" and "v2 \<noteq> []" and "key_size k1 + length v1 < 16000000" and "key_size k2 + length v2 < 6000"
    and "dz1 = put_numbered n1 dz" and "dz2 = put_applied k2 (Some v2) False n2 dz1" and "\<not> should_flush (active_memtable dz2)"
  shows "\<exists>t u. dz_put k1 v1 n1 (s, dz) = (err WRITE_ERR (strerror e), (t, dz1))
     \<and> view t (ww_fh (wal_writer dz)) = Some (lg @ [0])
     \<and> dz_put k2 v2 n2 (t, dz1) = (ok (), (u, dz2))
     \<and> durable_view u (ww_fh (wal_writer dz)) = Some (lg @ [0] @ serialize_wal_record (put_record k2 (Some v2) False n2 dz1))
     \<and> (\<forall>x rd acc. answers x = [] \<and> readable x (wr_fh rd) \<and> wr_offset rd = 0 \<and> view x (wr_fh rd) = durable_view u (ww_fh (wal_writer dz))
          \<longrightarrow> replay_segment (x, rd) acc = (ok (foldl (\<lambda>acc r. replay_record r acc) acc rs), x))"
proof -
  let ?fh = "ww_fh (wal_writer dz)" and ?r1 = "put_record k1 (Some v1) False n1 dz" and ?r2 = "put_record k2 (Some v2) False n2 dz1"
  let ?t = "(fs_append s ?fh [0])\<lparr>answers := []\<rparr>"
  have ww: "wal_writer dz1 = wal_writer dz" by (simp add: assms(11) put_numbered_def)
  have b1: "length (wal_body ?r1) < 2 ^ 24" using assms(9) by (simp add: length_wal_body put_record_def)
  then have "unat (word_of_nat (length (wal_body ?r1)) :: u32) = length (wal_body ?r1)" by (intro unat_word_of_nat_eq) simp
  with b1 have "hd (be 4 (word_of_nat (length (wal_body ?r1)) :: u32)) = 0" by (intro hd_be_small) (simp add: word_less_nat_alt)
  then obtain cs where "serialize_wal_record ?r1 = 0 # cs" "cs \<noteq> []"
    by (simp add: serialize_wal_image wal_image_def be_def upt_rec)
  then obtain c cs where r1: "serialize_wal_record ?r1 = 0 # c # cs" by (cases cs) auto
  from torn_append [OF assms(1,5) r1 assms(6)]
  have p1: "dz_put k1 v1 n1 (s, dz) = (err WRITE_ERR (strerror e), (?t, dz1))"
    using assms(7) by (auto simp: dz_put_def put_internal_def on_fs_def bump_lsn_sequence_def put_record_def put_numbered_def assms(11)
        wal_append_def err_def split: prod.splits)
  have a: "appendable ?t ?fh" "answers ?t = []" "view ?t ?fh = Some (lg @ [0])" using assms(1,2) by simp_all
  let ?bs = "serialize_wal_record ?r2"
  let ?u = "fs_sync (fs_append ?t ?fh ?bs) ?fh"
  have p2: "dz_put k2 v2 n2 (?t, dz1) = (ok (), (?u, dz2))"
    using put_quiet [of ?t dz1 False "Some v2" k2 n2 ?bs] a assms(8,12,13) by (simp add: dz_put_def ww)
  have size: "get_record_size ?r2 < 6408" using assms(10) by (simp add: get_record_size_def put_record_def)
  have d: "durable_view ?u ?fh = Some (lg @ [0] @ ?bs)" using a by simp
  have "replay_segment (x, rd) acc = (ok (foldl (\<lambda>acc r. replay_record r acc) acc rs), x)"
    if x: "answers x = []" "readable x (wr_fh rd)" "wr_offset rd = 0" "view x (wr_fh rd) = durable_view ?u ?fh" for x rd acc
    using replay_segment_prefix [of x rd "[]" rs "0 # ?bs" acc] replay_after_torn_byte [of x "rd\<lparr>wr_offset := length lg\<rparr>" lg ?r2 "[]"]
      x size assms(4) unfolding d by (simp add: assms(3))
  then show ?thesis using p1 p2 a(3) d by (intro exI [of _ ?t] exI [of _ ?u]) blast
qed

theorem torn_log_loses_writes_witness:
  "let S = serialize_wal_record demo_record; s = (demo_fs Append S)\<lparr>answers := [Part 0, Fail ENOSPC]\<rparr>; dz1 = put_numbered 5 demo_engine;
     dz2 = put_applied (Key [1]) (Some [2]) False 6 dz1
   in \<exists>t u. dz_put (Key [1]) [1] 5 (s, demo_engine) = (err WRITE_ERR (strerror ENOSPC), (t, dz1)) \<and> view t (FileHandle 0) = Some (S @ [0])
     \<and> dz_put (Key [1]) [2] 6 (t, dz1) = (ok (), (u, dz2))
     \<and> durable_view u (FileHandle 0) = Some (S @ [0] @ serialize_wal_record (put_record (Key [1]) (Some [2]) False 6 dz1))"
proof -
  let ?S = "serialize_wal_record demo_record"
  let ?s = "(demo_fs Append ?S)\<lparr>answers := [Part 0, Fail ENOSPC]\<rparr>"
  have ww: "ww_fh (wal_writer demo_engine) = FileHandle 0" by (simp add: demo_engine_def Dazzle_create_def)
  have "\<not> should_flush (active_memtable (put_applied (Key [1]) (Some [2]) False 6 (put_numbered 5 demo_engine)))"
    by (simp add: put_applied_def put_numbered_def demo_engine_def Dazzle_create_def Memtable_create_def memtable_put_def should_flush_def map_find_def key_size_def)
  note nf = this
  have s: "appendable ?s (ww_fh (wal_writer demo_engine))" "view ?s (ww_fh (wal_writer demo_engine)) = Some ?S"
      "?S = concat (map serialize_wal_record [demo_record])" "\<forall>r \<in> set [demo_record]. get_record_size r < 2 ^ 32"
      "answers ?s = [Part 0, Fail ENOSPC]" "ENOSPC \<noteq> EINTR" "[1 :: u8] \<noteq> []" "[2 :: u8] \<noteq> []"
      "key_size (Key [1]) + length [1 :: u8] < 16000000" "key_size (Key [1]) + length [2 :: u8] < 6000"
    by (simp_all add: ww demo_fs_handle demo_record_size key_size_def)
  show ?thesis unfolding Let_def
    using torn_log_loses_writes [OF s refl refl nf] unfolding ww by (elim exE conjE, intro exI conjI) assumption+
qed

section \<open>Compaction on demand\<close>

lemma stack_map_empty: "concat tbls = [] \<Longrightarrow> stack_map tbls key = None"
  by (induction tbls rule: rev_induct) simp_all

lemma disk_not_empty:
  assumes "dz_map tables dz key \<noteq> None" and "memtable_get (active_memtable dz) key = None"
  shows "concat (live_tables tables dz) \<noteq> []"
proof
  assume "concat (live_tables tables dz) = []"
  then have "stack_map (live_tables tables dz) key = None" by (rule stack_map_empty)
  with assms show False by (auto simp: dz_map_def memtable_get_def map_find_def map_add_def split: option.splits)
qed

lemma represents_compact_now:
  assumes "represents w b M (s, dz)" and "ids_left (Suc k) dz" and "b < 2 ^ 28"
    and "M key \<noteq> None" and "memtable_get (active_memtable dz) key = None"
  shows "\<exists>st. compact_now (s, dz) = (ok (Some (SSTableId (next_sst_seq dz))), st) \<and> represents w b M st
     \<and> live_ids (snd st) = [SSTableId (next_sst_seq dz)] \<and> ids_left k (snd st) \<and> policy (snd st) = policy dz"
proof -
  obtain tables lg L where t: "dz_inv (lsn dz) tables lg L (s, dz)" "dz_map tables dz = M" "dz_bytes tables dz \<le> b"
    and w: "w \<longrightarrow> L = {ww_path (wal_writer dz)} \<and> logged (lsn dz) tables lg dz \<and> dz_bytes tables dz + length lg \<le> b \<and> 0 < lsn dz \<and> trim_string (data_dir dz) \<noteq> ''''"
    by (rule representsE [OF assms(1)])
  have b: "dz_bytes tables dz < 2 ^ 28" using t(3) assms(3) by simp
  have "concat (live_tables tables dz) \<noteq> []" using assms(4,5) t(2) by (intro disk_not_empty [of tables dz key]) simp_all
  from compact_now_ok [OF t(1) ids_leftD(2) [OF assms(2)] this b] obtain tables' t' dz' where
    c: "compact_now (s, dz) = (ok (Some (SSTableId (next_sst_seq dz))), (t', dz'))" "dz_inv (lsn dz) tables' lg L (t', dz')"
     "dz_map tables' dz' = dz_map tables dz" "dz_bytes tables' dz' \<le> dz_bytes tables dz"
     "set (concat (live_tables tables' dz')) \<subseteq> set (concat (live_tables tables dz))" "active_memtable dz' = active_memtable dz"
     "live_ids dz' = [SSTableId (next_sst_seq dz)]" "wal_writer dz' = wal_writer dz" "data_dir dz' = data_dir dz"
     "lsn dz' = lsn dz" "next_sst_seq dz' = next_sst_seq dz + 1" "next_wal_seq dz' = next_wal_seq dz" "policy dz' = policy dz" by (elim exE conjE)
  have "logged (lsn dz) tables' lg dz'" if "logged (lsn dz) tables lg dz" using logged_replace [OF that c(3) _ c(5)] c(6) by simp
  with c(2-4,8-10) t(2,3) w have "represents w b M (t', dz')" by (intro representsI [of dz' tables' lg L]) auto
  moreover have "ids_left k dz'" using assms(2) no_wrap [of "next_sst_seq dz"] by (simp add: ids_left_def c(10-12))
  ultimately show ?thesis using c(1,7,13) by (intro exI [of _ "(t', dz')"]) simp
qed

text \<open>A run of a new engine with the full compaction policy, with room for \<open>k\<close> more operations.\<close>

lemma fresh_run:
  assumes "d \<in> set dirs" and "trim_string d \<noteq> ''''" and "0 < n" and "build_ok d build" and "3 * (length ops + k) + 1 < 2 ^ 63"
    and "\<forall>c \<in> set ops. op_ok True c" and "total_bytes ops < 2 ^ 28"
    and "dz_open d sz (Some FullCompactionPolicy) mb n ((fs_empty dirs)\<lparr>assertions := build\<rparr>) = (ok dz, s)"
  shows "\<exists>st. dz_run ops (s, dz) = (fst (spec_run ops Map.empty), st) \<and> represents True (total_bytes ops) (snd (spec_run ops Map.empty)) st
     \<and> policy (snd st) = FullCompactionPolicy \<and> ids_left k (snd st)"
proof -
  from dz_open_fresh [OF refl assms(1-4), of sz FullCompactionPolicy mb] assms(8)
  have op: "represents True 0 Map.empty (s, dz)" "policy dz = FullCompactionPolicy" "lsn dz = 1" "next_sst_seq dz = 1" "next_wal_seq dz = 1" by auto
  have "ids_left (length ops + k) dz" using assms(5) by (simp add: ids_left_def op(3-5))
  with dz_run_refines [where k = k, OF op(1) _ _ assms(6)] assms(7) op(2) show ?thesis by auto
qed

text \<open>
  C3. Without faults, take an engine opened on an empty directory with the full compaction
  policy after any sequence of puts, removes, gets, flushes and crashes followed by reopening,
  with the conditions of engine_refines_map. When it has a value on disk (a key that the map has
  and the memtable does not hold), a full compaction on demand merges all tables into one, under
  the next id, and every further sequence of operations, gets and crashes included, is answered
  as by the map before the compaction.
\<close>

theorem compact_now_keeps_map:
  assumes "d \<in> set dirs" and "trim_string d \<noteq> ''''" and "0 < n" and "build_ok d build" and "3 * (length (ops @ ops') + 1) + 1 < 2 ^ 63"
    and "\<forall>c \<in> set (ops @ ops'). op_ok True c" and "total_bytes (ops @ ops') < 2 ^ 28"
    and "dz_open d sz (Some FullCompactionPolicy) mb n ((fs_empty dirs)\<lparr>assertions := build\<rparr>) = (ok dz, s)"
    and "dz_run ops (s, dz) = (rs, (t, dz1))" and "M = snd (spec_run ops Map.empty)"
    and "M key \<noteq> None" and "memtable_get (active_memtable dz1) key = None"
  shows "\<exists>st st'. compact_now (t, dz1) = (ok (Some (SSTableId (next_sst_seq dz1))), st)
     \<and> live_ids (snd st) = [SSTableId (next_sst_seq dz1)] \<and> dz_run ops' st = (fst (spec_run ops' M), st')"
proof -
  have b: "total_bytes (ops @ ops') = total_bytes ops + total_bytes ops'" by (simp add: total_bytes_def)
  from fresh_run [OF assms(1-4) _ _ _ assms(8), of ops "Suc (length ops')"] assms(5-7,9,10) b
  have r: "represents True (total_bytes ops) M (t, dz1)" "policy dz1 = FullCompactionPolicy" "ids_left (Suc (length ops')) dz1" by auto
  have "total_bytes ops < 2 ^ 28" using assms(7) b by simp
  from represents_compact_now [OF r(1,3) this assms(11,12)] obtain st where
    c: "compact_now (t, dz1) = (ok (Some (SSTableId (next_sst_seq dz1))), st)" "represents True (total_bytes ops) M st"
      "live_ids (snd st) = [SSTableId (next_sst_seq dz1)]" "ids_left (length ops') (snd st)" "policy (snd st) = policy dz1" by (elim exE conjE)
  from dz_run_refines [where k = 0 and ops = ops', OF c(2)] c(4,5) r(2) assms(6,7) b obtain st' where
    "dz_run ops' st = (fst (spec_run ops' M), st')" by auto
  with c(1,3) show ?thesis by blast
qed

text \<open>A new engine in the directory \<open>d\<close>, for examples.\<close>

lemma demo_open:
  assumes "build_ok ''d'' build"
  obtains s dz where "dz_open ''d'' 100 (Some p) 1 1 ((fs_empty [''d''])\<lparr>assertions := build\<rparr>) = (ok dz, s)"
    and "represents True 0 Map.empty (s, dz)" and "policy dz = p" and "live_ids dz = []" and "lsn dz = 1" and "next_sst_seq dz = 1"
    and "next_wal_seq dz = 1" and "active_memtable dz = Memtable_create 100"
proof -
  have "trim_string ''d'' \<noteq> ''''" by (simp add: trim_string_def is_space_def)
  from dz_open_fresh [OF refl _ this, of "[''d'']" 1 build 100 p 1] assms that show thesis by auto
qed

lemma build_ok_None: "build_ok d None"
  by (simp add: build_ok_def)

lemma build_ok_demo: "build_ok ''d'' (Some (\<lambda>F p. []))"
  by (simp add: build_ok_def)

theorem compact_now_keeps_map_witness:
  "\<exists>dz s t dz1 st st'. dz_open ''d'' 100 (Some FullCompactionPolicy) 1 1 ((fs_empty [''d''])\<lparr>assertions := None\<rparr>) = (ok dz, s)
     \<and> dz_run [DzPut (Key [1]) [7] 5, DzFlush] (s, dz) = ([ok None, ok None], (t, dz1))
     \<and> compact_now (t, dz1) = (ok (Some (SSTableId (next_sst_seq dz1))), st) \<and> live_ids (snd st) = [SSTableId (next_sst_seq dz1)]
     \<and> dz_run [DzGet (Key [1]), DzRestart 20 1 1, DzGet (Key [1])] st
       = ([ok (Some \<lparr>value_data = [7]\<rparr>), ok None, ok (Some \<lparr>value_data = [7]\<rparr>)], st')"
proof -
  obtain s dz where op: "dz_open ''d'' 100 (Some FullCompactionPolicy) 1 1 ((fs_empty [''d''])\<lparr>assertions := None\<rparr>) = (ok dz, s)"
      "represents True 0 Map.empty (s, dz)" "policy dz = FullCompactionPolicy" "live_ids dz = []" "lsn dz = 1" "next_sst_seq dz = 1" "next_wal_seq dz = 1"
    by (rule demo_open [OF build_ok_None])
  have "ids_left (Suc 2) dz" by (simp add: ids_left_def op(5-7))
  from represents_put_internal [OF op(2) this full_picks_newest [OF op(3)], of False "Some [7]" 19 "Key [1]" 5] obtain s1 dz1 where
    p: "dz_put (Key [1]) [7] 5 (s, dz) = (ok (), (s1, dz1))" "represents True 54 [Key [1] \<mapsto> \<lparr>value_data = [7]\<rparr>] (s1, dz1)"
      "ids_left 2 dz1" "policy dz1 = FullCompactionPolicy"
    by (auto simp: key_size_def MAX_PAGING_SIZE_BYTES_def op(3) dz_put_def)
  have two: "ids_left (Suc 1) dz1" using p(3) by (simp add: numeral_2_eq_2)
  from represents_flush [OF p(2) two full_picks_newest [OF p(4)]] obtain s2 dz2 where
    f: "flush (s1, dz1) = (ok (), (s2, dz2))" "entries (active_memtable dz2) = []" by auto
  have run: "dz_run [DzPut (Key [1]) [7] 5, DzFlush] (s, dz) = ([ok None, ok None], (s2, dz2))" using p(1) f(1) by simp
  have mem: "memtable_get (active_memtable dz2) (Key [1]) = None" using f(2) by (simp add: memtable_get_def map_find_def)
  have "\<exists>st st'. compact_now (s2, dz2) = (ok (Some (SSTableId (next_sst_seq dz2))), st) \<and> live_ids (snd st) = [SSTableId (next_sst_seq dz2)]
     \<and> dz_run [DzGet (Key [1]), DzRestart 20 1 1, DzGet (Key [1])] st
       = (fst (spec_run [DzGet (Key [1]), DzRestart 20 1 1, DzGet (Key [1])] (snd (spec_run [DzPut (Key [1]) [7] 5, DzFlush] Map.empty))), st')"
    by (rule compact_now_keeps_map [OF _ _ _ _ _ _ _ op(1) run refl _ mem])
      (simp_all add: trim_string_def is_space_def build_ok_def key_size_def MAX_PAGING_SIZE_BYTES_def total_bytes_def)
  then obtain st st' where "compact_now (s2, dz2) = (ok (Some (SSTableId (next_sst_seq dz2))), st)" "live_ids (snd st) = [SSTableId (next_sst_seq dz2)]"
     "dz_run [DzGet (Key [1]), DzRestart 20 1 1, DzGet (Key [1])] st = ([ok (Some \<lparr>value_data = [7]\<rparr>), ok None, ok (Some \<lparr>value_data = [7]\<rparr>)], st')"
    by auto
  with op(1) run show ?thesis by blast
qed

section \<open>Compacting empty tables\<close>

lemma release_readers_files: "fst (release_readers hs (s, c)) = fst (release_readers hs (t, c))"
proof (induction hs arbitrary: c)
  case (Cons h hs)
  then show ?case by (cases "cache_release h c"; cases "fst (cache_release h c)") (simp_all add: tc_release_def)
qed simp

lemma compact_now_empty:
  assumes "dz_inv b tables lg L (s, dz)" and "live_ids dz \<noteq> []" and "concat (live_tables tables dz) = []"
  shows "\<exists>st. compact_now (s, dz) = (abort ''assert expected_keys > 0'', st)"
proof -
  let ?files = "current_files (version_set dz)" and ?n = "next_sst_seq dz" and ?d = "data_dir dz" and ?ids = "live_ids dz"
  have fi: "files_inv tables lg L (s, dz)" using assms(1) by (simp add: dz_inv_def)
  then have vo: "versions_ok (version_set dz)" and tc: "tc_ok ?d tables (set ?ids) (s, table_cache dz)" and nf: "names_free ?d ?n s"
    by (simp_all add: files_inv_def)
  have "sorted (map fst ?files)" using versions_okD(4) [OF vo] by (simp add: strict_sorted_iff)
  then have ids: "sort (map meta_id (sst_meta_to_vector ?files)) = ?ids"
    using versions_okD(5) [OF vo] by (simp add: sorted_sort_id live_ids_def)
  have "sst_meta_to_vector ?files \<noteq> []" using assms(2) by (simp add: live_ids_def sst_meta_to_vector_def)
  with ids have now: "compact_now (s, dz) = run_task \<lparr>task_inputs = ?ids, output_id = SSTableId ?n, task_can_drop_tombstone = True\<rparr>
      (s, dz\<lparr>next_sst_seq := ?n + 1\<rparr>)" by (simp add: compact_now_def mint_sst_id_def)
  have "sum_list (map (\<lambda>sid. length (the (tables sid))) ?ids) = length (concat (live_tables tables dz))"
    by (simp add: live_tables_def length_concat comp_def)
  with assms(3) have zero: "sum_list (map (\<lambda>sid. length (the (tables sid))) ?ids) = 0" by simp
  obtain rs s1 c1 where o: "open_inputs ?d ?ids 0 [] (s, table_cache dz) = (ok 0, rs, (s1, c1))" "tc_ok ?d tables (set ?ids) (s1, c1)"
      "same_files s s1" "\<forall>H. sc.pinned (table_cache dz) H \<longrightarrow> sc.pinned c1 (mset (map snd rs) + H)"
    using open_inputs_ok [OF tc order_refl, of 0 "[]"] unfolding zero by auto
  let ?t = "fs_fresh s1 (sst_path ?d ?n) Write"
  have "map_of (dir s1) (sst_path ?d ?n) = None" "is_directory s1 (parent_of (sst_path ?d ?n))"
    using nf o(3) by (simp_all add: names_free_def parent_sst_path same_files_def is_directory_def)
  then have "SSTableWriter_create s1 (sst_path ?d ?n) 0 = (abort ''assert expected_keys > 0'', ?t)"
    using tc_okD(2) [OF o(2)] by (simp add: SSTableWriter_create_def posix_open_new BloomFilter_create_def abort_def)
  then have w: "compact_write ?d its 0 ?n True s1 = (abort ''assert expected_keys > 0'', ?t)" for its
    by (simp add: compact_write_def abort_def)
  have "\<exists>H. sc.pinned (table_cache dz) H" by (intro exI [of _ "{#}"]) simp
  then obtain H where "sc.pinned c1 (mset (map snd rs) + H)" using o(4) by blast
  from release_readers_ok [OF o(2) this] release_readers_files [of "map snd rs" s1 c1 ?t]
  obtain st where "release_readers (map snd rs) (?t, c1) = (ok (), st)" by (cases "release_readers (map snd rs) (?t, c1)") auto
  then have "\<exists>st. compact ?d ?ids ?n True (s, table_cache dz) = (abort ''assert expected_keys > 0'', st)" using o(1) w by (simp add: compact_def abort_def)
  then show ?thesis unfolding now by (auto simp: run_task_def execute_def on_cache_def abort_def)
qed

lemma flush_settles:
  assumes "dz_inv (lsn dz) tables lg L (s, dz)" and "ids_left (Suc k) dz" and "entries (active_memtable dz) \<noteq> []"
    and "dz_bytes tables dz < 2 ^ 28" and "policy dz = FullCompactionPolicy"
  shows "\<exists>st tables' lg' L'. flush (s, dz) = (ok (), st) \<and> dz_inv (lsn dz) tables' lg' L' st \<and> dz_map tables' (snd st) = dz_map tables dz
     \<and> fully_compacted tables' (snd st) \<and> entries (active_memtable (snd st)) = [] \<and> data_dir (snd st) = data_dir dz"
proof -
  obtain tables' t n ww vs c where f: "flush (s, dz) = (ok (), (t, flushed dz n ww vs c))"
     "dz_inv (lsn dz) tables' (log_after dz lg) {ww_path ww} (t, flushed dz n ww vs c)" "dz_map tables' (flushed dz n ww vs c) = dz_map tables dz"
     "policy dz = FullCompactionPolicy \<longrightarrow> fully_compacted tables' (flushed dz n ww vs c)"
    using flush_ok [OF assms(1) ids_leftD(2-4) [OF assms(2)] assms(3,4) full_picks_newest [OF assms(5)]] by (elim exE conjE)
  moreover have "entries (active_memtable (flushed dz n ww vs c)) = []" "data_dir (flushed dz n ww vs c) = data_dir dz" by (simp_all add: flushed_def)
  ultimately show ?thesis using assms(5)
    by (intro exI [of _ "(t, flushed dz n ww vs c)"] exI [of _ tables'] exI [of _ "log_after dz lg"] exI [of _ "{ww_path ww}"]) simp
qed

lemma settled_empty:
  assumes "fully_compacted tables dz" and "dz_map tables dz = Map.empty" and "entries (active_memtable dz) = []"
  shows "live_ids dz \<noteq> []" and "concat (live_tables tables dz) = []"
proof -
  obtain sid where sid: "live_ids dz = [sid]" using assms(1) by (auto simp: fully_compacted_def length_Suc_conv)
  then show "live_ids dz \<noteq> []" by simp
  have "map_of (the (tables sid)) k = None" for k
  proof (cases "map_of (the (tables sid)) k")
    case (Some v)
    then have "(k, v) \<in> set (the (tables sid))" by (rule map_of_SomeD)
    then have "\<not> is_tombstone v" using assms(1) by (auto simp: fully_compacted_def live_tables_def sid)
    with Some fun_cong [OF assms(2), of k] assms(3) show ?thesis by (simp add: dz_map_def live_tables_def sid stack_map_def)
  qed
  then have "the (tables sid) = []" by (metis list.set_intros(1) map_of_eq_None_iff image_eqI neq_Nil_conv)
  then show "concat (live_tables tables dz) = []" by (simp add: live_tables_def sid)
qed

lemma empty_table_stored:
  assumes "dz_inv b tables lg L (s, dz)" and "fully_compacted tables dz" and "concat (live_tables tables dz) = []"
  shows "\<exists>sid f. live_ids dz = [sid] \<and> file_at s (sst_path (data_dir dz) (id_value sid)) = Some (sst_image [] f)"
proof -
  obtain sid where sid: "live_ids dz = [sid]" using assms(2) by (auto simp: fully_compacted_def length_Suc_conv)
  have "files_ok (data_dir dz) tables {sid} s" using assms(1) sid by (simp add: dz_inv_def files_inv_def tc_ok_def)
  then obtain tbl where tbl: "tables sid = Some tbl" "stored (data_dir dz) s sid tbl" by (auto simp: files_ok_def)
  then have "tbl = []" using assms(3) sid by (simp add: live_tables_def)
  with tbl(2) sid show ?thesis by (auto simp: stored_def file_at_def)
qed

text \<open>
  C6. In a debug build, take an engine opened on an empty relative directory with the full
  compaction policy after any sequence of operations that leaves the map empty and the memtable
  not, such as the removal of a key, with the conditions of engine_refines_map. The next flush
  leaves one table, whose file is the image of a table without entries, and compacting on demand
  then aborts the process on the assertion of the Bloom filter that keys are expected.
\<close>

theorem compact_now_empty_table_aborts:
  assumes "d \<in> set dirs" and "trim_string d \<noteq> ''''" and "0 < n" and "build_ok d (Some links)" and "3 * (length ops + 1) + 1 < 2 ^ 63"
    and "\<forall>c \<in> set ops. op_ok True c" and "total_bytes ops < 2 ^ 28"
    and "dz_open d sz (Some FullCompactionPolicy) mb n ((fs_empty dirs)\<lparr>assertions := Some links\<rparr>) = (ok dz, s)"
    and "dz_run ops (s, dz) = (rs, (t, dz1))" and "snd (spec_run ops Map.empty) = Map.empty" and "memtable_count (active_memtable dz1) \<noteq> 0"
  shows "\<exists>st sid f st'. flush (t, dz1) = (ok (), st) \<and> live_ids (snd st) = [sid]
     \<and> file_at (fst st) (sst_path (data_dir dz1) (id_value sid)) = Some (sst_image [] f)
     \<and> compact_now st = (abort ''assert expected_keys > 0'', st')"
proof -
  from fresh_run [OF assms(1-4) _ assms(6-8), of 1] assms(5,9,10)
  have r: "represents True (total_bytes ops) Map.empty (t, dz1)" "policy dz1 = FullCompactionPolicy" "ids_left (Suc 0) dz1" by auto
  obtain tables lg L where t: "dz_inv (lsn dz1) tables lg L (t, dz1)" "dz_map tables dz1 = Map.empty" "dz_bytes tables dz1 \<le> total_bytes ops"
    by (rule representsE [OF r(1)])
  have e: "entries (active_memtable dz1) \<noteq> []" using assms(11) by (auto simp: memtable_count_def)
  have b: "dz_bytes tables dz1 < 2 ^ 28" using t(3) assms(7) by simp
  obtain st tables' lg' L' where f: "flush (t, dz1) = (ok (), st)" "dz_inv (lsn dz1) tables' lg' L' st" "dz_map tables' (snd st) = Map.empty"
     "fully_compacted tables' (snd st)" "entries (active_memtable (snd st)) = []" "data_dir (snd st) = data_dir dz1"
    using flush_settles [OF t(1) r(3) e b r(2)] t(2) by auto
  note z = settled_empty [OF f(4,3,5)]
  obtain sid im where "live_ids (snd st) = [sid]" "file_at (fst st) (sst_path (data_dir dz1) (id_value sid)) = Some (sst_image [] im)"
    using empty_table_stored [of "lsn dz1" tables' lg' L' "fst st" "snd st"] f(2,4,6) z(2) by auto
  moreover obtain st' where "compact_now st = (abort ''assert expected_keys > 0'', st')"
    using compact_now_empty [of "lsn dz1" tables' lg' L' "fst st" "snd st"] f(2) z by auto
  ultimately show ?thesis using f(1) by blast
qed

theorem compact_now_empty_table_aborts_witness:
  "\<exists>dz s t dz1 st st'. dz_open ''d'' 100 (Some FullCompactionPolicy) 1 1 ((fs_empty [''d''])\<lparr>assertions := Some (\<lambda>F p. [])\<rparr>) = (ok dz, s)
     \<and> dz_run [DzRemove (Key [1]) 5] (s, dz) = ([ok None], (t, dz1)) \<and> flush (t, dz1) = (ok (), st)
     \<and> compact_now st = (abort ''assert expected_keys > 0'', st')"
proof -
  obtain s dz where op: "dz_open ''d'' 100 (Some FullCompactionPolicy) 1 1 ((fs_empty [''d''])\<lparr>assertions := Some (\<lambda>F p. [])\<rparr>) = (ok dz, s)"
      "represents True 0 Map.empty (s, dz)" "active_memtable dz = Memtable_create 100" by (rule demo_open [OF build_ok_demo])
  obtain tables lg L where t: "dz_inv (lsn dz) tables lg L (s, dz)" by (rule representsE [OF op(2)])
  then have q: "answers s = []" "appendable s (ww_fh (wal_writer dz))"
    by (auto simp: dz_inv_def files_inv_def tc_ok_def files_ok_def wal_open_def appendable_def)
  let ?dz = "put_applied (Key [1]) None True 5 dz"
  have m: "\<not> should_flush (active_memtable ?dz)" "memtable_count (active_memtable ?dz) \<noteq> 0"
    by (simp_all add: put_applied_def put_numbered_def op(3) Memtable_create_def memtable_remove_def should_flush_def map_find_def key_size_def memtable_count_def)
  obtain u where "put_internal (Key [1]) None True 5 (s, dz) = (ok (), (u, ?dz))" using put_quiet [OF q _ m(1) refl] by auto
  then have run: "dz_run [DzRemove (Key [1]) 5] (s, dz) = ([ok None], (u, ?dz))" by (simp add: dz_remove_def)
  have "\<exists>st sid f st'. flush (u, ?dz) = (ok (), st) \<and> live_ids (snd st) = [sid]
     \<and> file_at (fst st) (sst_path (data_dir ?dz) (id_value sid)) = Some (sst_image [] f)
     \<and> compact_now st = (abort ''assert expected_keys > 0'', st')"
    by (rule compact_now_empty_table_aborts [OF _ _ _ _ _ _ _ op(1) run _ m(2)])
      (simp_all add: trim_string_def is_space_def build_ok_def key_size_def MAX_PAGING_SIZE_BYTES_def total_bytes_def fun_eq_iff)
  with op(1) run show ?thesis by blast
qed

section \<open>Compacting tables that are not the newest\<close>

lemma merged_newest:
  assumes "merged_of E r" and "(k, v) \<in> E" and "\<forall>v'. (k, v') \<in> E \<longrightarrow> sequence v' \<le> sequence v" and "consistent E"
  shows "map_of r k = Some v"
proof -
  have "k \<in> fst ` set r" using assms(1,2) by (force simp: merged_of_def)
  then obtain w where w: "(k, w) \<in> set r" by auto
  then have "(k, w) \<in> E" "sequence v \<le> sequence w" using assms(1,2) by (auto simp: merged_of_def)
  then have "w = v" using assms(2-4) unfolding consistent_def by (metis order_antisym)
  then show ?thesis using assms(1) w by (auto simp: merged_of_def ordered_map_of_iff)
qed

text \<open>
  C7. Without faults, when the policy picks any live tables, a get after the compaction answers
  with the newest entry among the tables that were merged, even when a table that was left out
  holds a newer entry of the key, which a get before the compaction returned: the merged table
  gets the highest id and is searched first. The newest merged entry is no tombstone, the
  memtable does not hold the key, entries fit a block and take less than 256 MiB, and the build
  has no assertion that fails in remove.
\<close>

theorem compaction_answers_from_inputs:
  assumes "dz_inv b tables lg L (s, dz)" and "next_sst_seq dz < next_sst_seq dz + 1" and "dz_bytes tables dz < 2 ^ 28"
    and "policy_pick (policy dz) (sst_meta_to_vector (current_files (version_set dz))) = ok (Some cand)"
    and "set (cand_inputs cand) \<subseteq> set (live_ids dz)" and "distinct (cand_inputs cand)"
    and "I = concat (map (\<lambda>sid. the (tables sid)) (cand_inputs cand))" and "(key, old) \<in> set I" and "\<not> is_tombstone old"
    and "\<forall>v. (key, v) \<in> set I \<longrightarrow> sequence v \<le> sequence old"
    and "stack_map (live_tables tables dz) key = Some new" and "memtable_get (active_memtable dz) key = None"
  shows "sequence old \<le> sequence new \<and> (\<exists>st1 st2 st3. dz_get key (s, dz) = (ok (reveal (Some new)), st1)
     \<and> do_compact_work (s, dz) = (ok (Some (SSTableId (next_sst_seq dz))), st2)
     \<and> dz_get key st2 = (ok (Some \<lparr>value_data = data old\<rparr>), st3))"
proof -
  let ?n = "next_sst_seq dz" and ?sid = "SSTableId (next_sst_seq dz)" and ?ids = "cand_inputs cand" and ?full = "can_drop_tombstone cand"
  have fi: "files_inv tables lg L (s, dz)" and di: "data_inv b tables dz" using assms(1) by (simp_all add: dz_inv_def)
  have st: "stack_ok (live_tables tables dz)" using di by (simp add: data_inv_def stack_ok_append)
  have sub: "set I \<subseteq> set (concat (live_tables tables dz))" using assms(5) by (auto simp: assms(7) live_tables_def)
  have mem: "map_of (entries (active_memtable dz)) key = None" using assms(12) by (simp add: memtable_get_def map_find_def)
  have le: "sequence old \<le> sequence new"
    using assms(8,11) sub by (auto simp: stack_map_iff [OF st])
  obtain r where r: "merged_of (set I) r" using merged_of_exists [of "set I"] by auto
  have old: "map_of r key = Some old" by (rule merged_newest [OF r assms(8,10) consistent_subset [OF stack_consistent [OF st] sub]])
  define out where "out = kept_entries ?full r"
  let ?tb = "tables(?sid \<mapsto> out)"
  have ne: "concat (map (\<lambda>sid. the (tables sid)) ?ids) \<noteq> []" using assms(8) unfolding assms(7) by (metis empty_iff empty_set)
  obtain t vs c where f: "run_task \<lparr>task_inputs = ?ids, output_id = ?sid, task_can_drop_tombstone = ?full\<rparr> (s, dz\<lparr>next_sst_seq := ?n + 1\<rparr>)
       = (ok (Some ?sid), (t, dz\<lparr>next_sst_seq := ?n + 1, version_set := vs, table_cache := c\<rparr>))"
     "files_inv ?tb lg L (t, dz\<lparr>next_sst_seq := ?n + 1, version_set := vs, table_cache := c\<rparr>)"
     "map fst (current_files vs) = filter (\<lambda>i. i \<notin> set ?ids) (live_ids dz) @ [?sid]"
    using run_task_files [OF assms(1) refl assms(2,5,6) refl ne assms(3) r [unfolded assms(7)] out_def] by (elim exE conjE)
  let ?dz = "dz\<lparr>next_sst_seq := ?n + 1, version_set := vs, table_cache := c\<rparr>"
  have run: "do_compact_work (s, dz) = (ok (Some ?sid), (t, ?dz))"
    using f(1) assms(4) by (simp add: do_compact_work_def mint_sst_id_def ok_def)
  have lt: "live_tables ?tb ?dz = map (\<lambda>sid. the (?tb sid)) (filter (\<lambda>i. i \<notin> set ?ids) (live_ids dz)) @ [out]"
    using f(3) by (simp add: live_tables_def live_ids_def)
  have "dz_map ?tb ?dz key = reveal ((stack_map (live_tables ?tb ?dz) ++ map_of (entries (active_memtable dz))) key)" by (simp add: dz_map_def)
  also have "\<dots> = reveal (map_of out key)"
    using mem map_of_kept_entries [of r ?full key] r old assms(9) unfolding lt stack_map_simps(2) by (simp add: out_def merged_of_def map_add_def)
  also have "\<dots> = Some \<lparr>value_data = data old\<rparr>"
    using map_of_kept_entries [of r ?full key] r old assms(9) by (simp add: out_def merged_of_def)
  finally have after: "dz_map ?tb ?dz key = Some \<lparr>value_data = data old\<rparr>" .
  have before: "dz_map tables dz key = reveal (Some new)" using assms(11) mem by (simp add: dz_map_def map_add_def)
  show ?thesis using le run dz_get_files [OF fi, of key] dz_get_files [OF f(2), of key] unfolding before after by blast
qed


text \<open>A policy of width one picks the oldest table; two flushes make two tables.\<close>

lemma oldest_pick:
  assumes "meta_id m1 < meta_id m2"
  shows "size_tiered_pick (size_tiered 1 1) [m1, m2] = ok (Some \<lparr>cand_inputs = [meta_id m1], can_drop_tombstone = True\<rparr>)"
  using assms
  by (auto simp: size_tiered_pick_def size_tiered_def make_buckets_def new_bucket_def Let_def can_drop_tombstones_def upt_conv_Cons ok_def)

lemma put_flush_stacks:
  assumes "dz_inv (lsn dz) tables lg L (s, dz)" and "entries (active_memtable dz) = []" and "ids_left (Suc k) dz"
    and "policy dz = SizeTiered p" and "length (live_ids dz) + 1 < min_merge_width p" and "min_merge_width p \<le> max_merge_width p"
    and "e = (key, written_value (Some value) False (lsn dz))" and "length (entry_image e) \<le> MAX_PAGING_SIZE_BYTES"
    and "dz_bytes tables dz + length (entry_image e) < 2 ^ 28" and "value \<noteq> []"
  shows "\<exists>st1 st tables' lg' L'. dz_put key value now (s, dz) = (ok (), st1) \<and> flush st1 = (ok (), st)
     \<and> dz_inv (lsn (snd st)) tables' lg' L' st \<and> live_tables tables' (snd st) = live_tables tables dz @ [[e]]
     \<and> entries (active_memtable (snd st)) = [] \<and> ids_left k (snd st) \<and> policy (snd st) = policy dz \<and> lsn (snd st) = lsn dz + 1
     \<and> dz_bytes tables' (snd st) \<le> dz_bytes tables dz + length (entry_image e)"
proof -
  note id = ids_leftD [OF assms(3)]
  obtain u dz' lg' where w: "put_internal key (Some value) False now (s, dz) = (if should_flush (active_memtable dz') then flush (u, dz') else (ok (), (u, dz')))"
     "dz_inv (lsn dz + 1) tables lg' L (u, dz')" "dz_bytes tables dz' \<le> dz_bytes tables dz + length (entry_image e)"
     "entries (active_memtable dz') \<noteq> []" "lsn dz' = lsn dz + 1" "next_sst_seq dz' = next_sst_seq dz"
     "next_wal_seq dz' = next_wal_seq dz" "policy dz' = policy dz" "version_set dz' = version_set dz"
     "entries (active_memtable dz') = map_assign key (written_value (Some value) False (lsn dz)) (entries (active_memtable dz))"
    using put_write_ok [OF assms(1) id(1) _ refl, of False "Some value" key now] assms(8) unfolding assms(7) by auto
  have mem: "entries (active_memtable dz') = [e]" using w(10) assms(2,7) by simp
  have live: "live_tables tables dz' = live_tables tables dz" "live_ids dz' = live_ids dz" by (simp_all add: live_tables_def live_ids_def w(9))
  have b: "dz_bytes tables dz' < 2 ^ 28" using w(3) assms(9) by simp
  have few: "picks_none dz'" "picks_newest dz'"
    using few_picks_none [of dz' p] assms(4-6) by (simp_all add: w(8) live)
  obtain tables' t n ww vs c where f: "flush (u, dz') = (ok (), (t, flushed dz' n ww vs c))"
     "dz_inv (lsn dz + 1) tables' (log_after dz' lg') {ww_path ww} (t, flushed dz' n ww vs c)"
     "dz_bytes tables' (flushed dz' n ww vs c) \<le> dz_bytes tables dz'" "unat n \<le> unat (next_sst_seq dz') + 2"
     "picks_none dz' \<longrightarrow> live_tables tables' (flushed dz' n ww vs c) = live_tables tables dz' @ [entries (active_memtable dz')]"
    using flush_ok [OF w(2) id(2,3) [folded w(6)] id(4) [folded w(7)] w(4) b few(2)] by (elim exE conjE)
  let ?dz = "flushed dz' n ww vs c"
  have sel: "lsn ?dz = lsn dz'" "entries (active_memtable ?dz) = []" "next_sst_seq ?dz = n" "next_wal_seq ?dz = next_wal_seq dz' + 1"
    "policy ?dz = policy dz'" by (simp_all add: flushed_def)
  have "flush (t, ?dz) = (ok (), (t, ?dz))" using sel(2) by (simp add: flush_def memtable_count_def)
  then have "\<exists>st1. dz_put key value now (s, dz) = (ok (), st1) \<and> flush st1 = (ok (), (t, ?dz))"
    using w(1) f(1) assms(10) by (cases "should_flush (active_memtable dz')") (auto simp: dz_put_def)
  moreover have "ids_left k ?dz"
    using assms(3) f(4) no_wrap [of "next_wal_seq dz"] id(5) by (simp add: ids_left_def sel w(5-7))
  moreover have "live_tables tables' ?dz = live_tables tables dz @ [[e]]" using f(5) few(1) live(1) mem by simp
  moreover have "dz_bytes tables' ?dz \<le> dz_bytes tables dz + length (entry_image e)" using f(3) w(3) by simp
  ultimately show ?thesis using f(2) w(5,8) sel
    by (elim exE conjE, intro exI [of _ "(t, ?dz)"] exI [of _ tables'] exI [of _ "log_after dz' lg'"] exI [of _ "{ww_path ww}"] exI conjI)
      (assumption | simp)+
qed

theorem compaction_answers_from_inputs_witness:
  "\<exists>s dz st1 st2 st3 st4 dz5 st5 st6 st7 sid.
     dz_open ''d'' 100 (Some (SizeTiered (size_tiered 4 4))) 1 1 ((fs_empty [''d''])\<lparr>assertions := None\<rparr>) = (ok dz, s)
     \<and> dz_put (Key [1]) [7] 5 (s, dz) = (ok (), st1) \<and> flush st1 = (ok (), st2)
     \<and> dz_put (Key [1]) [8] 6 st2 = (ok (), st3) \<and> flush st3 = (ok (), st4)
     \<and> set_compaction_policy (Some (SizeTiered (size_tiered 1 1))) (snd st4) = (ok (), dz5)
     \<and> dz_get (Key [1]) (fst st4, dz5) = (ok (Some \<lparr>value_data = [8]\<rparr>), st5)
     \<and> do_compact_work (fst st4, dz5) = (ok (Some sid), st6)
     \<and> dz_get (Key [1]) st6 = (ok (Some \<lparr>value_data = [7]\<rparr>), st7)"
proof -
  let ?p = "SizeTiered (size_tiered 4 4)" and ?q = "SizeTiered (size_tiered 1 1)" and ?k = "Key [1]"
  obtain s dz where op: "dz_open ''d'' 100 (Some ?p) 1 1 ((fs_empty [''d''])\<lparr>assertions := None\<rparr>) = (ok dz, s)" "represents True 0 Map.empty (s, dz)"
      "policy dz = ?p" "live_ids dz = []" "lsn dz = 1" "next_sst_seq dz = 1" "next_wal_seq dz = 1" by (rule demo_open [OF build_ok_None])
  obtain tb lg L where t: "dz_inv (lsn dz) tb lg L (s, dz)" "dz_map tb dz = Map.empty" "dz_bytes tb dz \<le> 0"
    by (rule representsE [OF op(2)])
  have e0: "entries (active_memtable dz) = []"
    using t(3) by (cases "entries (active_memtable dz)") (auto simp: dz_bytes_def block_image_def length_entry_image)
  let ?e1 = "(?k, written_value (Some [7]) False (lsn dz))"
  have sz: "length (entry_image (?k, written_value (Some [v]) False n)) = 19" for v n by (simp add: written_bytes key_size_def)
  have "ids_left (Suc 2) dz" by (simp add: ids_left_def op(5-7))
  from put_flush_stacks [OF t(1) e0 this op(3) _ _ refl, of ?k "[7]" 5] t(3) obtain st1 s2 dz2 tb2 lg2 L2 where
    a: "dz_put ?k [7] 5 (s, dz) = (ok (), st1)" "flush st1 = (ok (), (s2, dz2))" "dz_inv (lsn dz2) tb2 lg2 L2 (s2, dz2)"
     "live_tables tb2 dz2 = live_tables tb dz @ [[?e1]]" "entries (active_memtable dz2) = []" "ids_left 2 dz2" "policy dz2 = ?p"
     "lsn dz2 = lsn dz + 1" "dz_bytes tb2 dz2 \<le> 19"
    by (auto simp: sz op(3,4) size_tiered_def MAX_PAGING_SIZE_BYTES_def)
  have l2: "live_tables tb2 dz2 = [[?e1]]" using a(4) op(4) by (simp add: live_tables_def)
  then have "length (live_ids dz2) = 1" by (metis One_nat_def length_Cons length_map list.size(3) live_tables_def)
  let ?e2 = "(?k, written_value (Some [8]) False (lsn dz2))"
  have "ids_left (Suc 1) dz2" using a(6) by (simp add: numeral_2_eq_2)
  from put_flush_stacks [OF a(3,5) this a(7) _ _ refl, of ?k "[8]" 6] a(9) \<open>length (live_ids dz2) = 1\<close>
  obtain st3 s4 dz4 tb4 lg4 L4 where
    b: "dz_put ?k [8] 6 (s2, dz2) = (ok (), st3)" "flush st3 = (ok (), (s4, dz4))" "dz_inv (lsn dz4) tb4 lg4 L4 (s4, dz4)"
     "live_tables tb4 dz4 = live_tables tb2 dz2 @ [[?e2]]" "entries (active_memtable dz4) = []" "ids_left 1 dz4"
     "dz_bytes tb4 dz4 < 2 ^ 28"
    by (auto simp: sz size_tiered_def MAX_PAGING_SIZE_BYTES_def)
  have l4: "live_tables tb4 dz4 = [[?e1], [?e2]]" using b(4) l2 by simp
  then obtain i1 i2 where ids: "live_ids dz4 = [i1, i2]" "the (tb4 i1) = [?e1]" "the (tb4 i2) = [?e2]"
    by (auto simp: live_tables_def map_eq_Cons_conv)
  define dz5 where "dz5 = dz4\<lparr>policy := ?q\<rparr>"
  have sel: "live_ids dz5 = [i1, i2]" "live_tables tb4 dz5 = [[?e1], [?e2]]" "active_memtable dz5 = active_memtable dz4" "lsn dz5 = lsn dz4"
      "next_sst_seq dz5 = next_sst_seq dz4" "dz_bytes tb4 dz5 = dz_bytes tb4 dz4" "policy dz5 = ?q" "version_set dz5 = version_set dz4"
    using ids(1) l4 by (simp_all add: dz5_def live_ids_def live_tables_def dz_bytes_def)
  let ?files = "current_files (version_set dz4)"
  have inv: "dz_inv (lsn dz4) tb4 lg4 L4 (s4, dz5)"
    using b(3) by (simp add: dz5_def dz_inv_def files_inv_def data_inv_def live_tables_def live_ids_def)
  have vo: "versions_ok (version_set dz4)" using b(3) by (simp add: dz_inv_def files_inv_def)
  have "map meta_id (sst_meta_to_vector ?files) = [i1, i2]" using versions_okD(5) [OF vo] ids(1) by (simp add: live_ids_def)
  then obtain m1 m2 where m: "sst_meta_to_vector ?files = [m1, m2]" "meta_id m1 = i1" "meta_id m2 = i2" by (auto simp: map_eq_Cons_conv)
  have "i1 < i2" using versions_okD(4) [OF vo] ids(1) by (auto simp: live_ids_def map_eq_Cons_conv)
  with oldest_pick [of m1 m2] m have pick: "policy_pick (policy dz5) (sst_meta_to_vector (current_files (version_set dz5)))
      = ok (Some \<lparr>cand_inputs = [i1], can_drop_tombstone = True\<rparr>)" by (simp add: policy_pick_def sel)
  have n: "next_sst_seq dz5 < next_sst_seq dz5 + 1" using ids_leftD(2) [of 0 dz4] b(6) sel(5) by simp
  have "dz_bytes tb4 dz5 < 2 ^ 28" "stack_map (live_tables tb4 dz5) ?k = Some (snd ?e2)" "memtable_get (active_memtable dz5) ?k = None"
    using b(5,7) by (simp_all add: sel stack_map_def memtable_get_def map_find_def)
  with compaction_answers_from_inputs [OF inv n _ pick _ _ refl, of ?k "snd ?e1" "snd ?e2"] obtain st5 st6 st7 where
    "dz_get ?k (s4, dz5) = (ok (Some \<lparr>value_data = [8]\<rparr>), st5)" "do_compact_work (s4, dz5) = (ok (Some (SSTableId (next_sst_seq dz5))), st6)"
    "dz_get ?k st6 = (ok (Some \<lparr>value_data = [7]\<rparr>), st7)"
    by (auto simp: sel(1) ids(2) written_value_def)
  moreover have "set_compaction_policy (Some ?q) dz4 = (ok (), dz5)" by (simp add: set_compaction_policy_def dz5_def)
  ultimately show ?thesis using op(1) a(1,2) b(1,2) by (metis fst_conv snd_conv)
qed

end
