(* ===== verification/Ring_Buffer.thy ===== *)
theory Ring_Buffer
  imports Prelude
begin

text \<open>
  RingBufferSink of log_sinks.h and log_sinks.cpp: the crash ring. Threads submit formatted records
  while others dump the ring, without a lock. Every atomic access of a thread is one step, so that
  all interleavings are covered; the memory is sequentially consistent. A word of a slot is kept as
  its eight bytes in memory. The ghost field \<open>submitted\<close> lists the formatted records in the order of
  their sequence numbers, and \<open>dumped\<close> the payloads the dumps have written.
\<close>

section \<open>Slots\<close>

definition kWritingFlag :: u64 where
  "kWritingFlag = push_bit 63 1"

definition kSlotFree :: u64 where
  "kSlotFree = kWritingFlag - 1"

definition kDumpCopyMax :: nat where
  "kDumpCopyMax = 1024"

record Slot =
  slot_gen :: u64
  slot_len :: u32
  slot_data :: "bytes list"

record RingBufferSink =
  slots_cap :: nat
  ring_slot_size :: nat
  ring_slots :: "Slot list"
  write_seq :: u64

definition slot_words :: "nat \<Rightarrow> nat" where
  "slot_words slot_size = (slot_size + 7) div 8"

definition RingBufferSink_create :: "nat \<Rightarrow> nat \<Rightarrow> RingBufferSink" where
  "RingBufferSink_create slots slot_size =
     (let cap = (if slots = 0 then 1024 else slots); size = (if slot_size < 64 then 512 else slot_size)
      in \<lparr>slots_cap = cap, ring_slot_size = size,
          ring_slots = replicate cap \<lparr>slot_gen = kSlotFree, slot_len = 0, slot_data = replicate (slot_words size) (replicate 8 0)\<rparr>,
          write_seq = 0\<rparr>)"

text \<open>One turn of \<open>store_slot_bytes\<close> and of \<open>load_slot_bytes\<close>.\<close>

definition store_word :: "bytes \<Rightarrow> nat \<Rightarrow> bytes list \<Rightarrow> bytes list" where
  "store_word src w dst =
     (let chunk = take 8 (drop (8 * w) src) in dst[w := chunk @ replicate (8 - length chunk) 0])"

definition load_word :: "bytes list \<Rightarrow> nat \<Rightarrow> nat \<Rightarrow> bytes" where
  "load_word src w len = take (min 8 (len - 8 * w)) (src ! w)"

section \<open>Steps of a thread\<close>

text \<open>
  Where a thread stands: outside; in \<open>submit\<close> before the load of the generation, before the claim,
  in the copy with \<open>w\<close> words done, before the store of the length, before the publication; in a
  dump before the load of the generation of the slot of number \<open>i\<close>, before the load of its length,
  in the copy, before the second load of the generation.
\<close>

datatype ring_pc =
    RingIdle
  | SubmitLoad u64 bytes
  | SubmitClaim u64 bytes u64
  | SubmitCopy u64 bytes nat
  | SubmitLen u64 bytes
  | SubmitPublish u64
  | DumpLoad nat nat
  | DumpLen nat nat u64
  | DumpCopy nat nat u64 nat bool nat bytes
  | DumpCheck nat nat u64 bytes

definition slot_at :: "RingBufferSink \<Rightarrow> nat \<Rightarrow> Slot" where
  "slot_at rb i = ring_slots rb ! (i mod slots_cap rb)"

definition set_slot :: "nat \<Rightarrow> Slot \<Rightarrow> RingBufferSink \<Rightarrow> RingBufferSink" where
  "set_slot i s rb = rb\<lparr>ring_slots := (ring_slots rb)[i mod slots_cap rb := s]\<rparr>"

definition submit_step :: "ring_pc \<Rightarrow> RingBufferSink \<Rightarrow> ring_pc \<times> RingBufferSink" where
  "submit_step pc rb =
     (case pc of
        SubmitLoad seq formatted \<Rightarrow>
          let cur = slot_gen (slot_at rb (unat seq)) in
          if cur AND kWritingFlag \<noteq> 0 then (RingIdle, rb) else (SubmitClaim seq formatted cur, rb)
      | SubmitClaim seq formatted cur \<Rightarrow>
          let s = slot_at rb (unat seq) in
          if slot_gen s = cur then
            (SubmitCopy seq (take (ring_slot_size rb) formatted) 0, set_slot (unat seq) (s\<lparr>slot_gen := seq OR kWritingFlag\<rparr>) rb)
          else (RingIdle, rb)
      | SubmitCopy seq src w \<Rightarrow>
          if 8 * w < length src then
            let s = slot_at rb (unat seq) in
            (SubmitCopy seq src (w + 1), set_slot (unat seq) (s\<lparr>slot_data := store_word src w (slot_data s)\<rparr>) rb)
          else (SubmitLen seq src, rb)
      | SubmitLen seq src \<Rightarrow>
          (SubmitPublish seq, set_slot (unat seq) ((slot_at rb (unat seq))\<lparr>slot_len := word_of_nat (length src)\<rparr>) rb)
      | SubmitPublish seq \<Rightarrow>
          (RingIdle, set_slot (unat seq) ((slot_at rb (unat seq))\<lparr>slot_gen := seq\<rparr>) rb)
      | _ \<Rightarrow> (pc, rb))"

definition dump_start :: "RingBufferSink \<Rightarrow> ring_pc" where
  "dump_start rb =
     (let curr_seq = unat (write_seq rb)
      in DumpLoad (if curr_seq > slots_cap rb then curr_seq - slots_cap rb else 0) curr_seq)"

text \<open>A step of a dump, with what it writes to the descriptor.\<close>

definition dump_step :: "ring_pc \<Rightarrow> RingBufferSink \<Rightarrow> ring_pc \<times> bytes list" where
  "dump_step pc rb =
     (case pc of
        DumpLoad i curr_seq \<Rightarrow>
          if \<not> i < curr_seq then (RingIdle, [])
          else
            let g = slot_gen (slot_at rb i) in
            if g = kSlotFree \<or> g AND kWritingFlag \<noteq> 0 then (DumpLoad (i + 1) curr_seq, []) else (DumpLen i curr_seq g, [])
      | DumpLen i curr_seq g \<Rightarrow>
          let len = unat (slot_len (slot_at rb i)) in
          if len = 0 then (DumpLoad (i + 1) curr_seq, [])
          else (DumpCopy i curr_seq g (min len kDumpCopyMax) (len > kDumpCopyMax) 0 [], [])
      | DumpCopy i curr_seq g len truncated w buf \<Rightarrow>
          if 8 * w < len then (DumpCopy i curr_seq g len truncated (w + 1) (buf @ load_word (slot_data (slot_at rb i)) w len), [])
          else (DumpCheck i curr_seq g (if truncated then buf[len - 1 := 10] else buf), [])
      | DumpCheck i curr_seq g buf \<Rightarrow>
          if slot_gen (slot_at rb i) \<noteq> g then (DumpLoad (i + 1) curr_seq, []) else (DumpLoad (i + 1) curr_seq, [buf])
      | _ \<Rightarrow> (pc, []))"

section \<open>All interleavings\<close>

record ring_config =
  ring :: RingBufferSink
  ring_pcs :: "nat \<Rightarrow> ring_pc"
  submitted :: "bytes list"
  dumped :: "bytes list"

definition is_submit :: "ring_pc \<Rightarrow> bool" where
  "is_submit pc = (case pc of SubmitLoad _ _ \<Rightarrow> True | SubmitClaim _ _ _ \<Rightarrow> True | SubmitCopy _ _ _ \<Rightarrow> True
     | SubmitLen _ _ \<Rightarrow> True | SubmitPublish _ \<Rightarrow> True | _ \<Rightarrow> False)"

inductive ring_step :: "ring_config \<Rightarrow> ring_config \<Rightarrow> bool" where
  ring_submit: "ring_pcs c t = RingIdle \<Longrightarrow>
    ring_step c (c\<lparr>ring := (ring c)\<lparr>write_seq := write_seq (ring c) + 1\<rparr>,
                   ring_pcs := (ring_pcs c)(t := SubmitLoad (write_seq (ring c)) formatted),
                   submitted := submitted c @ [formatted]\<rparr>)"
| ring_submit_step: "is_submit (ring_pcs c t) \<Longrightarrow> submit_step (ring_pcs c t) (ring c) = (pc, rb) \<Longrightarrow>
    ring_step c (c\<lparr>ring := rb, ring_pcs := (ring_pcs c)(t := pc)\<rparr>)"
| ring_dump: "ring_pcs c t = RingIdle \<Longrightarrow>
    ring_step c (c\<lparr>ring_pcs := (ring_pcs c)(t := dump_start (ring c))\<rparr>)"
| ring_dump_step: "ring_pcs c t \<noteq> RingIdle \<Longrightarrow> \<not> is_submit (ring_pcs c t) \<Longrightarrow> dump_step (ring_pcs c t) (ring c) = (pc, out) \<Longrightarrow>
    ring_step c (c\<lparr>ring_pcs := (ring_pcs c)(t := pc), dumped := dumped c @ out\<rparr>)"

inductive_cases ring_stepE: "ring_step c c'"

inductive ring_reachable :: "nat \<Rightarrow> nat \<Rightarrow> ring_config \<Rightarrow> bool" for slots slot_size where
  ring_init: "ring_reachable slots slot_size
    \<lparr>ring = RingBufferSink_create slots slot_size, ring_pcs = (\<lambda>_. RingIdle), submitted = [], dumped = []\<rparr>"
| ring_more: "ring_reachable slots slot_size c \<Longrightarrow> ring_step c c' \<Longrightarrow> ring_reachable slots slot_size c'"

section \<open>Generations\<close>

abbreviation flagged :: "u64 \<Rightarrow> bool" where
  "flagged g \<equiv> g AND kWritingFlag \<noteq> 0"

lemma bit_flag: "bit kWritingFlag n \<longleftrightarrow> n = 63"
  unfolding kWritingFlag_def bit_push_bit_iff by (auto simp: bit_1_iff)

lemma flag_nonzero [simp]: "kWritingFlag \<noteq> 0"
  by (simp add: kWritingFlag_def)

lemma flagged_iff: "flagged g \<longleftrightarrow> bit g 63"
  using and_exp_eq_0_iff_not_bit [of g 63] by (simp add: kWritingFlag_def push_bit_eq_mult)

lemma not_flagged: "unat g < 2 ^ 63 \<Longrightarrow> \<not> flagged g"
proof -
  assume "unat g < 2 ^ 63"
  then have "drop_bit 63 g = 0" by (simp add: drop_bit_eq_div unat_eq_0 [symmetric] unat_div_distrib)
  moreover have "bit (drop_bit 63 g) 0 = bit g 63" by (simp add: bit_simps)
  ultimately show ?thesis unfolding flagged_iff by simp
qed

lemma flagged_mark [simp]: "flagged (seq OR kWritingFlag)"
  unfolding flagged_iff by (simp add: bit_or_iff bit_flag)

lemma mark_inj: "\<not> flagged a \<Longrightarrow> \<not> flagged b \<Longrightarrow> a OR kWritingFlag = b OR kWritingFlag \<Longrightarrow> a = b"
proof -
  assume a: "\<not> flagged a" "\<not> flagged b" and eq: "a OR kWritingFlag = b OR kWritingFlag"
  have "bit a n = bit b n" for n
  proof (cases "n = 63")
    case False
    have "bit (a OR kWritingFlag) n = bit (b OR kWritingFlag) n" by (simp only: eq)
    with False show ?thesis by (simp add: bit_or_iff bit_flag)
  qed (use a in \<open>simp add: flagged_iff\<close>)
  then show ?thesis by (simp add: bit_eq_iff)
qed

lemma free_value: "unat kSlotFree = 2 ^ 63 - 1"
  by (simp add: kSlotFree_def kWritingFlag_def)

section \<open>Slots and words\<close>

definition word_at :: "bytes \<Rightarrow> nat \<Rightarrow> bytes" where
  "word_at m w = take 8 (drop (8 * w) m) @ replicate (8 - length (take 8 (drop (8 * w) m))) 0"

definition copied :: "bytes \<Rightarrow> nat \<Rightarrow> bytes list \<Rightarrow> bool" where
  "copied m n d \<longleftrightarrow> (\<forall>w < n. 8 * w < length m \<longrightarrow> d ! w = word_at m w)"

definition filled :: "nat \<Rightarrow> bytes \<Rightarrow> Slot \<Rightarrow> bool" where
  "filled sz m s \<longleftrightarrow> slot_len s = word_of_nat (length (take sz m)) \<and> copied (take sz m) (length (take sz m)) (slot_data s)"

text \<open>What a dump writes for a record.\<close>

definition dump_line :: "bytes \<Rightarrow> bytes" where
  "dump_line m = (if length m > kDumpCopyMax then (take kDumpCopyMax m)[kDumpCopyMax - 1 := 10] else m)"

lemma store_word_eq: "store_word m w d = d[w := word_at m w]"
  by (simp add: store_word_def word_at_def Let_def)

lemma store_word_sizes:
  "length (store_word m w d) = length d" "\<forall>x \<in> set d. length x = 8 \<Longrightarrow> \<forall>x \<in> set (store_word m w d). length x = 8"
  using set_update_subset_insert [of d w "word_at m w"] by (auto simp: store_word_eq word_at_def)

lemma word_in_range: "8 * w < length (take sz m) \<Longrightarrow> w < slot_words sz"
  by (simp add: slot_words_def) linarith

lemma copied_store:
  assumes "copied m w d" and "w < length d"
  shows "copied m (Suc w) (store_word m w d)"
  using assms by (auto simp: copied_def store_word_eq nth_list_update less_Suc_eq)

lemma copied_all: "copied m w d \<Longrightarrow> length m \<le> 8 * w \<Longrightarrow> copied m n d"
  by (auto simp: copied_def)

lemma load_word_copied:
  assumes "copied m (length m) d" and "8 * w < len" and "len \<le> length m"
  shows "take (min (8 * w) len) m @ load_word d w len = take (min (8 * Suc w) len) m"
proof -
  have "d ! w = word_at m w" using assms by (simp add: copied_def)
  then have "load_word d w len = take (min 8 (len - 8 * w)) (drop (8 * w) m)"
    using assms(2,3) by (simp add: load_word_def word_at_def min_def, arith)
  moreover have "min (8 * w) len + min 8 (len - 8 * w) = min (8 * Suc w) len" using assms(2) by (simp add: min_def, arith)
  ultimately show ?thesis using assms(2) take_add [of "8 * w" "min 8 (len - 8 * w)" m] by (simp add: min_def split: if_splits)
qed

section \<open>The invariant\<close>

definition pc_seq :: "ring_pc \<Rightarrow> u64 option" where
  "pc_seq pc = (case pc of SubmitLoad q _ \<Rightarrow> Some q | SubmitClaim q _ _ \<Rightarrow> Some q | SubmitCopy q _ _ \<Rightarrow> Some q
     | SubmitLen q _ \<Rightarrow> Some q | SubmitPublish q \<Rightarrow> Some q | _ \<Rightarrow> None)"

text \<open>The number of the record whose slot a thread owns, and the number of the record a dump copies.\<close>

definition pc_owns :: "ring_pc \<Rightarrow> u64 option" where
  "pc_owns pc = (case pc of SubmitCopy q _ _ \<Rightarrow> Some q | SubmitLen q _ \<Rightarrow> Some q | SubmitPublish q \<Rightarrow> Some q | _ \<Rightarrow> None)"

definition pc_reads :: "ring_pc \<Rightarrow> u64 option" where
  "pc_reads pc = (case pc of DumpLen _ _ g \<Rightarrow> Some g | DumpCopy _ _ g _ _ _ _ \<Rightarrow> Some g | DumpCheck _ _ g _ \<Rightarrow> Some g | _ \<Rightarrow> None)"

definition settled :: "(nat \<Rightarrow> ring_pc) \<Rightarrow> bytes list \<Rightarrow> u64 \<Rightarrow> bool" where
  "settled pcs sub g \<longleftrightarrow> unat g < length sub \<and> (\<forall>t. pc_seq (pcs t) \<noteq> Some g)"

definition pc_data :: "RingBufferSink \<Rightarrow> bytes list \<Rightarrow> ring_pc \<Rightarrow> bool" where
  "pc_data rb sub pc =
     (case pc of
        SubmitLoad q m \<Rightarrow> m = sub ! unat q
      | SubmitClaim q m cur \<Rightarrow> m = sub ! unat q \<and> \<not> flagged cur
      | SubmitCopy q src w \<Rightarrow> src = take (ring_slot_size rb) (sub ! unat q) \<and> copied src w (slot_data (slot_at rb (unat q)))
      | SubmitLen q src \<Rightarrow> src = take (ring_slot_size rb) (sub ! unat q) \<and> copied src (length src) (slot_data (slot_at rb (unat q)))
      | SubmitPublish q \<Rightarrow> filled (ring_slot_size rb) (sub ! unat q) (slot_at rb (unat q))
      | DumpCopy i n g len tr w buf \<Rightarrow>
          (let m = take (ring_slot_size rb) (sub ! unat g) in
           len \<le> ring_slot_size rb \<and> len \<le> kDumpCopyMax \<and> length buf = min (8 * w) len \<and> (slot_gen (slot_at rb i) = g \<longrightarrow> len = min (length m) kDumpCopyMax \<and> tr = (length m > kDumpCopyMax) \<and> buf = take (min (8 * w) len) m))
      | DumpCheck i n g buf \<Rightarrow> slot_gen (slot_at rb i) = g \<longrightarrow> buf = dump_line (take (ring_slot_size rb) (sub ! unat g))
      | _ \<Rightarrow> True)"

definition slot_fits :: "nat \<Rightarrow> Slot \<Rightarrow> bool" where
  "slot_fits sz s \<longleftrightarrow> length (slot_data s) = slot_words sz \<and> (\<forall>x \<in> set (slot_data s). length x = 8) \<and> unat (slot_len s) \<le> sz"

definition ring_ok :: "RingBufferSink \<Rightarrow> bool" where
  "ring_ok rb \<longleftrightarrow> 0 < slots_cap rb \<and> length (ring_slots rb) = slots_cap rb \<and> ring_slot_size rb < 2 ^ 32
     \<and> (\<forall>s \<in> set (ring_slots rb). slot_fits (ring_slot_size rb) s)"

definition slot_ok :: "(nat \<Rightarrow> ring_pc) \<Rightarrow> bytes list \<Rightarrow> nat \<Rightarrow> Slot \<Rightarrow> bool" where
  "slot_ok pcs sub sz s \<longleftrightarrow> slot_gen s = kSlotFree \<or> flagged (slot_gen s)
     \<or> settled pcs sub (slot_gen s) \<and> filled sz (sub ! unat (slot_gen s)) s"

definition pc_ok :: "RingBufferSink \<Rightarrow> (nat \<Rightarrow> ring_pc) \<Rightarrow> bytes list \<Rightarrow> ring_pc \<Rightarrow> bool" where
  "pc_ok rb pcs sub pc \<longleftrightarrow> pc_data rb sub pc \<and> (\<forall>q. pc_seq pc = Some q \<longrightarrow> unat q < length sub)
     \<and> (\<forall>q. pc_owns pc = Some q \<longrightarrow> slot_gen (slot_at rb (unat q)) = q OR kWritingFlag)
     \<and> (\<forall>g. pc_reads pc = Some g \<longrightarrow> settled pcs sub g)"

definition seqs_distinct :: "(nat \<Rightarrow> ring_pc) \<Rightarrow> bool" where
  "seqs_distinct pcs \<longleftrightarrow> (\<forall>t u q. pc_seq (pcs t) = Some q \<longrightarrow> pc_seq (pcs u) = Some q \<longrightarrow> t = u)"

definition ring_inv :: "ring_config \<Rightarrow> bool" where
  "ring_inv c \<longleftrightarrow> ring_ok (ring c) \<and> write_seq (ring c) = word_of_nat (length (submitted c)) \<and> length (submitted c) < 2 ^ 63
     \<and> (\<forall>s \<in> set (ring_slots (ring c)). slot_ok (ring_pcs c) (submitted c) (ring_slot_size (ring c)) s)
     \<and> (\<forall>t. pc_ok (ring c) (ring_pcs c) (submitted c) (ring_pcs c t))
     \<and> seqs_distinct (ring_pcs c)
     \<and> (\<forall>b \<in> set (dumped c). \<exists>m \<in> set (submitted c). b = dump_line (take (ring_slot_size (ring c)) m))"

section \<open>Preservation\<close>

lemma pc_idle [simp]: "pc_seq RingIdle = None" "pc_ok rb pcs sub RingIdle"
  by (simp_all add: pc_ok_def pc_data_def pc_seq_def pc_owns_def pc_reads_def)

lemma slot_at_set [simp]:
  "ring_ok rb \<Longrightarrow> slot_at (set_slot i s rb) j = (if j mod slots_cap rb = i mod slots_cap rb then s else slot_at rb j)"
  by (auto simp: slot_at_def set_slot_def ring_ok_def nth_list_update)

lemma set_slot_sel [simp]:
  "slots_cap (set_slot i s rb) = slots_cap rb" "ring_slot_size (set_slot i s rb) = ring_slot_size rb" "write_seq (set_slot i s rb) = write_seq rb"
  by (simp_all add: set_slot_def)

lemma ring_ok_set:
  assumes "ring_ok rb" and "slot_fits (ring_slot_size rb) s"
  shows "ring_ok (set_slot i s rb)"
  using assms set_update_subset_insert [of "ring_slots rb" "i mod slots_cap rb" s] by (auto simp: ring_ok_def set_slot_def)

lemma slot_at_in: "ring_ok rb \<Longrightarrow> slot_at rb i \<in> set (ring_slots rb)"
  by (simp add: ring_ok_def slot_at_def)

lemma set_slots: "x \<in> set (ring_slots (set_slot i s rb)) \<Longrightarrow> x = s \<or> x \<in> set (ring_slots rb)"
  using set_update_subset_insert [of "ring_slots rb" "i mod slots_cap rb" s] by (auto simp: set_slot_def)

text \<open>A store to a slot does not disturb a thread that owns another slot or copies another record.\<close>

lemma pc_ok_set:
  assumes "pc_ok rb pcs sub pc" and "ring_ok rb"
    and "\<And>q. pc_owns pc = Some q \<Longrightarrow> unat q mod slots_cap rb \<noteq> i mod slots_cap rb" and "pc_reads pc \<noteq> Some (slot_gen s)"
  shows "pc_ok (set_slot i s rb) pcs sub pc"
proof -
  have "pc_data (set_slot i s rb) sub pc" using assms by (auto simp: pc_ok_def pc_data_def pc_owns_def pc_reads_def Let_def split: ring_pc.splits)
  moreover have "slot_gen (slot_at (set_slot i s rb) (unat q)) = q OR kWritingFlag" if "pc_owns pc = Some q" for q
    using assms(1,2) assms(3) [OF that] that by (simp add: pc_ok_def)
  ultimately show ?thesis using assms(1) by (simp add: pc_ok_def)
qed

lemma seq_before:
  assumes "pc_seq ((pcs(t := pc)) u) = Some q" and "pc_seq pc = pc_seq (pcs t) \<or> pc_seq pc = None"
  shows "pc_seq (pcs u) = Some q"
  using assms by (auto split: if_splits)

lemma seqs_distinct_done:
  "seqs_distinct pcs \<Longrightarrow> pc_seq pc = pc_seq (pcs t) \<or> pc_seq pc = None \<Longrightarrow> seqs_distinct (pcs(t := pc))"
  using seq_before [of pcs t pc] unfolding seqs_distinct_def by blast

lemma settled_done:
  assumes "settled pcs sub g" and "pc_seq pc = pc_seq (pcs t) \<or> pc_seq pc = None"
  shows "settled (pcs(t := pc)) sub g"
  using assms by (auto simp: settled_def)

lemma pc_ok_done:
  assumes "pc_ok rb pcs sub p" and "pc_seq pc = pc_seq (pcs t) \<or> pc_seq pc = None"
  shows "pc_ok rb (pcs(t := pc)) sub p"
  using assms settled_done [of pcs sub _ pc t] by (auto simp: pc_ok_def)

lemma slot_ok_done:
  assumes "slot_ok pcs sub sz s" and "pc_seq pc = pc_seq (pcs t) \<or> pc_seq pc = None"
  shows "slot_ok (pcs(t := pc)) sub sz s"
  using assms settled_done [of pcs sub _ pc t] by (auto simp: slot_ok_def)

lemma owner_flagged:
  assumes "pc_ok rb pcs sub pc" and "pc_owns pc = Some q" and "length sub < 2 ^ 63"
  shows "slot_gen (slot_at rb (unat q)) = q OR kWritingFlag" and "\<not> flagged q" and "unat q < length sub"
proof -
  have "pc_seq pc = Some q" using assms(2) by (auto simp: pc_owns_def pc_seq_def split: ring_pc.splits)
  then show u: "unat q < length sub" using assms(1) by (simp add: pc_ok_def)
  show "\<not> flagged q" by (rule not_flagged) (use u assms(3) in simp)
  show "slot_gen (slot_at rb (unat q)) = q OR kWritingFlag" using assms(1,2) by (simp add: pc_ok_def)
qed

lemma ring_inv_seq: "ring_inv c \<Longrightarrow> pc_seq (ring_pcs c t) = Some q \<Longrightarrow> pc_seq (ring_pcs c u) = Some q \<Longrightarrow> t = u"
  unfolding ring_inv_def seqs_distinct_def by blast

text \<open>
  A step of thread \<open>t\<close> that stores \<open>s\<close> to the slot of number \<open>i\<close>: it is enough to look at the slot and
  at the thread itself, when the slot was marked by \<open>t\<close> or not marked at all.
\<close>

lemma ring_inv_store:
  assumes inv: "ring_inv c" and len: "slot_fits (ring_slot_size (ring c)) s"
    and seq: "pc_seq pc = pc_seq (ring_pcs c t) \<or> pc_seq pc = None"
    and mine: "\<And>u q. u \<noteq> t \<Longrightarrow> pc_owns (ring_pcs c u) = Some q \<Longrightarrow> slot_gen (slot_at (ring c) i) \<noteq> q OR kWritingFlag"
    and fresh: "\<And>u. u \<noteq> t \<Longrightarrow> pc_reads (ring_pcs c u) \<noteq> Some (slot_gen s)"
    and slot: "slot_ok ((ring_pcs c)(t := pc)) (submitted c) (ring_slot_size (ring c)) s"
    and self: "pc_ok (set_slot i s (ring c)) ((ring_pcs c)(t := pc)) (submitted c) pc"
  shows "ring_inv (c\<lparr>ring := set_slot i s (ring c), ring_pcs := (ring_pcs c)(t := pc)\<rparr>)"
proof -
  let ?rb = "ring c" and ?pcs = "ring_pcs c" and ?sub = "submitted c"
  have ok: "ring_ok ?rb" and old: "\<And>u. pc_ok ?rb ?pcs ?sub (?pcs u)" using inv by (simp_all add: ring_inv_def)
  have "pc_ok (set_slot i s ?rb) (?pcs(t := pc)) ?sub ((?pcs(t := pc)) u)" for u
  proof (cases "u = t")
    case False
    have "unat q mod slots_cap ?rb \<noteq> i mod slots_cap ?rb" if "pc_owns (?pcs u) = Some q" for q
    proof
      assume "unat q mod slots_cap ?rb = i mod slots_cap ?rb"
      then have "slot_at ?rb i = slot_at ?rb (unat q)" by (simp add: slot_at_def)
      with mine [OF False that] old [of u] that show False by (simp add: pc_ok_def)
    qed
    from pc_ok_done [of _ ?pcs ?sub _ pc t, OF pc_ok_set [OF old ok this fresh [OF False]] seq] False show ?thesis by simp
  qed (use self in simp)
  moreover have "slot_ok (?pcs(t := pc)) ?sub (ring_slot_size ?rb) x" if "x \<in> set (ring_slots (set_slot i s ?rb))" for x
    using set_slots [OF that] slot slot_ok_done [of ?pcs ?sub _ _ pc t] seq inv by (auto simp: ring_inv_def)
  moreover have "seqs_distinct (?pcs(t := pc))" using seqs_distinct_done [of ?pcs pc t] seq inv by (simp add: ring_inv_def)
  ultimately show ?thesis using inv ring_ok_set [OF ok len] by (simp add: ring_inv_def)
qed

text \<open>A step of a thread that leaves the ring alone.\<close>

lemma ring_inv_move:
  assumes inv: "ring_inv c" and seq: "pc_seq pc = pc_seq (ring_pcs c t) \<or> pc_seq pc = None"
    and self: "pc_ok (ring c) ((ring_pcs c)(t := pc)) (submitted c) pc"
    and out: "\<forall>b \<in> set out. \<exists>m \<in> set (submitted c). b = dump_line (take (ring_slot_size (ring c)) m)"
  shows "ring_inv (c\<lparr>ring_pcs := (ring_pcs c)(t := pc), dumped := dumped c @ out\<rparr>)"
proof -
  let ?pcs = "ring_pcs c" and ?sub = "submitted c"
  have "pc_ok (ring c) (?pcs(t := pc)) ?sub ((?pcs(t := pc)) u)" for u
    using self pc_ok_done [of "ring c" ?pcs ?sub _ pc t] seq inv by (cases "u = t") (simp_all add: ring_inv_def)
  moreover have "slot_ok (?pcs(t := pc)) ?sub (ring_slot_size (ring c)) s" if "s \<in> set (ring_slots (ring c))" for s
    using slot_ok_done [of ?pcs ?sub _ _ pc t] seq inv that by (auto simp: ring_inv_def)
  moreover have "seqs_distinct (?pcs(t := pc))" using seqs_distinct_done [of ?pcs pc t] seq inv by (simp add: ring_inv_def)
  ultimately show ?thesis using inv out by (auto simp: ring_inv_def)
qed


lemma slot_ok_marked: "flagged (slot_gen s) \<Longrightarrow> slot_ok pcs sub sz s"
  by (simp add: slot_ok_def)

lemma no_reader_of_mark:
  assumes "ring_inv c" and "flagged g"
  shows "pc_reads (ring_pcs c u) \<noteq> Some g"
proof
  assume "pc_reads (ring_pcs c u) = Some g"
  with assms(1) have "unat g < length (submitted c)" "length (submitted c) < 2 ^ 63" by (auto simp: ring_inv_def pc_ok_def settled_def)
  with not_flagged [of g] assms(2) show False by simp
qed

lemma other_owner:
  assumes "ring_inv c" and "pc_owns (ring_pcs c t) = Some q" and "u \<noteq> t" and "pc_owns (ring_pcs c u) = Some q'"
  shows "slot_gen (slot_at (ring c) (unat q)) \<noteq> q' OR kWritingFlag"
proof
  have ok: "pc_ok (ring c) (ring_pcs c) (submitted c) (ring_pcs c v)" for v using assms(1) by (simp add: ring_inv_def)
  have len: "length (submitted c) < 2 ^ 63" using assms(1) by (simp add: ring_inv_def)
  note m = owner_flagged [OF ok assms(2) len] and m' = owner_flagged [OF ok assms(4) len]
  assume "slot_gen (slot_at (ring c) (unat q)) = q' OR kWritingFlag"
  with m(1) have "q OR kWritingFlag = q' OR kWritingFlag" by simp
  then have "q = q'" by (rule mark_inj [OF m(2) m'(2)])
  moreover have "pc_owns pc = Some x \<Longrightarrow> pc_seq pc = Some x" for pc x by (auto simp: pc_owns_def pc_seq_def split: ring_pc.splits)
  ultimately show False using ring_inv_seq [OF assms(1), of t q u] assms(2-4) by simp
qed

lemma submit_step_inv:
  assumes inv: "ring_inv c" and pc: "is_submit (ring_pcs c t)" and step: "submit_step (ring_pcs c t) (ring c) = (pc, rb)"
  shows "ring_inv (c\<lparr>ring := rb, ring_pcs := (ring_pcs c)(t := pc)\<rparr>)"
proof -
  let ?rb = "ring c" and ?sub = "submitted c"
  have ok: "ring_ok ?rb" and len: "length ?sub < 2 ^ 63" and old: "pc_ok ?rb (ring_pcs c) ?sub (ring_pcs c t)"
    using inv by (simp_all add: ring_inv_def)
  have move: "ring_inv (c\<lparr>ring := ?rb, ring_pcs := (ring_pcs c)(t := p)\<rparr>)"
    if "pc_seq p = pc_seq (ring_pcs c t) \<or> pc_seq p = None" "pc_ok ?rb ((ring_pcs c)(t := p)) ?sub p" for p
    using ring_inv_move [OF inv that, of "[]"] by simp
  have fits: "slot_fits (ring_slot_size ?rb) (slot_at ?rb i)" for i using ok slot_at_in [OF ok, of i] by (auto simp: ring_ok_def)
  note data = fits [unfolded slot_fits_def]
  have mark: "slot_gen (slot_at ?rb (unat q)) = q OR kWritingFlag" if "pc_owns (ring_pcs c t) = Some q" for q
    using owner_flagged(1) [OF old that len] .
  show ?thesis
  proof (cases "ring_pcs c t")
    case (SubmitLoad q m)
    with step old show ?thesis
      by (auto simp: submit_step_def Let_def pc_ok_def pc_data_def pc_seq_def pc_owns_def pc_reads_def split: if_splits intro!: move)
  next
    case (SubmitClaim q m cur)
    let ?s = "slot_at ?rb (unat q)"
    have cur: "\<not> flagged cur" using old SubmitClaim by (simp add: pc_ok_def pc_data_def)
    show ?thesis
    proof (cases "slot_gen ?s = cur")
      case True
      have "slot_gen ?s \<noteq> q' OR kWritingFlag" for q' using True cur flagged_mark by metis
      then show ?thesis using step SubmitClaim True old ok data slot_ok_marked
        by (auto simp: submit_step_def Let_def intro!: ring_inv_store [OF inv] no_reader_of_mark [OF inv])
          (auto simp: slot_fits_def slot_ok_def pc_ok_def pc_data_def pc_seq_def pc_owns_def pc_reads_def copied_def)
    next
      case False
      with step SubmitClaim show ?thesis
        by (auto simp: submit_step_def Let_def pc_ok_def pc_data_def pc_seq_def pc_owns_def pc_reads_def intro!: move)
    qed
  next
    case (SubmitCopy q src w)
    then have own: "pc_owns (ring_pcs c t) = Some q" by (simp add: pc_owns_def)
    have src: "src = take (ring_slot_size ?rb) (?sub ! unat q)" "copied src w (slot_data (slot_at ?rb (unat q)))" "unat q < length ?sub"
      using old SubmitCopy by (auto simp: pc_ok_def pc_data_def pc_seq_def)
    show ?thesis
    proof (cases "8 * w < length src")
      case True
      let ?s = "(slot_at ?rb (unat q))\<lparr>slot_data := store_word src w (slot_data (slot_at ?rb (unat q)))\<rparr>"
      have "w < length (slot_data (slot_at ?rb (unat q)))" using True word_in_range [of w] data [of "unat q"] unfolding src(1) by simp
      note cp = copied_store [OF src(2) this]
      have "pc_ok (set_slot (unat q) ?s ?rb) ((ring_pcs c)(t := SubmitCopy q src (w + 1))) ?sub (SubmitCopy q src (w + 1))"
        using src(1,3) cp mark [OF own] ok by (simp add: pc_ok_def pc_data_def pc_seq_def pc_owns_def pc_reads_def)
      moreover have "pc = SubmitCopy q src (w + 1)" "rb = set_slot (unat q) ?s ?rb"
        using step SubmitCopy True by (auto simp: submit_step_def Let_def)
      moreover have "slot_fits (ring_slot_size ?rb) ?s" using data [of "unat q"] store_word_sizes(2) [where d = "slot_data (slot_at ?rb (unat q))"]
        by (simp add: slot_fits_def store_word_sizes(1))
      ultimately show ?thesis
        using other_owner [OF inv own] no_reader_of_mark [OF inv] mark [OF own] SubmitCopy
        by (simp add: pc_seq_def slot_ok_def ring_inv_store [OF inv])
    next
      case False
      with step SubmitCopy src mark [OF own] copied_all [OF src(2), of "length src"] show ?thesis
        by (auto simp: submit_step_def pc_ok_def pc_data_def pc_seq_def pc_owns_def pc_reads_def intro!: move)
    qed
  next
    case (SubmitLen q src)
    then have own: "pc_owns (ring_pcs c t) = Some q" by (simp add: pc_owns_def)
    let ?s = "(slot_at ?rb (unat q))\<lparr>slot_len := word_of_nat (length src)\<rparr>"
    have src: "src = take (ring_slot_size ?rb) (?sub ! unat q)" "copied src (length src) (slot_data (slot_at ?rb (unat q)))" "unat q < length ?sub"
      using old SubmitLen by (auto simp: pc_ok_def pc_data_def pc_seq_def)
    then have "pc_ok (set_slot (unat q) ?s ?rb) ((ring_pcs c)(t := SubmitPublish q)) ?sub (SubmitPublish q)"
      using mark [OF own] ok by (simp add: pc_ok_def pc_data_def pc_seq_def pc_owns_def pc_reads_def filled_def)
    moreover have "pc = SubmitPublish q" "rb = set_slot (unat q) ?s ?rb" using step SubmitLen by (auto simp: submit_step_def)
    moreover have "slot_fits (ring_slot_size ?rb) ?s"
    proof -
      have "unat (word_of_nat (length src) :: u32) \<le> length src" by (simp add: unat_of_nat)
      also have "\<dots> \<le> ring_slot_size ?rb" using src(1) by simp
      finally show ?thesis using data by (simp add: slot_fits_def)
    qed
    ultimately show ?thesis
      using other_owner [OF inv own] no_reader_of_mark [OF inv] mark [OF own] SubmitLen
      by (simp add: pc_seq_def slot_ok_def ring_inv_store [OF inv])
  next
    case (SubmitPublish q)
    then have own: "pc_owns (ring_pcs c t) = Some q" and seq: "pc_seq (ring_pcs c t) = Some q" by (simp_all add: pc_owns_def pc_seq_def)
    let ?s = "(slot_at ?rb (unat q))\<lparr>slot_gen := q\<rparr>"
    have fill: "filled (ring_slot_size ?rb) (?sub ! unat q) ?s" "unat q < length ?sub"
      using old SubmitPublish by (simp_all add: pc_ok_def pc_data_def pc_seq_def filled_def)
    have "pc_seq (((ring_pcs c)(t := RingIdle)) u) \<noteq> Some q" for u
      using ring_inv_seq [OF inv seq, of u] by (cases "u = t") (auto simp: pc_seq_def)
    with fill have "slot_ok ((ring_pcs c)(t := RingIdle)) ?sub (ring_slot_size ?rb) ?s" by (simp add: slot_ok_def settled_def)
    moreover have "pc_reads (ring_pcs c u) \<noteq> Some q" for u
      using inv seq by (auto simp: ring_inv_def pc_ok_def settled_def)
    moreover have "pc = RingIdle" "rb = set_slot (unat q) ?s ?rb" using step SubmitPublish by (auto simp: submit_step_def)
    ultimately show ?thesis
      using other_owner [OF inv own] data
      by (simp add: slot_fits_def ring_inv_store [OF inv])
  qed (use pc in \<open>simp_all add: is_submit_def\<close>)
qed

lemma dump_line_short: "length m \<le> kDumpCopyMax \<Longrightarrow> dump_line m = m"
  by (simp add: dump_line_def)

lemma dump_step_inv:
  assumes inv: "ring_inv c" and pc: "ring_pcs c t \<noteq> RingIdle" "\<not> is_submit (ring_pcs c t)"
    and step: "dump_step (ring_pcs c t) (ring c) = (pc, out)"
  shows "ring_inv (c\<lparr>ring_pcs := (ring_pcs c)(t := pc), dumped := dumped c @ out\<rparr>)"
proof (rule ring_inv_move [OF inv])
  let ?rb = "ring c" and ?sub = "submitted c" and ?sz = "ring_slot_size (ring c)"
  have ok: "ring_ok ?rb" and old: "pc_ok ?rb (ring_pcs c) ?sub (ring_pcs c t)" using inv by (simp_all add: ring_inv_def)
  have slot: "slot_ok (ring_pcs c) ?sub ?sz (slot_at ?rb i)" for i using inv slot_at_in [OF ok, of i] by (simp add: ring_inv_def)
  have fits: "slot_fits (ring_slot_size ?rb) (slot_at ?rb i)" for i using ok slot_at_in [OF ok, of i] by (auto simp: ring_ok_def)
  have none: "pc_seq pc = None"
    using step pc unfolding dump_step_def is_submit_def pc_seq_def by (auto simp: Let_def split: ring_pc.splits if_splits)
  then show "pc_seq pc = pc_seq (ring_pcs c t) \<or> pc_seq pc = None" by simp
  have keep: "settled ((ring_pcs c)(t := pc)) ?sub g" if "settled (ring_pcs c) ?sub g" for g using settled_done [OF that] none by simp
  have full: "unat (slot_len (slot_at ?rb i)) = length (take ?sz (?sub ! unat g)) \<and> copied (take ?sz (?sub ! unat g)) (length (take ?sz (?sub ! unat g))) (slot_data (slot_at ?rb i))"
    if "settled (ring_pcs c) ?sub g" "slot_gen (slot_at ?rb i) = g" for g i
  proof -
    have u: "unat g < 2 ^ 63 - 1" using that(1) inv by (auto simp: ring_inv_def settled_def)
    then have "\<not> flagged g" "g \<noteq> kSlotFree" using not_flagged [of g] free_value by auto
    with slot [of i] that(2) have "filled ?sz (?sub ! unat g) (slot_at ?rb i)" by (simp add: slot_ok_def)
    moreover have "length (take ?sz (?sub ! unat g)) < 2 ^ LENGTH(32)" using ok by (simp add: ring_ok_def min_less_iff_disj)
    ultimately show ?thesis unfolding filled_def by (simp add: unat_word_of_nat_eq)
  qed
  have "pc_ok ?rb ((ring_pcs c)(t := pc)) ?sub pc \<and> (\<forall>b \<in> set out. \<exists>m \<in> set ?sub. b = dump_line (take ?sz m))"
  proof (cases "ring_pcs c t")
    case (DumpLoad i n)
    have "settled (ring_pcs c) ?sub (slot_gen (slot_at ?rb i))" if "slot_gen (slot_at ?rb i) \<noteq> kSlotFree" "\<not> flagged (slot_gen (slot_at ?rb i))"
      using slot [of i] that by (simp add: slot_ok_def)
    with step DumpLoad keep show ?thesis
      by (auto simp: dump_step_def Let_def pc_ok_def pc_data_def pc_seq_def pc_owns_def pc_reads_def split: if_splits)
  next
    case (DumpLen i n g)
    then have st: "settled (ring_pcs c) ?sub g" using old by (simp add: pc_ok_def pc_reads_def)
    show ?thesis
      using step DumpLen keep [OF st] full [OF st, of i] fits [of i]
      by (auto simp: dump_step_def Let_def slot_fits_def min.coboundedI1 pc_ok_def pc_data_def pc_seq_def pc_owns_def pc_reads_def split: if_splits)
  next
    case (DumpCopy i n g len tr w buf)
    then have st: "settled (ring_pcs c) ?sub g" using old by (simp add: pc_ok_def pc_reads_def)
    let ?m = "take ?sz (?sub ! unat g)"
    have b: "len = min (length ?m) kDumpCopyMax \<and> tr = (length ?m > kDumpCopyMax) \<and> buf = take (min (8 * w) len) ?m"
      if "slot_gen (slot_at ?rb i) = g"
      using old DumpCopy that by (simp add: pc_ok_def pc_data_def Let_def)
    show ?thesis
    proof (cases "8 * w < len")
      case True
      let ?buf = "buf @ load_word (slot_data (slot_at ?rb i)) w len"
      have copy: "?buf = take (min (8 * Suc w) len) ?m" if g: "slot_gen (slot_at ?rb i) = g"
      proof -
        have "len \<le> length ?m" "buf = take (min (8 * w) len) ?m" using b [OF g] by (blast intro: min.cobounded1)+
        with load_word_copied [OF conjunct2 [OF full [OF st g]] True] show ?thesis by simp
      qed
      have len: "len \<le> ring_slot_size ?rb" "length buf = min (8 * w) len" "len \<le> kDumpCopyMax"
        using old DumpCopy by (simp_all add: pc_ok_def pc_data_def Let_def)
      then have "length (slot_data (slot_at ?rb i) ! w) = 8" using fits [of i] True by (auto simp: slot_fits_def slot_words_def)
      then have "length ?buf = min (8 * Suc w) len" using True len(2) by (simp add: load_word_def min_def) arith
      then have "pc_data ?rb ?sub (DumpCopy i n g len tr (Suc w) ?buf)"
        unfolding pc_data_def Let_def ring_pc.case using len(1,3) copy b by blast
      moreover have "pc = DumpCopy i n g len tr (Suc w) ?buf" "out = []" using True step DumpCopy by (simp_all add: dump_step_def)
      ultimately show ?thesis using keep [OF st] by (simp add: pc_ok_def pc_seq_def pc_owns_def pc_reads_def)
    next
      case False
      have "(if tr then buf[len - 1 := 10] else buf) = dump_line ?m" if g: "slot_gen (slot_at ?rb i) = g"
        using b [OF g] False by (auto simp: dump_line_def min_def split: if_splits)
      with False step DumpCopy keep [OF st] show ?thesis
        by (auto simp: dump_step_def pc_ok_def pc_data_def pc_seq_def pc_owns_def pc_reads_def)
    qed
  next
    case (DumpCheck i n g buf)
    then have st: "unat g < length ?sub" and b: "slot_gen (slot_at ?rb i) = g \<Longrightarrow> buf = dump_line (take ?sz (?sub ! unat g))"
      using old by (simp_all add: pc_ok_def pc_reads_def settled_def pc_data_def)
    have "?sub ! unat g \<in> set ?sub" using st by simp
    with step DumpCheck b show ?thesis
      by (auto simp: dump_step_def pc_ok_def pc_data_def pc_seq_def pc_owns_def pc_reads_def split: if_splits)
  qed (use pc in \<open>simp_all add: is_submit_def\<close>)
  then show "pc_ok ?rb ((ring_pcs c)(t := pc)) ?sub pc" "\<forall>b \<in> set out. \<exists>m \<in> set ?sub. b = dump_line (take ?sz m)" by simp_all
qed

lemma submit_start_inv:
  assumes inv: "ring_inv c" and idle: "ring_pcs c t = RingIdle" and room: "length (submitted c) + 1 < 2 ^ 63"
  shows "ring_inv (c\<lparr>ring := (ring c)\<lparr>write_seq := write_seq (ring c) + 1\<rparr>,
    ring_pcs := (ring_pcs c)(t := SubmitLoad (write_seq (ring c)) m), submitted := submitted c @ [m]\<rparr>)"
proof -
  let ?rb = "(ring c)\<lparr>write_seq := write_seq (ring c) + 1\<rparr>" and ?q = "write_seq (ring c)" and ?sub = "submitted c"
  let ?pcs = "(ring_pcs c)(t := SubmitLoad ?q m)"
  have q: "?q = word_of_nat (length ?sub)" using inv by (simp add: ring_inv_def)
  have u: "unat ?q = length ?sub" unfolding q by (rule unat_word_of_nat_eq) (use room in simp)
  have at: "slot_at ?rb i = slot_at (ring c) i" for i by (simp add: slot_at_def)
  have keep: "settled ?pcs (?sub @ [m]) g" if "settled (ring_pcs c) ?sub g" for g
    using that u by (auto simp: settled_def pc_seq_def)
  have data: "pc_data ?rb (?sub @ [m]) pc" if "pc_ok (ring c) (ring_pcs c) ?sub pc" for pc
    using that by (auto simp: pc_ok_def pc_data_def pc_seq_def pc_reads_def settled_def at nth_append Let_def split: ring_pc.splits)
  have "pc_ok ?rb ?pcs (?sub @ [m]) (?pcs v)" for v
  proof (cases "v = t")
    case True
    then show ?thesis using u by (simp add: pc_ok_def pc_data_def pc_seq_def pc_owns_def pc_reads_def)
  next
    case False
    have "pc_ok (ring c) (ring_pcs c) ?sub (ring_pcs c v)" using inv by (simp add: ring_inv_def)
    with data keep False show ?thesis by (auto simp: pc_ok_def at less_SucI)
  qed
  moreover have "slot_ok ?pcs (?sub @ [m]) (ring_slot_size (ring c)) s" if "s \<in> set (ring_slots (ring c))" for s
  proof -
    have "slot_ok (ring_pcs c) ?sub (ring_slot_size (ring c)) s" using inv that by (simp add: ring_inv_def)
    moreover have "settled (ring_pcs c) ?sub g \<Longrightarrow> (?sub @ [m]) ! unat g = ?sub ! unat g" for g by (simp add: settled_def nth_append)
    ultimately show ?thesis using keep [of "slot_gen s"] unfolding slot_ok_def by auto
  qed
  moreover have "seqs_distinct ?pcs"
  proof -
    have "unat q < length ?sub" if "pc_seq (ring_pcs c v) = Some q" for v q using inv that by (simp add: ring_inv_def pc_ok_def)
    then have "pc_seq (ring_pcs c v) \<noteq> Some ?q" for v using u by force
    with inv show ?thesis by (auto simp: ring_inv_def seqs_distinct_def pc_seq_def)
  qed
  ultimately show ?thesis using inv room by (auto simp: ring_inv_def ring_ok_def q)
qed

lemma dump_start_inv:
  assumes "ring_inv c"
  shows "ring_inv (c\<lparr>ring_pcs := (ring_pcs c)(t := dump_start (ring c))\<rparr>)"
  using ring_inv_move [OF assms, of "dump_start (ring c)" t "[]"]
  by (simp add: dump_start_def Let_def pc_ok_def pc_data_def pc_seq_def pc_owns_def pc_reads_def)

lemma ring_step_submitted: "ring_step c c' \<Longrightarrow> length (submitted c) \<le> length (submitted c')"
  by (induction rule: ring_step.induct) simp_all

lemma ring_step_inv:
  assumes "ring_step c c'" and "ring_inv c" and "length (submitted c') < 2 ^ 63"
  shows "ring_inv c'"
  using assms
proof cases
  case (ring_submit t m)
  then show ?thesis using submit_start_inv [of c t m] assms(2,3) by simp
next
  case (ring_submit_step t pc rb)
  then show ?thesis using submit_step_inv [of c t pc rb] assms(2) by simp
next
  case (ring_dump t)
  then show ?thesis using dump_start_inv assms(2) by simp
next
  case (ring_dump_step t pc out)
  then show ?thesis using dump_step_inv [of c t pc out] assms(2) by simp
qed

lemma ring_reachable_inv:
  assumes "ring_reachable slots slot_size c" and "length (submitted c) < 2 ^ 63" and "slot_size < 2 ^ 32"
  shows "ring_inv c \<and> ring_slot_size (ring c) = (if slot_size < 64 then 512 else slot_size)"
  using assms
proof (induction rule: ring_reachable.induct)
  case ring_init
  then show ?case by (auto simp: ring_inv_def RingBufferSink_create_def ring_ok_def slot_ok_def Let_def seqs_distinct_def slot_fits_def)
next
  case (ring_more c c')
  have "ring_slot_size (ring c') = ring_slot_size (ring c)"
    using ring_more.hyps(2) by cases (auto simp: submit_step_def Let_def split: ring_pc.splits if_splits)
  with ring_more ring_step_submitted [OF ring_more.hyps(2)] ring_step_inv [OF ring_more.hyps(2)] show ?case by simp
qed

section \<open>Properties\<close>

text \<open>
  C36. Under every interleaving of threads that log and of crash dumps (with fewer than 2^63
  records, a slot size below 2^32, on sequentially consistent memory), every line a dump writes
  is the text of one submitted record, cut to the slot size and to the dump buffer: never parts
  of two records.
\<close>

theorem ring_dump_whole_records:
  assumes "ring_reachable slots slot_size c" and "length (submitted c) < 2 ^ 63" and "slot_size < 2 ^ 32" and "b \<in> set (dumped c)"
  shows "\<exists>m \<in> set (submitted c). b = dump_line (take (if slot_size < 64 then 512 else slot_size) m)"
  using ring_reachable_inv [OF assms(1-3)] assms(4) by (auto simp: ring_inv_def)

text \<open>The next step of a thread that is not idle.\<close>

definition ring_next :: "nat \<Rightarrow> ring_config \<Rightarrow> ring_config" where
  "ring_next t c =
     (if ring_pcs c t = RingIdle then c
      else if is_submit (ring_pcs c t) then
        (case submit_step (ring_pcs c t) (ring c) of (pc, rb) \<Rightarrow> c\<lparr>ring := rb, ring_pcs := (ring_pcs c)(t := pc)\<rparr>)
      else
        (case dump_step (ring_pcs c t) (ring c) of (pc, out) \<Rightarrow> c\<lparr>ring_pcs := (ring_pcs c)(t := pc), dumped := dumped c @ out\<rparr>))"

lemma ring_next_reachable: "ring_reachable slots slot_size c \<Longrightarrow> ring_reachable slots slot_size (ring_next t c)"
  unfolding ring_next_def using ring_more ring_submit_step [of c t] ring_dump_step [of c t] by (auto split: prod.splits)

lemma ring_run_reachable: "ring_reachable slots slot_size c \<Longrightarrow> ring_reachable slots slot_size (fold ring_next ts c)"
  by (induction ts arbitrary: c) (simp_all add: ring_next_reachable)

definition demo_logged :: ring_config where
  "demo_logged =
     (let c = \<lparr>ring = RingBufferSink_create 1 64, ring_pcs = (\<lambda>_. RingIdle), submitted = [], dumped = []\<rparr>;
          c = c\<lparr>ring := (ring c)\<lparr>write_seq := write_seq (ring c) + 1\<rparr>, ring_pcs := (ring_pcs c)(0 := SubmitLoad (write_seq (ring c)) [72, 105]),
                submitted := submitted c @ [[72, 105]]\<rparr>
      in fold ring_next (replicate 6 0) c)"

definition demo_ring :: ring_config where
  "demo_ring = fold ring_next (replicate 5 1) (demo_logged\<lparr>ring_pcs := (ring_pcs demo_logged)(1 := dump_start (ring demo_logged))\<rparr>)"

lemma demo_ring_reachable: "ring_reachable 1 64 demo_ring"
proof -
  have "ring_reachable 1 64 demo_logged"
    unfolding demo_logged_def Let_def by (intro ring_run_reachable ring_more [OF ring_init ring_submit]) simp
  moreover have "ring_pcs demo_logged 1 = RingIdle" by code_simp
  ultimately show ?thesis unfolding demo_ring_def by (intro ring_run_reachable ring_more [OF _ ring_dump])
qed

lemma demo_ring_eval: "dumped demo_ring = [[72, 105]] \<and> submitted demo_ring = [[72, 105]]"
  by code_simp

theorem ring_dump_whole_records_witness:
  "[72, 105] \<in> set (dumped demo_ring) \<and> (\<exists>m \<in> set (submitted demo_ring). [72, 105] = dump_line (take 64 m))"
  using ring_dump_whole_records [OF demo_ring_reachable, of "[72, 105]"] demo_ring_eval by simp

text \<open>
  C37. In every reachable state of the crash ring (with fewer than 2^63 records and a slot size
  below 2^32) the slots keep their shape: every word a writer stores and every word a dump loads
  is inside the payload of its slot, and what a dump copies fits its buffer of kDumpCopyMax
  bytes.
\<close>

theorem ring_accesses_in_bounds:
  assumes "ring_reachable slots slot_size c" and "length (submitted c) < 2 ^ 63" and "slot_size < 2 ^ 32"
  shows "(\<forall>t q src w. ring_pcs c t = SubmitCopy q src w \<and> 8 * w < length src \<longrightarrow> w < length (slot_data (slot_at (ring c) (unat q))))
    \<and> (\<forall>t i n g len truncated w buf. ring_pcs c t = DumpCopy i n g len truncated w buf \<and> 8 * w < len
         \<longrightarrow> w < length (slot_data (slot_at (ring c) i)) \<and> length (buf @ load_word (slot_data (slot_at (ring c) i)) w len) \<le> kDumpCopyMax)"
proof -
  let ?rb = "ring c"
  have inv: "ring_inv c" using ring_reachable_inv [OF assms] by simp
  then have ok: "ring_ok ?rb" and pcs: "\<And>t. pc_ok ?rb (ring_pcs c) (submitted c) (ring_pcs c t)" by (simp_all add: ring_inv_def)
  have fits: "slot_fits (ring_slot_size ?rb) (slot_at ?rb i)" for i using ok slot_at_in [OF ok, of i] by (auto simp: ring_ok_def)
  have "w < length (slot_data (slot_at ?rb (unat q)))" if "ring_pcs c t = SubmitCopy q src w" "8 * w < length src" for t q src w
  proof -
    have "src = take (ring_slot_size ?rb) (submitted c ! unat q)" using pcs [of t] that(1) by (simp add: pc_ok_def pc_data_def)
    with word_in_range [of w] that(2) show ?thesis using fits [of "unat q"] by (simp add: slot_fits_def)
  qed
  moreover have "w < length (slot_data (slot_at ?rb i)) \<and> length (buf @ load_word (slot_data (slot_at ?rb i)) w len) \<le> kDumpCopyMax"
    if "ring_pcs c t = DumpCopy i n g len tr w buf" "8 * w < len" for t i n g len tr w buf
  proof -
    have len: "len \<le> ring_slot_size ?rb" "len \<le> kDumpCopyMax" "length buf = min (8 * w) len"
      using pcs [of t] that(1) by (simp_all add: pc_ok_def pc_data_def Let_def)
    then have "w < slot_words (ring_slot_size ?rb)" using that(2) by (simp add: slot_words_def)
    moreover have "length (load_word (slot_data (slot_at ?rb i)) w len) \<le> len - 8 * w" by (simp add: load_word_def)
    ultimately show ?thesis using fits [of i] len that(2) by (simp add: slot_fits_def)
  qed
  ultimately show ?thesis by blast
qed

theorem ring_accesses_in_bounds_witness:
  "\<exists>c. ring_reachable 1 64 c \<and> ring_pcs c 0 = SubmitCopy 0 [72, 105] 0 \<and> 0 < length (slot_data (slot_at (ring c) 0))"
proof -
  let ?i = "\<lparr>ring = RingBufferSink_create 1 64, ring_pcs = (\<lambda>_. RingIdle), submitted = [], dumped = []\<rparr>"
  let ?c = "fold ring_next [0, 0] (?i\<lparr>ring := (ring ?i)\<lparr>write_seq := write_seq (ring ?i) + 1\<rparr>,
      ring_pcs := (ring_pcs ?i)(0 := SubmitLoad (write_seq (ring ?i)) [72, 105]), submitted := submitted ?i @ [[72, 105]]\<rparr>)"
  have r: "ring_reachable 1 64 ?c" by (intro ring_run_reachable ring_more [OF ring_init ring_submit]) simp
  have "ring_pcs ?c 0 = SubmitCopy 0 [72, 105] 0 \<and> submitted ?c = [[72, 105]]" by code_simp
  with ring_accesses_in_bounds [OF r] r show ?thesis by (intro exI [of _ ?c]) fastforce
qed

end
