(* ===== verification/Log.thy ===== *)
theory Log
  imports Sstable_Common
begin

text \<open>
  log.h, log.cpp and the sinks without concurrency of log_sinks.cpp. The logger is a state; what an
  operation does to the sinks and to the process is the list of its actions, in their order. The
  time zone conversion of the C library (\<open>localtime_r\<close> and \<open>strftime\<close>) is the parameter \<open>calendar\<close>.
  Sinks are named by what they were built from; the ring and the asynchronous sink have theories
  of their own.
\<close>

section \<open>Levels, categories and records\<close>

datatype Level = Trace | Debug | Info | Warn | Error | Fatal | Off

fun level_value :: "Level \<Rightarrow> nat" where
  "level_value Trace = 0"
| "level_value Debug = 1"
| "level_value Info = 2"
| "level_value Warn = 3"
| "level_value Error = 4"
| "level_value Fatal = 5"
| "level_value Off = 6"

lemma level_value_inj: "level_value a = level_value b \<Longrightarrow> a = b"
  by (cases a; cases b) simp_all

instantiation Level :: linorder
begin

definition less_eq_Level :: "Level \<Rightarrow> Level \<Rightarrow> bool" where
  "a \<le> b \<longleftrightarrow> level_value a \<le> level_value b"

definition less_Level :: "Level \<Rightarrow> Level \<Rightarrow> bool" where
  "a < b \<longleftrightarrow> level_value a < level_value b"

instance
  by standard (auto simp: less_eq_Level_def less_Level_def intro: level_value_inj)

end

datatype Category = General | Wal | SSTable | Memtable | Catalog | Compaction | IO | ENGINE_DAZZLE

datatype OverflowPolicy = Block | DropNewest | BlockOnWarnPlus

definition kCompileMinLevel :: "bool \<Rightarrow> Level" where
  "kCompileMinLevel ndebug = (if ndebug then Info else Trace)"

text \<open>A time point is a number of nanoseconds.\<close>

record LogRecord =
  rec_level :: Level
  rec_category :: Category
  rec_ts :: int
  rec_tid :: u64
  rec_file :: string
  rec_line :: int
  rec_func :: string
  rec_message :: string

record LogConfig =
  default_level :: Level
  category_levels :: "Category \<Rightarrow> Level"
  config_async :: bool
  queue_capacity :: nat
  config_overflow :: OverflowPolicy
  file_path :: "string option"
  config_console :: bool
  enable_crash_handler :: bool
  config_ring_slots :: nat
  ring_slot_bytes :: nat

definition LogConfig_create :: LogConfig where
  "LogConfig_create =
     \<lparr>default_level = Info, category_levels = (\<lambda>_. Info), config_async = False, queue_capacity = 8192,
      config_overflow = BlockOnWarnPlus, file_path = None, config_console = True, enable_crash_handler = False,
      config_ring_slots = 1024, ring_slot_bytes = 512\<rparr>"

section \<open>Formatting\<close>

fun level_to_string :: "Level \<Rightarrow> string" where
  "level_to_string Trace = ''TRACE''"
| "level_to_string Debug = ''DEBUG''"
| "level_to_string Info = ''INFO ''"
| "level_to_string Warn = ''WARN ''"
| "level_to_string Error = ''ERROR''"
| "level_to_string Fatal = ''FATAL''"
| "level_to_string _ = ''UNKNOW''"

fun category_to_string :: "Category \<Rightarrow> string" where
  "category_to_string General = ''general''"
| "category_to_string Wal = ''wal''"
| "category_to_string SSTable = ''sstable''"
| "category_to_string Memtable = ''memtable''"
| "category_to_string Compaction = ''compaction''"
| "category_to_string IO = ''io''"
| "category_to_string _ = ''unknown''"

definition signed_decimal :: "int \<Rightarrow> string" where
  "signed_decimal n = (if n < 0 then CHR ''-'' # decimal (nat (- n)) else decimal (nat n))"

text \<open>The conversion \<open>{:03d}\<close>: zeros between the sign and the digits up to a width of three.\<close>

definition three_digits :: "int \<Rightarrow> string" where
  "three_digits n =
     (let sign = (if n < 0 then ''-'' else ''''); ds = decimal (nat \<bar>n\<bar>)
      in sign @ replicate (3 - length (sign @ ds)) (CHR ''0'') @ ds)"

text \<open>Duration casts truncate towards zero.\<close>

definition truncated_div :: "int \<Rightarrow> int \<Rightarrow> int" where
  "truncated_div a b = (if a < 0 then - (- a div b) else a div b)"

definition ts_seconds :: "int \<Rightarrow> int" where
  "ts_seconds ts = truncated_div ts 1000000000"

text \<open>The two static variables each thread keeps.\<close>

record format_cache =
  last_sec :: int
  time_str :: string

definition format_cache_init :: format_cache where
  "format_cache_init = \<lparr>last_sec = 0, time_str = ''''\<rparr>"

definition format_record :: "(int \<Rightarrow> string) \<Rightarrow> LogRecord \<Rightarrow> format_cache \<Rightarrow> string \<times> format_cache" where
  "format_record calendar r cache =
     (let sec = ts_seconds (rec_ts r);
          cache = (if sec \<noteq> last_sec cache then \<lparr>last_sec = sec, time_str = calendar sec\<rparr> else cache);
          ms = truncated_div (rec_ts r - sec * 1000000000) 1000000
      in (''['' @ time_str cache @ ''.'' @ three_digits ms @ ''] ['' @ level_to_string (rec_level r) @ ''] [''
            @ category_to_string (rec_category r) @ ''] [TID:'' @ decimal (unat (rec_tid r)) @ ''] '' @ rec_file r @ '':''
            @ signed_decimal (rec_line r) @ '' '' @ rec_func r @ '': '' @ rec_message r @ [CHR 0x0A], cache))"

definition console_color :: "Level \<Rightarrow> string" where
  "console_color l =
     (case l of
        Warn \<Rightarrow> CHR 0x1B # ''[33m''
      | Error \<Rightarrow> CHR 0x1B # ''[31m''
      | Fatal \<Rightarrow> CHR 0x1B # ''[1;31m''
      | _ \<Rightarrow> '''')"

text \<open>What the console and the file sink write for a formatted record.\<close>

definition ConsoleSink_submit :: "bool \<Rightarrow> LogRecord \<Rightarrow> string \<Rightarrow> string" where
  "ConsoleSink_submit is_tty r formatted =
     (let color = console_color (rec_level r) in
      if is_tty \<and> color \<noteq> '''' then color @ formatted @ CHR 0x1B # ''[0m'' else formatted)"

definition FileSink_submit :: "bool \<Rightarrow> string \<Rightarrow> string" where
  "FileSink_submit is_open formatted = (if is_open then formatted else '''')"

section \<open>The logger\<close>

datatype LogSink =
    ConsoleSink
  | FileSink string
  | RingSink nat nat
  | Async "LogSink list" nat OverflowPolicy

datatype log_action =
    Submit LogSink LogRecord
  | Flush LogSink
  | Stop LogSink
  | FlushWithDeadline "LogSink list"
  | DumpRing
  | AbortProcess
  | InstallCrashHandlers
  | RegisterShutdown

text \<open>Every sink comes with its own level.\<close>

record Logger =
  active_levels :: "Category \<Rightarrow> Level"
  sinks :: "(LogSink \<times> Level) list"
  initialized :: bool
  shutdown_flag :: bool
  ring_ptr :: bool

definition Logger_create :: Logger where
  "Logger_create =
     \<lparr>active_levels = (\<lambda>_. default_level LogConfig_create), sinks = [(ConsoleSink, Trace)],
      initialized = False, shutdown_flag = False, ring_ptr = False\<rparr>"

definition log_init :: "LogConfig \<Rightarrow> Logger \<Rightarrow> (LogConfig \<times> log_action list) \<times> Logger" where
  "log_init config lg =
     (if initialized lg then ((config, []), lg)
      else
        let raw_sinks = (if config_console config then [ConsoleSink] else [])
              @ (case file_path config of Some p \<Rightarrow> [FileSink p] | None \<Rightarrow> []);
            config = (if config_ring_slots config = 0 then config\<lparr>config_ring_slots := 1024\<rparr> else config);
            config = (if ring_slot_bytes config < 64 then config\<lparr>ring_slot_bytes := 512\<rparr> else config);
            config = (if config_async config \<and> queue_capacity config = 0 then config\<lparr>queue_capacity := 8192\<rparr> else config);
            raw_sinks = raw_sinks @ [RingSink (config_ring_slots config) (ring_slot_bytes config)];
            next_sinks = (if config_async config then [Async raw_sinks (queue_capacity config) (config_overflow config)] else raw_sinks)
        in ((config, (if enable_crash_handler config then [InstallCrashHandlers] else []) @ [RegisterShutdown]),
            lg\<lparr>initialized := True, active_levels := category_levels config, ring_ptr := True,
               sinks := map (\<lambda>s. (s, Trace)) next_sinks\<rparr>))"

definition is_async :: "LogSink \<Rightarrow> bool" where
  "is_async s = (case s of Async _ _ _ \<Rightarrow> True | _ \<Rightarrow> False)"

definition log_shutdown :: "Logger \<Rightarrow> log_action list \<times> Logger" where
  "log_shutdown lg =
     (if shutdown_flag lg then ([], lg)
      else (concat (map (\<lambda>(s, _). (if is_async s then [Stop s] else []) @ [Flush s]) (sinks lg)), lg\<lparr>shutdown_flag := True\<rparr>))"

definition dump_ring_buffer_to_stderr :: "Logger \<Rightarrow> log_action list" where
  "dump_ring_buffer_to_stderr lg = (if ring_ptr lg then [DumpRing] else [])"

definition log_dispatch :: "LogRecord \<Rightarrow> Logger \<Rightarrow> log_action list" where
  "log_dispatch r lg =
     (if shutdown_flag lg \<and> rec_level r \<noteq> Fatal then []
      else
        map (\<lambda>(s, _). Submit s r) (filter (\<lambda>(_, l). rec_level r \<ge> l) (sinks lg))
        @ (if rec_level r = Fatal then FlushWithDeadline (map fst (sinks lg)) # dump_ring_buffer_to_stderr lg @ [AbortProcess] else []))"

definition is_enabled :: "bool \<Rightarrow> Category \<Rightarrow> Level \<Rightarrow> Logger \<Rightarrow> bool" where
  "is_enabled ndebug cat lvl lg = (if lvl < kCompileMinLevel ndebug then False else lvl \<ge> active_levels lg cat)"

definition add_sink :: "LogSink \<Rightarrow> Level \<Rightarrow> Logger \<Rightarrow> Logger" where
  "add_sink s l lg = lg\<lparr>sinks := sinks lg @ [(s, l)]\<rparr>"

definition set_level :: "Category \<Rightarrow> Level \<Rightarrow> Logger \<Rightarrow> Logger" where
  "set_level cat lvl lg = lg\<lparr>active_levels := (active_levels lg)(cat := lvl)\<rparr>"

text \<open>
  A log statement: only when the level is enabled the message is formatted (None when the formatting
  throws) and the record is filled with the time and the thread.
\<close>

definition log_impl :: "Category \<Rightarrow> Level \<Rightarrow> string \<Rightarrow> int \<Rightarrow> string \<Rightarrow> string option \<Rightarrow> int \<Rightarrow> u64 \<Rightarrow> Logger \<Rightarrow> log_action list" where
  "log_impl cat lvl file line fn formatted now tid lg =
     (let tls_buffer = (case formatted of Some s \<Rightarrow> s | None \<Rightarrow> ''<log formatting error>'')
      in log_dispatch \<lparr>rec_level = lvl, rec_category = cat, rec_ts = now, rec_tid = tid, rec_file = file, rec_line = line,
           rec_func = fn, rec_message = tls_buffer\<rparr> lg)"

definition ENIGMA_LOG :: "bool \<Rightarrow> Category \<Rightarrow> Level \<Rightarrow> string \<Rightarrow> int \<Rightarrow> string \<Rightarrow> string option \<Rightarrow> int \<Rightarrow> u64 \<Rightarrow> Logger \<Rightarrow> log_action list" where
  "ENIGMA_LOG ndebug cat lvl file line fn formatted now tid lg =
     (if is_enabled ndebug cat lvl lg then log_impl cat lvl file line fn formatted now tid lg else [])"

section \<open>The time cache\<close>

text \<open>The line a record gives without the cache.\<close>

definition plain_line :: "(int \<Rightarrow> string) \<Rightarrow> LogRecord \<Rightarrow> string" where
  "plain_line calendar r =
     fst (format_record calendar r \<lparr>last_sec = ts_seconds (rec_ts r), time_str = calendar (ts_seconds (rec_ts r))\<rparr>)"

fun format_all :: "(int \<Rightarrow> string) \<Rightarrow> LogRecord list \<Rightarrow> format_cache \<Rightarrow> string list" where
  "format_all calendar [] cache = []"
| "format_all calendar (r # rs) cache = (case format_record calendar r cache of (line, cache) \<Rightarrow> line # format_all calendar rs cache)"

definition cache_ok :: "(int \<Rightarrow> string) \<Rightarrow> format_cache \<Rightarrow> bool" where
  "cache_ok calendar cache \<longleftrightarrow> last_sec cache = 0 \<or> time_str cache = calendar (last_sec cache)"

lemma format_record_ok:
  assumes "cache_ok calendar cache" and "ts_seconds (rec_ts r) \<noteq> 0"
  shows "fst (format_record calendar r cache) = plain_line calendar r" and "cache_ok calendar (snd (format_record calendar r cache))"
  using assms by (auto simp: format_record_def plain_line_def cache_ok_def Let_def)

section \<open>Properties\<close>

text \<open>
  C40. Formatting records with the time string that each thread caches per second gives the same
  lines as formatting each record on its own, for records outside the second zero of the epoch.
\<close>

theorem format_cache_transparent:
  assumes "\<forall>r \<in> set rs. ts_seconds (rec_ts r) \<noteq> 0"
  shows "format_all calendar rs format_cache_init = map (plain_line calendar) rs"
proof -
  have "format_all calendar rs cache = map (plain_line calendar) rs" if "cache_ok calendar cache" for cache
    using assms that
  proof (induction rs arbitrary: cache)
    case (Cons r rs)
    then show ?case using format_record_ok [of calendar cache r] by (simp add: case_prod_unfold)
  qed simp
  then show ?thesis by (simp add: cache_ok_def format_cache_init_def)
qed

definition demo_log_record :: LogRecord where
  "demo_log_record = \<lparr>rec_level = Warn, rec_category = IO, rec_ts = 1700000000123456789, rec_tid = 7, rec_file = ''f.cpp'', rec_line = 12,
     rec_func = ''g'', rec_message = ''m''\<rparr>"

theorem format_cache_transparent_witness:
  "format_all (\<lambda>s. ''T'') [demo_log_record, demo_log_record] format_cache_init
     = [''[T.123] [WARN ] [io] [TID:7] f.cpp:12 g: m'' @ [CHR 0x0A], ''[T.123] [WARN ] [io] [TID:7] f.cpp:12 g: m'' @ [CHR 0x0A]]"
proof -
  have "ts_seconds (rec_ts demo_log_record) \<noteq> 0" by code_simp
  then have "format_all (\<lambda>s. ''T'') [demo_log_record, demo_log_record] format_cache_init = map (plain_line (\<lambda>s. ''T'')) [demo_log_record, demo_log_record]"
    by (intro format_cache_transparent) simp
  moreover have "plain_line (\<lambda>s. ''T'') demo_log_record = ''[T.123] [WARN ] [io] [TID:7] f.cpp:12 g: m'' @ [CHR 0x0A]" by code_simp
  ultimately show ?thesis by simp
qed

end
