(* ===== verification/Async_Sink.thy ===== *)
theory Async_Sink
  imports Log
begin

text \<open>
  AsyncSink of log_sinks.h and log_sinks.cpp: a bounded queue between the threads that log and a
  worker that hands batches to the sinks behind it. A critical section is one step, and so is the
  delivery of a record. A thread that waits on a condition variable may go on at every later moment
  at which its condition holds (the worker at every later moment, its wait has a timeout). The flag
  \<open>running\<close> is read under the mutex only, so that the exchange of \<open>stop\<close> is a step of its own.
  The call of \<open>stop\<close> that clears the flag goes on to join and drain; every other one finds it
  cleared and returns at once. Ghost fields list what was submitted, queued, dropped and delivered,
  and count the calls of \<open>stop\<close> that returned early.
\<close>

section \<open>The queue\<close>

record 'a bounded_queue =
  q_capacity :: nat
  q_array :: "'a list"
  q_head :: nat
  q_tail :: nat
  q_size :: nat

definition q_push :: "'a \<Rightarrow> 'a bounded_queue \<Rightarrow> 'a bounded_queue" where
  "q_push r q = q\<lparr>q_array := (q_array q)[q_tail q := r], q_tail := (q_tail q + 1) mod q_capacity q, q_size := q_size q + 1\<rparr>"

definition q_pop :: "'a bounded_queue \<Rightarrow> 'a \<times> 'a bounded_queue" where
  "q_pop q = (q_array q ! q_head q, q\<lparr>q_head := (q_head q + 1) mod q_capacity q, q_size := q_size q - 1\<rparr>)"

fun take_batch :: "nat \<Rightarrow> 'a bounded_queue \<Rightarrow> 'a list \<times> 'a bounded_queue" where
  "take_batch 0 q = ([], q)"
| "take_batch (Suc n) q =
     (if q_size q = 0 then ([], q)
      else (case q_pop q of (r, q) \<Rightarrow> case take_batch n q of (batch, q) \<Rightarrow> (r # batch, q)))"

section \<open>The sink\<close>

record AsyncSink =
  a_policy :: OverflowPolicy
  a_queue :: "LogRecord bounded_queue"
  a_inflight :: nat
  a_running :: bool
  a_dropped :: nat

definition AsyncSink_create :: "LogRecord list \<Rightarrow> nat \<Rightarrow> OverflowPolicy \<Rightarrow> AsyncSink" where
  "AsyncSink_create array capacity pol =
     \<lparr>a_policy = pol,
      a_queue = \<lparr>q_capacity = (if capacity = 0 then 8192 else capacity), q_array = array, q_head = 0, q_tail = 0, q_size = 0\<rparr>,
      a_inflight = 0, a_running = True, a_dropped = 0\<rparr>"

definition a_full :: "AsyncSink \<Rightarrow> bool" where
  "a_full a \<longleftrightarrow> q_size (a_queue a) = q_capacity (a_queue a)"

definition should_block :: "LogRecord \<Rightarrow> AsyncSink \<Rightarrow> bool" where
  "should_block r a \<longleftrightarrow> a_policy a = Block \<or> a_policy a = BlockOnWarnPlus \<and> rec_level r \<ge> Warn"

text \<open>Where a submission ends: the record is queued, dropped, to be delivered by the caller, or the caller waits.\<close>

datatype submit_outcome = Queued | Dropped | Inline | Waiting

definition a_enqueue :: "LogRecord \<Rightarrow> AsyncSink \<Rightarrow> AsyncSink" where
  "a_enqueue r a = a\<lparr>a_queue := q_push r (a_queue a)\<rparr>"

definition a_submit :: "LogRecord \<Rightarrow> AsyncSink \<Rightarrow> submit_outcome \<times> AsyncSink" where
  "a_submit r a =
     (if \<not> a_running a then (Inline, a)
      else if a_full a then
        (if should_block r a then (Waiting, a) else (Dropped, a\<lparr>a_dropped := a_dropped a + 1\<rparr>))
      else (Queued, a_enqueue r a))"

definition a_may_wake :: "AsyncSink \<Rightarrow> bool" where
  "a_may_wake a \<longleftrightarrow> q_size (a_queue a) < q_capacity (a_queue a) \<or> \<not> a_running a"

definition a_wake :: "LogRecord \<Rightarrow> AsyncSink \<Rightarrow> submit_outcome \<times> AsyncSink" where
  "a_wake r a = (if a_full a \<or> \<not> a_running a then (Inline, a) else (Queued, a_enqueue r a))"

definition worker_take :: "AsyncSink \<Rightarrow> LogRecord list \<times> AsyncSink" where
  "worker_take a =
     (case take_batch 256 (a_queue a) of (batch, q) \<Rightarrow> (batch, a\<lparr>a_queue := q, a_inflight := length batch\<rparr>))"

definition flush_ready :: "AsyncSink \<Rightarrow> bool" where
  "flush_ready a \<longleftrightarrow> q_size (a_queue a) = 0 \<and> a_inflight a = 0"

text \<open>The sinks behind that see a record.\<close>

definition deliver :: "(LogSink \<times> Level) list \<Rightarrow> LogRecord \<Rightarrow> log_action list" where
  "deliver behind r = map (\<lambda>(s, _). Submit s r) (filter (\<lambda>(_, l). rec_level r \<ge> l) behind)"

section \<open>All interleavings\<close>

datatype producer_pc = PIdle | PWait LogRecord | PDeliver LogRecord

datatype worker_pc = WCheck | WWait | WDeliver "LogRecord list" | WExit

datatype stop_pc = SIdle | SJoin | SDrain | SDeliver LogRecord | SDone

record async_config =
  asink :: AsyncSink
  producers :: "producer_pc list"
  worker :: worker_pc
  stopper :: stop_pc
  sent :: "LogRecord list"
  queued :: "LogRecord list"
  dropped :: "LogRecord list"
  worked :: "LogRecord list"
  inline :: "LogRecord list"
  early_stops :: nat

definition submitted_as :: "nat \<Rightarrow> LogRecord \<Rightarrow> submit_outcome \<Rightarrow> async_config \<Rightarrow> async_config" where
  "submitted_as t r out c =
     (case out of
        Queued \<Rightarrow> c\<lparr>producers := (producers c)[t := PIdle], queued := queued c @ [r]\<rparr>
      | Dropped \<Rightarrow> c\<lparr>producers := (producers c)[t := PIdle], dropped := dropped c @ [r]\<rparr>
      | Inline \<Rightarrow> c\<lparr>producers := (producers c)[t := PDeliver r]\<rparr>
      | Waiting \<Rightarrow> c\<lparr>producers := (producers c)[t := PWait r]\<rparr>)"

inductive async_step :: "async_config \<Rightarrow> async_config \<Rightarrow> bool" where
  as_submit: "t < length (producers c) \<Longrightarrow> producers c ! t = PIdle \<Longrightarrow> a_submit r (asink c) = (out, a) \<Longrightarrow>
    async_step c (submitted_as t r out (c\<lparr>asink := a, sent := sent c @ [r]\<rparr>))"
| as_wake: "t < length (producers c) \<Longrightarrow> producers c ! t = PWait r \<Longrightarrow> a_may_wake (asink c) \<Longrightarrow> a_wake r (asink c) = (out, a) \<Longrightarrow>
    async_step c (submitted_as t r out (c\<lparr>asink := a\<rparr>))"
| as_inline: "t < length (producers c) \<Longrightarrow> producers c ! t = PDeliver r \<Longrightarrow>
    async_step c (c\<lparr>producers := (producers c)[t := PIdle], inline := inline c @ [r]\<rparr>)"
| as_exit: "worker c = WCheck \<Longrightarrow> \<not> a_running (asink c) \<Longrightarrow> q_size (a_queue (asink c)) = 0 \<Longrightarrow> async_step c (c\<lparr>worker := WExit\<rparr>)"
| as_wait: "worker c = WCheck \<Longrightarrow> a_running (asink c) \<or> q_size (a_queue (asink c)) \<noteq> 0 \<Longrightarrow> async_step c (c\<lparr>worker := WWait\<rparr>)"
| as_take: "worker c = WWait \<Longrightarrow> worker_take (asink c) = (batch, a) \<Longrightarrow> async_step c (c\<lparr>asink := a, worker := WDeliver batch\<rparr>)"
| as_deliver: "worker c = WDeliver (r # batch) \<Longrightarrow> async_step c (c\<lparr>worker := WDeliver batch, worked := worked c @ [r]\<rparr>)"
| as_done: "worker c = WDeliver [] \<Longrightarrow> async_step c (c\<lparr>asink := (asink c)\<lparr>a_inflight := 0\<rparr>, worker := WCheck\<rparr>)"
| as_stop: "stopper c = SIdle \<Longrightarrow> a_running (asink c) \<Longrightarrow> async_step c (c\<lparr>asink := (asink c)\<lparr>a_running := False\<rparr>, stopper := SJoin\<rparr>)"
| as_stop_again: "\<not> a_running (asink c) \<Longrightarrow>
    async_step c (c\<lparr>asink := (asink c)\<lparr>a_running := False\<rparr>, early_stops := early_stops c + 1\<rparr>)"
| as_join: "stopper c = SJoin \<Longrightarrow> worker c = WExit \<Longrightarrow> async_step c (c\<lparr>stopper := SDrain\<rparr>)"
| as_drain: "stopper c = SDrain \<Longrightarrow> q_size (a_queue (asink c)) \<noteq> 0 \<Longrightarrow> q_pop (a_queue (asink c)) = (r, q) \<Longrightarrow>
    async_step c (c\<lparr>asink := (asink c)\<lparr>a_queue := q\<rparr>, stopper := SDeliver r\<rparr>)"
| as_drain_deliver: "stopper c = SDeliver r \<Longrightarrow> async_step c (c\<lparr>stopper := SDrain, worked := worked c @ [r]\<rparr>)"
| as_stopped: "stopper c = SDrain \<Longrightarrow> q_size (a_queue (asink c)) = 0 \<Longrightarrow> async_step c (c\<lparr>stopper := SDone\<rparr>)"

inductive_cases async_stepE: "async_step c c'"

definition async_init :: "nat \<Rightarrow> LogRecord list \<Rightarrow> nat \<Rightarrow> OverflowPolicy \<Rightarrow> async_config" where
  "async_init threads array capacity pol =
     \<lparr>asink = AsyncSink_create array capacity pol, producers = replicate threads PIdle, worker = WCheck, stopper = SIdle,
      sent = [], queued = [], dropped = [], worked = [], inline = [], early_stops = 0\<rparr>"

inductive async_reachable :: "nat \<Rightarrow> LogRecord list \<Rightarrow> nat \<Rightarrow> OverflowPolicy \<Rightarrow> async_config \<Rightarrow> bool" for threads array capacity pol where
  async_start: "length array = (if capacity = 0 then 8192 else capacity) \<Longrightarrow> async_reachable threads array capacity pol (async_init threads array capacity pol)"
| async_more: "async_reachable threads array capacity pol c \<Longrightarrow> async_step c c' \<Longrightarrow> async_reachable threads array capacity pol c'"

section \<open>The queue as a list\<close>

text \<open>The contract of a bounded first-in first-out queue.\<close>

locale fifo =
  fixes contents :: "'q \<Rightarrow> 'a list" and good :: "'q \<Rightarrow> bool" and room :: "'q \<Rightarrow> nat"
    and push :: "'a \<Rightarrow> 'q \<Rightarrow> 'q" and pop :: "'q \<Rightarrow> 'a \<times> 'q"
  assumes push_law: "good q \<Longrightarrow> length (contents q) < room q \<Longrightarrow>
      good (push r q) \<and> contents (push r q) = contents q @ [r] \<and> room (push r q) = room q"
    and pop_law: "good q \<Longrightarrow> contents q = r # rs \<Longrightarrow> \<exists>q'. pop q = (r, q') \<and> good q' \<and> contents q' = rs \<and> room q' = room q"
begin

lemma push_all:
  "good q \<Longrightarrow> length (contents q) + length rs \<le> room q \<Longrightarrow>
   good (fold push rs q) \<and> contents (fold push rs q) = contents q @ rs \<and> room (fold push rs q) = room q"
  by (induction rs arbitrary: q) (simp_all add: push_law)

lemma pop_push:
  assumes "good q" and "length (contents q) < room q"
  shows "\<exists>q'. pop (push r q) = (hd (contents q @ [r]), q') \<and> good q' \<and> contents q' = tl (contents q @ [r])"
  using push_law [OF assms, of r] pop_law [of "push r q"] by (cases "contents q") fastforce+

end

definition q_list :: "'a bounded_queue \<Rightarrow> 'a list" where
  "q_list q = map (\<lambda>i. q_array q ! ((q_head q + i) mod q_capacity q)) [0..<q_size q]"

definition q_ok :: "'a bounded_queue \<Rightarrow> bool" where
  "q_ok q \<longleftrightarrow> length (q_array q) = q_capacity q \<and> q_head q < q_capacity q \<and> q_size q \<le> q_capacity q
     \<and> q_tail q = (q_head q + q_size q) mod q_capacity q"

lemma length_q_list [simp]: "length (q_list q) = q_size q"
  by (simp add: q_list_def)

lemma q_list_empty [simp]: "q_list q = [] \<longleftrightarrow> q_size q = 0"
  by (simp add: q_list_def)

lemma q_list_nth: "i < q_size q \<Longrightarrow> q_list q ! i = q_array q ! ((q_head q + i) mod q_capacity q)"
  by (simp add: q_list_def)

lemma ring_index_neq: "i < n \<Longrightarrow> n < cap \<Longrightarrow> (h + i) mod cap \<noteq> (h + n) mod (cap :: nat)"
proof
  assume "i < n" "n < cap" and eq: "(h + i) mod cap = (h + n) mod cap"
  then have "cap dvd (h + n) - (h + i)" by (metis mod_eq_dvd_iff_nat nat_add_left_cancel_le less_imp_le)
  with \<open>i < n\<close> \<open>n < cap\<close> show False by (auto dest!: dvd_imp_le)
qed

lemma q_push_ok:
  assumes "q_ok q" and "q_size q < q_capacity q"
  shows "q_ok (q_push r q)" and "q_list (q_push r q) = q_list q @ [r]"
proof -
  have t: "q_tail q = (q_head q + q_size q) mod q_capacity q" "q_tail q < length (q_array q)" using assms by (simp_all add: q_ok_def)
  show "q_ok (q_push r q)" using assms by (simp add: q_ok_def q_push_def mod_Suc_eq)
  have "(q_array q)[q_tail q := r] ! ((q_head q + i) mod q_capacity q) = q_array q ! ((q_head q + i) mod q_capacity q)" if "i < q_size q" for i
    using ring_index_neq [OF that assms(2), of "q_head q"] t(1) by simp
  moreover have "(q_array q)[q_tail q := r] ! ((q_head q + q_size q) mod q_capacity q) = r" using t by simp
  ultimately show "q_list (q_push r q) = q_list q @ [r]" by (simp add: q_list_def q_push_def)
qed

lemma q_pop_ok:
  assumes "q_ok q" and "q_list q = r # rs"
  shows "\<exists>q'. q_pop q = (r, q') \<and> q_ok q' \<and> q_list q' = rs \<and> q_capacity q' = q_capacity q"
proof -
  have n: "q_size q = Suc (length rs)" using arg_cong [OF assms(2), of length] by simp
  have "q_list q ! 0 = q_array q ! (q_head q mod q_capacity q)" using n by (simp add: q_list_nth)
  then have "q_array q ! q_head q = r" using assms by (simp add: q_ok_def)
  moreover have "q_list (snd (q_pop q)) = rs"
  proof (rule nth_equalityI)
    fix i assume "i < length (q_list (snd (q_pop q)))"
    then have i: "Suc i < q_size q" by (simp add: q_pop_def)
    then have "q_list q ! Suc i = rs ! i" using assms(2) by simp
    with i show "q_list (snd (q_pop q)) ! i = rs ! i" by (simp add: q_list_nth q_pop_def mod_add_left_eq)
  qed (use n in \<open>simp add: q_pop_def\<close>)
  moreover have "q_ok (snd (q_pop q))" using assms(1) n by (simp add: q_ok_def q_pop_def mod_add_left_eq)
  ultimately show ?thesis by (simp add: q_pop_def)
qed

interpretation bq: fifo q_list q_ok q_capacity q_push q_pop
proof
  show "q_ok q \<Longrightarrow> length (q_list q) < q_capacity q \<Longrightarrow>
      q_ok (q_push r q) \<and> q_list (q_push r q) = q_list q @ [r] \<and> q_capacity (q_push r q) = q_capacity q" for q :: "'a bounded_queue" and r
    using q_push_ok [of q r] by (simp add: q_push_def)
qed (rule q_pop_ok)

lemma take_batch_ok:
  assumes "q_ok q"
  shows "\<exists>q'. take_batch n q = (take n (q_list q), q') \<and> q_ok q' \<and> q_list q' = drop n (q_list q) \<and> q_capacity q' = q_capacity q"
  using assms
proof (induction n arbitrary: q)
  case (Suc n)
  show ?case
  proof (cases "q_list q")
    case Nil
    then have "q_size q = 0" using length_q_list [of q] by simp
    with Suc.prems show ?thesis unfolding Nil by simp
  next
    case (Cons r rs)
    then have "q_size q \<noteq> 0" using length_q_list [of q] by auto
    moreover obtain q1 where "q_pop q = (r, q1)" "q_ok q1" "q_list q1 = rs" "q_capacity q1 = q_capacity q"
      using bq.pop_law [OF Suc.prems Cons] by (elim exE conjE)
    ultimately show ?thesis using Suc.IH [of q1] Cons by auto
  qed
qed simp

section \<open>The invariant\<close>

definition pending :: "producer_pc \<Rightarrow> LogRecord multiset" where
  "pending pc = (case pc of PIdle \<Rightarrow> {#} | PWait r \<Rightarrow> {#r#} | PDeliver r \<Rightarrow> {#r#})"

definition worker_batch :: "worker_pc \<Rightarrow> LogRecord list" where
  "worker_batch w = (case w of WDeliver batch \<Rightarrow> batch | _ \<Rightarrow> [])"

definition stop_held :: "stop_pc \<Rightarrow> LogRecord list" where
  "stop_held s = (case s of SDeliver r \<Rightarrow> [r] | _ \<Rightarrow> [])"

definition droppable :: "OverflowPolicy \<Rightarrow> LogRecord \<Rightarrow> bool" where
  "droppable pol r \<longleftrightarrow> pol = DropNewest \<or> pol = BlockOnWarnPlus \<and> rec_level r < Warn"

text \<open>Every record that was submitted is somewhere, and the queued ones are delivered in their order.\<close>

definition conserved :: "async_config \<Rightarrow> bool" where
  "conserved c \<longleftrightarrow> mset (sent c) = mset (queued c) + mset (dropped c) + mset (inline c) + (\<Sum>pc\<leftarrow>producers c. pending pc)"

definition in_order :: "async_config \<Rightarrow> bool" where
  "in_order c \<longleftrightarrow> queued c = worked c @ stop_held (stopper c) @ worker_batch (worker c) @ q_list (a_queue (asink c))"

definition drops_ok :: "async_config \<Rightarrow> bool" where
  "drops_ok c \<longleftrightarrow> length (dropped c) = a_dropped (asink c) \<and> (\<forall>r \<in> set (dropped c). droppable (a_policy (asink c)) r)"

definition control_ok :: "async_config \<Rightarrow> bool" where
  "control_ok c \<longleftrightarrow> (a_running (asink c) \<longleftrightarrow> stopper c = SIdle)
     \<and> (stopper c = SDrain \<or> stop_held (stopper c) \<noteq> [] \<or> stopper c = SDone \<longrightarrow> worker c = WExit)
     \<and> (stopper c = SDone \<longrightarrow> q_size (a_queue (asink c)) = 0) \<and> (a_inflight (asink c) = 0 \<longrightarrow> worker_batch (worker c) = [])"

definition async_inv :: "async_config \<Rightarrow> bool" where
  "async_inv c \<longleftrightarrow> q_ok (a_queue (asink c)) \<and> conserved c \<and> in_order c \<and> drops_ok c \<and> control_ok c"

lemmas async_inv_defs = async_inv_def conserved_def in_order_def drops_ok_def control_ok_def

lemma sum_list_update_pending:
  "t < length ps \<Longrightarrow> (\<Sum>pc\<leftarrow>ps[t := p]. pending pc) + pending (ps ! t) = (\<Sum>pc\<leftarrow>ps. pending pc) + pending p"
  by (induction ps arbitrary: t) (auto simp: nth_Cons add_ac split: nat.splits)

lemma pending_simps [simp]: "pending PIdle = {#}" "pending (PWait r) = {#r#}" "pending (PDeliver r) = {#r#}"
  by (simp_all add: pending_def)

lemma held_simps [simp]:
  "worker_batch WCheck = []" "worker_batch WWait = []" "worker_batch WExit = []" "worker_batch (WDeliver batch) = batch"
  "stop_held SIdle = []" "stop_held SJoin = []" "stop_held SDrain = []" "stop_held SDone = []" "stop_held (SDeliver r) = [r]"
  by (simp_all add: worker_batch_def stop_held_def)

lemma nothing_pending [simp]: "(\<Sum>pc\<leftarrow>replicate n PIdle. pending pc) = {#}"
  by (induction n) simp_all

lemma not_droppable: "\<not> should_block r a \<longleftrightarrow> droppable (a_policy a) r"
  by (cases "a_policy a") (auto simp: should_block_def droppable_def)

text \<open>A record that is waited for or new is placed: the outcome decides where it is counted.\<close>

lemma submitted_as_conserved:
  assumes "conserved c" and "t < length (producers c)" and "pending (producers c ! t) = {#}" and "asink c' = a" and "sent c' = sent c @ [r]"
    and "producers c' = producers c" and "queued c' = queued c" and "dropped c' = dropped c" and "inline c' = inline c"
  shows "conserved (submitted_as t r out c')"
  using assms sum_list_update_pending [of t "producers c" PIdle] sum_list_update_pending [of t "producers c" "PWait r"]
    sum_list_update_pending [of t "producers c" "PDeliver r"]
  by (cases out) (simp_all add: conserved_def submitted_as_def)

lemma woken_conserved:
  assumes "conserved c" and "t < length (producers c)" and "pending (producers c ! t) = {#r#}"
    and "producers c' = producers c" and "queued c' = queued c" and "dropped c' = dropped c" and "inline c' = inline c" and "sent c' = sent c"
  shows "conserved (submitted_as t r out c')"
  using assms sum_list_update_pending [of t "producers c" PIdle] sum_list_update_pending [of t "producers c" "PWait r"]
    sum_list_update_pending [of t "producers c" "PDeliver r"]
  by (cases out) (simp_all add: conserved_def submitted_as_def)

lemma submitted_as_sel [simp]:
  "asink (submitted_as t r out c) = asink c" "worker (submitted_as t r out c) = worker c" "stopper (submitted_as t r out c) = stopper c"
  "worked (submitted_as t r out c) = worked c" "sent (submitted_as t r out c) = sent c"
  "queued (submitted_as t r out c) = (if out = Queued then queued c @ [r] else queued c)"
  "dropped (submitted_as t r out c) = (if out = Dropped then dropped c @ [r] else dropped c)"
  by (cases out; simp add: submitted_as_def)+

text \<open>What placing a record does to the sink: only a running sink with room takes it into its queue.\<close>

definition placed :: "LogRecord \<Rightarrow> AsyncSink \<Rightarrow> submit_outcome \<Rightarrow> AsyncSink \<Rightarrow> bool" where
  "placed r a out a' \<longleftrightarrow> q_ok (a_queue a') \<and> a_policy a' = a_policy a \<and> a_running a' = a_running a \<and> a_inflight a' = a_inflight a
     \<and> (if out = Queued then a_running a \<and> q_list (a_queue a') = q_list (a_queue a) @ [r] else a_queue a' = a_queue a)
     \<and> (if out = Dropped then droppable (a_policy a) r \<and> a_dropped a' = a_dropped a + 1 else a_dropped a' = a_dropped a)"

lemma enqueue_placed: "q_ok (a_queue a) \<Longrightarrow> \<not> a_full a \<Longrightarrow> a_running a \<Longrightarrow> placed r a Queued (a_enqueue r a)"
  using q_push_ok [of "a_queue a" r] by (simp add: placed_def a_enqueue_def a_full_def q_ok_def)

lemma a_submit_placed: "q_ok (a_queue a) \<Longrightarrow> a_submit r a = (out, a') \<Longrightarrow> placed r a out a'"
  using enqueue_placed [of a r] not_droppable [of r a] by (auto simp: a_submit_def placed_def split: if_splits)

lemma a_wake_placed: "q_ok (a_queue a) \<Longrightarrow> a_wake r a = (out, a') \<Longrightarrow> placed r a out a'"
  using enqueue_placed [of a r] by (auto simp: a_wake_def placed_def split: if_splits)

lemma placed_inv:
  assumes "async_inv c" and "placed r (asink c) out a" and "conserved (submitted_as t r out c')"
    and "asink c' = a" and "worker c' = worker c" and "stopper c' = stopper c" and "worked c' = worked c"
    and "queued c' = queued c" and "dropped c' = dropped c"
  shows "async_inv (submitted_as t r out c')"
  using assms by (cases out) (auto simp: async_inv_def in_order_def drops_ok_def control_ok_def placed_def)

lemma async_step_inv:
  assumes "async_step c c'" and "async_inv c"
  shows "async_inv c'"
  using assms(1)
proof cases
  case (as_submit t r out a)
  have "conserved (submitted_as t r out (c\<lparr>asink := a, sent := sent c @ [r]\<rparr>))"
    using assms(2) as_submit by (intro submitted_as_conserved [of c]) (simp_all add: async_inv_def)
  then show ?thesis unfolding as_submit(1)
    by (rule placed_inv [OF assms(2) a_submit_placed, rotated 2]) (use assms(2) as_submit in \<open>simp_all add: async_inv_def\<close>)
next
  case (as_wake t r out a)
  have "conserved (submitted_as t r out (c\<lparr>asink := a\<rparr>))"
    using assms(2) as_wake by (intro woken_conserved [of c]) (simp_all add: async_inv_def)
  then show ?thesis unfolding as_wake(1)
    by (rule placed_inv [OF assms(2) a_wake_placed, rotated 2]) (use assms(2) as_wake in \<open>simp_all add: async_inv_def\<close>)
next
  case (as_inline t r)
  then show ?thesis using assms(2) sum_list_update_pending [of t "producers c" PIdle] by (simp add: async_inv_defs)
next
  case (as_take batch a)
  have ok: "q_ok (a_queue (asink c))" using assms(2) by (simp add: async_inv_def)
  obtain q where q: "take_batch 256 (a_queue (asink c)) = (take 256 (q_list (a_queue (asink c))), q)" "q_ok q"
      "q_list q = drop 256 (q_list (a_queue (asink c)))" using take_batch_ok [OF ok, of 256] by (elim exE conjE)
  then show ?thesis using as_take assms(2) length_q_list [of q] by (auto simp: async_inv_defs worker_take_def)
next
  case (as_drain r q)
  then obtain rs where "q_list (a_queue (asink c)) = r # rs" "q_ok q" "q_list q = rs"
    using q_pop_ok [of "a_queue (asink c)"] assms(2) length_q_list [of "a_queue (asink c)"]
    by (cases "q_list (a_queue (asink c))") (auto simp: async_inv_def)
  then show ?thesis using as_drain assms(2) by (auto simp: async_inv_defs)
qed (use assms(2) in \<open>auto simp: async_inv_defs\<close>)

lemma async_reachable_inv: "async_reachable threads array capacity pol c \<Longrightarrow> async_inv c \<and> a_policy (asink c) = pol"
proof (induction rule: async_reachable.induct)
  case async_start
  then show ?case
    by (auto simp: async_inv_defs async_init_def AsyncSink_create_def q_ok_def q_list_def simp del: map_replicate)
next
  case (async_more c c')
  have "a_policy (asink c') = a_policy (asink c)"
    using async_more.hyps(2) by cases (auto simp: a_submit_def a_wake_def a_enqueue_def worker_take_def split: if_splits prod.splits)
  with async_more async_step_inv show ?case by simp
qed

section \<open>Properties\<close>

text \<open>
  C38. Under every interleaving of producers, worker and stop, every record submitted to the
  asynchronous sink is queued, delivered by its producer, held by a producer that waits, or
  dropped; only records the overflow policy allows are dropped and all of them are counted;
  queued records are delivered in the order they were queued.
\<close>

theorem async_conserves_records:
  assumes "async_reachable threads array capacity pol c"
  shows "mset (sent c) = mset (queued c) + mset (dropped c) + mset (inline c) + (\<Sum>pc\<leftarrow>producers c. pending pc)
    \<and> (\<exists>rest. queued c = worked c @ rest) \<and> length (dropped c) = a_dropped (asink c)
    \<and> (\<forall>r \<in> set (dropped c). pol = DropNewest \<or> pol = BlockOnWarnPlus \<and> rec_level r < Warn)"
  using async_reachable_inv [OF assms] by (auto simp: async_inv_defs droppable_def)

text \<open>
  C39. When the condition flush waits for holds (and stop is not delivering a drained record),
  every queued record has been delivered; when the stop call that cleared the running flag has
  returned and no producer is in a call, every submitted record that was not dropped has been
  delivered. A further stop call returns at once and promises nothing.
\<close>

theorem async_flush_and_stop_complete:
  assumes "async_reachable threads array capacity pol c"
  shows "(flush_ready (asink c) \<and> (\<forall>r. stopper c \<noteq> SDeliver r) \<longrightarrow> worked c = queued c)
    \<and> (stopper c = SDone \<and> producers c = replicate threads PIdle \<longrightarrow> mset (sent c) = mset (worked c) + mset (inline c) + mset (dropped c))"
proof -
  have inv: "async_inv c" using async_reachable_inv [OF assms] by simp
  then have "flush_ready (asink c) \<and> (\<forall>r. stopper c \<noteq> SDeliver r) \<longrightarrow> worked c = queued c"
    by (cases "stopper c") (auto simp: async_inv_def in_order_def control_ok_def flush_ready_def)
  moreover have "stopper c = SDone \<and> producers c = replicate threads PIdle \<longrightarrow> mset (sent c) = mset (worked c) + mset (inline c) + mset (dropped c)"
    using inv by (auto simp: async_inv_defs add_ac simp del: map_replicate)
  ultimately show ?thesis by simp
qed

text \<open>A run: thread 0 submits, and the worker goes on.\<close>

definition run_submit :: "LogRecord \<Rightarrow> async_config \<Rightarrow> async_config" where
  "run_submit r c = (case a_submit r (asink c) of (out, a) \<Rightarrow> submitted_as 0 r out (c\<lparr>asink := a, sent := sent c @ [r]\<rparr>))"

definition run_worker :: "async_config \<Rightarrow> async_config" where
  "run_worker c =
     (case worker c of
        WCheck \<Rightarrow> if \<not> a_running (asink c) \<and> q_size (a_queue (asink c)) = 0 then c\<lparr>worker := WExit\<rparr> else c\<lparr>worker := WWait\<rparr>
      | WWait \<Rightarrow> (case worker_take (asink c) of (batch, a) \<Rightarrow> c\<lparr>asink := a, worker := WDeliver batch\<rparr>)
      | WDeliver [] \<Rightarrow> c\<lparr>asink := (asink c)\<lparr>a_inflight := 0\<rparr>, worker := WCheck\<rparr>
      | WDeliver (r # batch) \<Rightarrow> c\<lparr>worker := WDeliver batch, worked := worked c @ [r]\<rparr>
      | WExit \<Rightarrow> c)"

lemma run_submit_reachable:
  "async_reachable n array capacity pol c \<Longrightarrow> 0 < length (producers c) \<Longrightarrow> producers c ! 0 = PIdle \<Longrightarrow>
   async_reachable n array capacity pol (run_submit r c)"
  unfolding run_submit_def by (auto split: prod.splits intro: async_more as_submit)

lemma run_worker_reachable: "async_reachable n array capacity pol c \<Longrightarrow> async_reachable n array capacity pol (run_worker c)"
  unfolding run_worker_def by (auto split: prod.splits worker_pc.splits list.splits intro: async_more async_step.intros)

definition demo_async :: async_config where
  "demo_async = run_submit demo_log_record (run_submit demo_log_record (async_init 1 [demo_log_record] 1 DropNewest))"

lemma demo_async_reachable: "async_reachable 1 [demo_log_record] 1 DropNewest demo_async"
proof -
  let ?c = "async_init 1 [demo_log_record] 1 DropNewest"
  have "async_reachable 1 [demo_log_record] 1 DropNewest (run_submit demo_log_record ?c)"
    by (rule run_submit_reachable [OF async_start]) (simp_all add: async_init_def)
  moreover have "0 < length (producers (run_submit demo_log_record ?c))" "producers (run_submit demo_log_record ?c) ! 0 = PIdle" by code_simp+
  ultimately show ?thesis unfolding demo_async_def by (rule run_submit_reachable)
qed

theorem async_conserves_records_witness:
  "sent demo_async = [demo_log_record, demo_log_record] \<and> dropped demo_async = [demo_log_record] \<and> a_dropped (asink demo_async) = 1"
proof -
  have "sent demo_async = [demo_log_record, demo_log_record]" "dropped demo_async = [demo_log_record]" by code_simp+
  with async_conserves_records [OF demo_async_reachable] show ?thesis by simp
qed

theorem async_flush_and_stop_complete_witness:
  "worked ((run_worker ^^ 4) demo_async) = queued ((run_worker ^^ 4) demo_async) \<and> queued ((run_worker ^^ 4) demo_async) = [demo_log_record]"
proof -
  let ?c = "(run_worker ^^ 4) demo_async"
  have r: "async_reachable 1 [demo_log_record] 1 DropNewest ((run_worker ^^ n) demo_async)" for n
    by (induction n) (use demo_async_reachable run_worker_reachable in simp_all)
  have "flush_ready (asink ?c)" "stopper ?c = SIdle" "queued ?c = [demo_log_record]" by code_simp+
  with async_flush_and_stop_complete [OF r, of 4] show ?thesis by simp
qed

end
