(* ===== verification/Spec2Isabelle.thy ===== *)
theory Spec2Isabelle
  imports Key_Encoding Engine_Properties Ring_Buffer Async_Sink
begin

text \<open>
  A model of the enigma database: its storage engine \<open>Dazzle\<close>, a log-structured merge tree, with
  every part the engine is built from, and its logging library. File names are relative to
  \<open>src/src\<close> and \<open>src/include/enigmadb\<close>.

  \<^bold>\<open>The program.\<close> A client opens an engine on a directory and calls \<open>put\<close>, \<open>remove\<close>, \<open>get\<close>, \<open>flush\<close> and
  \<open>compact_now\<close> (\<open>storage/dazzle_db/dazzle_engine.cpp\<close>). A write takes a sequence number and a
  timestamp of the hybrid logical clock (\<open>hlc.cpp\<close>), appends a record to the write-ahead log, syncs
  it and then changes the memtable. A memtable that has grown is written to a sorted table file,
  the version set learns of the new table, the log is rotated and the compaction policy may choose
  tables that the compactor merges into one. A read looks into the memtable and then, through the
  table cache, into the tables of the current version, from the highest id to the lowest. Opening
  an engine loads the tables and replays the logs. All files are reached through the POSIX engine
  (\<open>io/posix_io_engine.cpp\<close>). The logging library (\<open>log.cpp\<close>, \<open>log_sinks.cpp\<close>) hands records to a
  console, a file, a lock-free ring for crash dumps, and a queue with a worker thread before them.

  \<^bold>\<open>Conventions.\<close> A \<open>Result<T>\<close> is a sum (theory \<open>Errors\<close>): \<open>Inl (Err e)\<close> is an error the code
  returns, \<open>Inl (Abort what)\<close> the end of the process or an execution without meaning: a failed
  assertion, an exception nobody catches, an access outside a buffer, a use of freed memory.
  Integers of 32 and 64 bits are words where they are stored, compared or may wrap, the capacity,
  usage and charges of the cache among them; sizes of buffers in memory are natural numbers, and
  so are the reference counts of cache entries (\<open>uint32_t\<close> in the code, the same below \<open>2^32\<close>
  references to one entry). Assertions are checked as in a debug build: a failed one is an abort,
  so a property that rules the abort out holds for release builds too. The two assertions of
  \<open>remove\<close> depend on the build instead, a component of the file system. Objects are records, methods are functions that return
  the changed object, and calls that touch files also take and return the file system. A function
  that holds a reader or a version in a local variable releases it on every path.

  \<^bold>\<open>Theories and sources.\<close>
  \<^item> \<open>Prelude\<close>, \<open>Ordered_Map\<close>: shared types and lemmas; \<open>std::map\<close>, behind the locale \<open>std_map\<close>.
  \<^item> \<open>Errors\<close> (\<open>error.h\<close>, \<open>result.h\<close>), \<open>Encoding\<close> (\<open>encoding.cpp\<close>), \<open>Crc32_Table\<close> and \<open>Crc32\<close>
    (\<open>crc32.cpp\<close>), \<open>Hash\<close> (\<open>hash.cpp\<close>), \<open>Storage_Types\<close> (\<open>key.h\<close>, \<open>value.h\<close>, \<open>key_range.h\<close>,
    \<open>internal_value.h\<close>), \<open>Key_Encoding\<close> (\<open>catalog/key_encoding.cpp\<close>), \<open>Bloom_Filter\<close>
    (\<open>bloom_filter.cpp\<close>), \<open>Memtable\<close> (\<open>memtable.cpp\<close>), \<open>Hlc\<close> (\<open>hlc.cpp\<close>).
  \<^item> \<open>File_System\<close>: the system calls the POSIX engine makes, on inodes with current and durable
    bytes, directory entries and descriptors; a schedule of answers injects short transfers and
    errors, the empty schedule is an execution without faults. The component \<open>assertions\<close> says
    whether the build checks the assertions of \<open>remove\<close> and, if so, what the links below
    \<open>/proc/self/fd\<close> read, which the kernel decides. \<open>Io_Engine\<close>: \<open>posix_io_engine.cpp\<close>
    and the locale \<open>io_engine\<close> its clients rely on.
  \<^item> \<open>Wal\<close> (\<open>wal_record.cpp\<close>, \<open>wal_writer.cpp\<close>, \<open>wal_reader.cpp\<close>), \<open>Sstable_Common\<close>
    (\<open>sstable_common.h\<close> and the file names), \<open>Sstable_Writer\<close>, \<open>Sstable_Reader\<close>,
    \<open>Sstable_Iterator\<close> (the files of these names), \<open>Merge_Iterator\<close> (\<open>merge_iterator.cpp\<close> over the
    locale \<open>sorted_sources\<close>, interpreted with the table iterators).
  \<^item> \<open>Hash_Map\<close>, \<open>Lru_Cache\<close>, \<open>Sharded_Cache\<close> (\<open>utils/cache.cpp\<close>, locales \<open>handle_table\<close> and
    \<open>pinned_cache\<close>), \<open>Table_Cache\<close> (\<open>table_cache.cpp\<close>).
  \<^item> \<open>Compaction_Policy\<close> (\<open>compaction_policy.cpp\<close>, \<open>tombstone_gc.cpp\<close>), \<open>Version_Set\<close>
    (\<open>version_set.h\<close>, \<open>version_edit.h\<close>), \<open>Version_Lookup\<close> (\<open>version.h\<close>), \<open>Compaction\<close>
    (\<open>compaction.cpp\<close>), \<open>Table_Files\<close> (what the writers do to files).
  \<^item> \<open>Dazzle_Engine\<close> and \<open>Dazzle_Recovery\<close> (\<open>dazzle_engine.cpp\<close>). \<open>Engine_Files\<close>,
    \<open>Engine_Invariant\<close>, \<open>Engine_Compaction\<close>, \<open>Engine_Log\<close>, \<open>Engine_Refinement\<close>, \<open>Engine_Restart\<close>
    and \<open>Engine_Client\<close> carry the proof that the engine implements a map; \<open>Engine_Properties\<close> holds
    the other properties of the engine.
  \<^item> \<open>Log\<close> (\<open>log.h\<close>, \<open>log.cpp\<close>, formatting and plain sinks of \<open>log_sinks.cpp\<close>), \<open>Ring_Buffer\<close> and
    \<open>Async_Sink\<close> (\<open>RingBufferSink\<close> and \<open>AsyncSink\<close>; the queue of the latter is an instance of the
    locale \<open>fifo\<close>).

  \<^bold>\<open>What is shown.\<close>
  \<^item> The engine: without faults and for one caller, every sequence of operations, flushes with
    compactions, and crashes with reopening is answered as by a finite map
    (\<open>engine_refines_map\<close>). The client state is related to the engine by an invariant over the
    history of tables: live tables and memtable form a stack whose sequence numbers grow towards
    the top. Under every schedule of faults a write reaches the memtable only after its record is
    durable (\<open>put_write_ahead\<close>). Compacting on demand after any such sequence leaves one table and
    changes no later answer (\<open>compact_now_keeps_map\<close>); replay ends at damage.
  \<^item> Where the code does not keep what it means to: a short write in the log hides the
    acknowledged writes behind it (\<open>torn_log_loses_writes\<close>), compacting empty tables aborts
    (\<open>compact_now_empty_table_aborts\<close>), the size-tiered policy leaves gaps
    (\<open>size_tiered_pick_gap\<close>) and a compaction with a gap brings overwritten values back
    (\<open>compaction_answers_from_inputs\<close>), a first entry larger than a block hides a table from scans
    (\<open>it_seek_skips_oversized\<close>), the log reader reads a length outside its buffer
    (\<open>wal_value_len_out_of_bounds\<close>), \<open>remove\<close> reports success for a failed unlink in a
    release build and aborts in a debug build (\<open>posix_remove_hides_failures\<close>).
  \<^item> Files: the exact effect of append and read under short and interrupted transfers, the byte
    image of a table, exact lookups in an open table, the round trips of log records, tables, file
    names and composite keys, and the detection of damage by the checksum.
  \<^item> Caches, versions, clock: no abort and no leak in a reachable state, pinned entries survive,
    files are reclaimed exactly when unused, timestamps increase under all interleavings.
  \<^item> Logging: a crash dump writes whole records only and stays in bounds under all interleavings;
    the asynchronous sink loses no record it does not count, the stop call that ends the worker
    drains the queue while further calls return at once; the time cache is transparent.

  \<^bold>\<open>Bounds and fuel.\<close> Loops that end by a measure are functions with a termination proof. The
  eviction loop has the length of the LRU list as fuel, the duplicate loop of the merge the number
  of sources plus one, the compaction loop the number of input bytes; running out of fuel is an
  abort, and the properties show that it does not happen. The properties of tables ask for less
  than 256 MiB of entries, so that no 32-bit offset or size wraps. The client of
  \<open>engine_refines_map\<close> writes less than that in log records and table entries together
  (\<open>total_bytes\<close>; a restart adds nothing), fits every entry into a block, runs a release build or
  a debug build on a relative directory (\<open>build_ok\<close>; the links of the kernel are absolute paths
  or hold no slash, so that no link is the name of a removed table) and uses keys that are not empty, because a log whose only record removes the
  empty key is dropped in a recovery. Numbers of files stay below \<open>2^63\<close>, since \<open>stoll\<close> throws beyond.
  The crash ring is shown correct for fewer than \<open>2^63\<close> records, as the code itself assumes.

  \<^bold>\<open>Assumptions of the model.\<close> A crash keeps the directory entries and of every file its durable
  bytes. Descriptors are not closed by the destructors of readers and writers (a read through an
  open descriptor works on after an unlink, as on POSIX). Floating point is exact: the averages of
  the size-tiered policy are rationals and the filter sizes are computed on the reals. The
  interleavings of clock, ring and queue are over sequentially consistent memory. The engine's
  operations run one at a time, as the code takes no lock for them; the cache operations are
  atomic, under the mutex of their shard.

  \<^bold>\<open>Not modelled.\<close> The crash signal handlers (\<open>log_crash.cpp\<close>), which call services of the operating
  system only; the deadline of the flush of a fatal record, which is a single action here; the
  writes of the engine to its log; the dump tool, the main program, temporary files and the test
  double of the iterator, which hold no logic of the engine; the engine registry and the manifest
  writer, which are declared and not implemented; concurrent callers of one engine.
\<close>

end
